(* ===== verification/Prelude.thy ===== *)
theory Prelude
  imports Main "HOL-Library.Multiset"
begin

text \<open>
  What every component of the development shares.

  \<^item> \<open>py_error\<close>: the exception classes the modelled code raises. A model function
    that can raise returns \<open>py_error + 'a\<close>; \<open>Inl e\<close> is "the call raised e". Error
    messages are not modelled. After \<open>Inl\<close> the state the exception left behind is not
    modelled either: no caller under \<open>src/\<close> that is modelled here catches one of these
    exceptions and goes on with the same object.
  \<^item> \<open>rbind\<close>: sequencing of such calls, and \<open>rguard\<close>: an \<open>if ...: raise\<close> statement.
  \<^item> \<open>ceil_div\<close>: the idiom \<open>-(-a // b)\<close>.
  \<^item> generic facts on lists, maps and multisets.

  Numbers: counters, lengths and block ids are \<open>nat\<close>; where the code takes an \<open>int\<close>
  and tests its sign, the model's argument is an \<open>int\<close> and the test is kept.
\<close>

section \<open>Exceptions as values\<close>

datatype py_error =
    ValueError | IndexError | KeyError | OverflowError
  | OutOfBlocksError | InvalidBlockError | BlockAllocatorError | RuntimeError

text \<open>A Python \<open>str\<close>, as the list of its code points.\<close>

type_synonym utext = "nat list"

fun rbind :: "'e + 'a \<Rightarrow> ('a \<Rightarrow> 'e + 'b) \<Rightarrow> 'e + 'b" where
  "rbind (Inl e) f = Inl e"
| "rbind (Inr x) f = f x"

definition rguard :: "bool \<Rightarrow> 'e \<Rightarrow> 'e + unit" where
  "rguard bad e = (if bad then Inl e else Inr ())"

lemma rbind_cong [fundef_cong]:
  "m = m' \<Longrightarrow> (\<And>x. m' = Inr x \<Longrightarrow> f x = f' x) \<Longrightarrow> rbind m f = rbind m' f'"
  by (cases m') auto

text \<open>Evaluation looks at the first result before it enters the continuation.\<close>

lemma rbind_case [code_unfold]: "rbind m f = (case m of Inl e \<Rightarrow> Inl e | Inr x \<Rightarrow> f x)"
  by (cases m) simp_all

lemma rbind_eq_Inr [simp]: "rbind m f = Inr y \<longleftrightarrow> (\<exists>x. m = Inr x \<and> f x = Inr y)"
  by (cases m) auto

lemma rbind_eq_Inl: "rbind m f = Inl e \<longleftrightarrow> m = Inl e \<or> (\<exists>x. m = Inr x \<and> f x = Inl e)"
  by (cases m) auto

lemma rbind_assoc: "rbind (rbind m f) g = rbind m (\<lambda>x. rbind (f x) g)"
  by (cases m) auto

lemma rguard_simps [simp]:
  "rguard False e = Inr ()"
  "rguard True e = Inl e"
  "rguard b e = Inr u \<longleftrightarrow> \<not> b"
  "rguard b e = Inl e' \<longleftrightarrow> b \<and> e' = e"
  by (auto simp: rguard_def)

text \<open>Whether a call returned, as a predicate.\<close>

definition returns :: "'e + 'a \<Rightarrow> bool" where
  "returns m \<longleftrightarrow> (\<exists>x. m = Inr x)"

lemma returns_code [code, simp]: "returns (Inl e) = False" "returns (Inr x) = True"
  by (simp_all add: returns_def)

lemma returnsI [intro]: "m = Inr x \<Longrightarrow> returns m"
  by (auto simp: returns_def)

lemma returnsE [elim]: "returns m \<Longrightarrow> (\<And>x. m = Inr x \<Longrightarrow> P) \<Longrightarrow> P"
  by (auto simp: returns_def)

section \<open>Folding a raising step over a list\<close>

fun rfold :: "('a \<Rightarrow> 's \<Rightarrow> 'e + 's) \<Rightarrow> 'a list \<Rightarrow> 's \<Rightarrow> 'e + 's" where
  "rfold f [] s = Inr s"
| "rfold f (x # xs) s = rbind (f x s) (rfold f xs)"

lemma rfold_append: "rfold f (xs @ ys) s = rbind (rfold f xs s) (rfold f ys)"
  by (induction xs arbitrary: s) (simp_all add: rbind_assoc fun_eq_iff cong: rbind_cong)

lemma rfold_invariant:
  assumes "rfold f xs s = Inr t" and "P s"
    and "\<And>x s t. x \<in> set xs \<Longrightarrow> P s \<Longrightarrow> f x s = Inr t \<Longrightarrow> P t"
  shows "P t"
  using assms by (induction xs arbitrary: s) auto

section \<open>Ceiling division\<close>

definition ceil_div :: "nat \<Rightarrow> nat \<Rightarrow> nat" where
  "ceil_div a b = (a + b - 1) div b"

lemma ceil_div_le_iff: "0 < b \<Longrightarrow> ceil_div a b \<le> n \<longleftrightarrow> a \<le> n * b"
proof -
  assume b: "0 < b"
  have "ceil_div a b \<le> n \<longleftrightarrow> a + b - 1 < Suc n * b"
    unfolding ceil_div_def using b
    by (metis div_less_iff_less_mult less_Suc_eq_le)
  also have "\<dots> \<longleftrightarrow> a \<le> n * b" using b by auto
  finally show ?thesis .
qed

lemma ceil_div_neg: "0 < b \<Longrightarrow> int (ceil_div a b) = - ((- int a) div int b)"
proof -
  assume b: "0 < b"
  let ?k = "ceil_div a b"
  have "a \<le> ?k * b" using b ceil_div_le_iff by blast
  then have up: "int a \<le> int ?k * int b" by (metis of_nat_le_iff of_nat_mult)
  have lo: "int ?k * int b < int a + int b"
  proof (cases "?k")
    case 0
    then show ?thesis using b by simp
  next
    case (Suc j)
    then have "\<not> a \<le> j * b" using ceil_div_le_iff [OF b, of a j] by simp
    then have "int j * int b < int a" by (metis linorder_not_le of_nat_less_iff of_nat_mult)
    then show ?thesis using Suc by (simp add: algebra_simps)
  qed
  have "(- int a) div int b = - int ?k"
    by (rule int_div_pos_eq [where r = "int ?k * int b - int a"]) (use up lo in \<open>simp_all add: algebra_simps\<close>)
  then show ?thesis by simp
qed

lemma ceil_div_covers: "0 < b \<Longrightarrow> a \<le> ceil_div a b * b"
  using ceil_div_le_iff by blast

lemma ceil_div_mono: "a \<le> a' \<Longrightarrow> ceil_div a b \<le> ceil_div a' b"
  by (simp add: ceil_div_def div_le_mono)

lemma div_less_ceil_div: "0 < b \<Longrightarrow> i < a \<Longrightarrow> i div b < ceil_div a b"
proof -
  assume "0 < b" "i < a"
  then have "i < ceil_div a b * b" using ceil_div_covers by (meson order_less_le_trans)
  then show ?thesis by (simp add: less_mult_imp_div_less)
qed

section \<open>Lists, maps, multisets\<close>

lemma count_mset_nth_pos: "i < length xs \<Longrightarrow> 0 < count (mset xs) (xs ! i)"
  by (metis count_greater_zero_iff nth_mem_mset)

lemma distinct_count_mset_le: "distinct xs \<Longrightarrow> count (mset xs) x \<le> 1"
  by (simp add: distinct_count_atmost_1)

lemma set_drop_distinct: "distinct xs \<Longrightarrow> set (drop n xs) = set xs - set (take n xs)"
  using set_take_disj_set_drop_if_distinct [of xs n n] set_append [of "take n xs" "drop n xs"]
  by auto

lemma count_two_indices:
  assumes "i < length xs" "j < length xs" "i \<noteq> j" "xs ! i = xs ! j"
  shows "2 \<le> count (mset xs) (xs ! i)"
proof -
  have "card {i, j} \<le> card {k. k < length xs \<and> xs ! k = xs ! i}"
    using assms by (intro card_mono) auto
  moreover have "count (mset xs) (xs ! i) = card {k. k < length xs \<and> xs ! k = xs ! i}"
    by (simp add: count_mset count_list_eq_length_filter length_filter_conv_card eq_commute)
  ultimately show ?thesis using assms(3) by simp
qed

end
