(* ===== verification/Block_Allocator.thy ===== *)
theory Block_Allocator
  imports Prelude
begin

text \<open>
  The reference-counted block pool, class \<open>BlockAllocator\<close> of
  \<open>src/turboserve/engine/core/kv_cache.py\<close>, and the protocol \<open>BlockRecycler\<close> through
  which it offers freed blocks to a cache.

  The record \<open>alloc\<close> is the object's fields: \<open>_refs\<close> (one count per block),
  \<open>_free\<close> (the deque, front first) and \<open>_retained\<close>. The recycler is an object with a
  state of its own, so the model passes that state (\<open>'r\<close>) along with the allocator's:
  an operation that may call the recycler maps \<open>(alloc, 'r)\<close> to \<open>(alloc, 'r)\<close>. The
  recycler's two methods are the record \<open>recycler\<close>; \<open>_recycler is None\<close> is \<open>None\<close>.

  The locale \<open>block_recycler\<close> states what the allocator relies on; the three-state
  invariant and the reference accounting are proved once inside it.
\<close>

section \<open>State\<close>

record alloc =
  a_num_blocks :: nat
  a_block_size :: nat
  a_refs :: "nat list"
  a_free :: "nat list"
  a_retained :: "nat set"

record 'r recycler =
  on_zero_refs :: "nat \<Rightarrow> 'r \<Rightarrow> bool \<times> 'r"
  reclaim_hook :: "nat \<Rightarrow> 'r \<Rightarrow> nat list \<times> 'r"

definition alloc_init :: "int \<Rightarrow> int \<Rightarrow> py_error + alloc" where
  "alloc_init num_blocks block_size =
     (if num_blocks < 0 then Inl ValueError
      else if block_size < 1 then Inl ValueError
      else Inr \<lparr>a_num_blocks = nat num_blocks, a_block_size = nat block_size,
                a_refs = replicate (nat num_blocks) 0, a_free = [0..<nat num_blocks],
                a_retained = {}\<rparr>)"

section \<open>Introspection\<close>

definition check_id :: "nat \<Rightarrow> alloc \<Rightarrow> py_error + unit" where
  "check_id b a = rguard (\<not> b < a_num_blocks a) InvalidBlockError"

definition num_free :: "alloc \<Rightarrow> nat" where
  "num_free a = length (a_free a)"

definition num_retained :: "alloc \<Rightarrow> nat" where
  "num_retained a = card (a_retained a)"

definition num_allocatable :: "alloc \<Rightarrow> nat" where
  "num_allocatable a = length (a_free a) + card (a_retained a)"

definition num_in_use :: "alloc \<Rightarrow> int" where
  "num_in_use a = int (a_num_blocks a) - int (length (a_free a)) - int (card (a_retained a))"

definition ref_count :: "nat \<Rightarrow> alloc \<Rightarrow> py_error + nat" where
  "ref_count b a = rbind (check_id b a) (\<lambda>_. Inr (a_refs a ! b))"

definition is_free :: "nat \<Rightarrow> alloc \<Rightarrow> py_error + bool" where
  "is_free b a = rbind (check_id b a) (\<lambda>_. Inr (a_refs a ! b = 0 \<and> b \<notin> a_retained a))"

definition is_retained :: "nat \<Rightarrow> alloc \<Rightarrow> py_error + bool" where
  "is_retained b a = rbind (check_id b a) (\<lambda>_. Inr (b \<in> a_retained a))"

section \<open>Calls into the recycler\<close>

text \<open>\<open>self._recycler is not None and self._recycler.on_zero_refs(block_id)\<close>\<close>

definition offer_block :: "'r recycler option \<Rightarrow> nat \<Rightarrow> 'r \<Rightarrow> bool \<times> 'r" where
  "offer_block R b r = (case R of None \<Rightarrow> (False, r) | Some ops \<Rightarrow> on_zero_refs ops b r)"

definition release :: "'r recycler option \<Rightarrow> nat \<Rightarrow> alloc \<times> 'r \<Rightarrow> alloc \<times> 'r" where
  "release R b = (\<lambda>(a, r). case offer_block R b r of (keep, r') \<Rightarrow>
     (if keep then (a\<lparr>a_retained := insert b (a_retained a)\<rparr>, r')
      else (a\<lparr>a_free := a_free a @ [b]\<rparr>, r')))"

fun release_retained :: "nat list \<Rightarrow> alloc \<Rightarrow> py_error + (nat \<times> alloc)" where
  "release_retained [] a = Inr (0, a)"
| "release_retained (b # bs) a = rbind (check_id b a) (\<lambda>_.
     if b \<in> a_retained a then
       rbind (release_retained bs
                (a\<lparr>a_retained := a_retained a - {b}, a_free := a_free a @ [b]\<rparr>))
             (\<lambda>(k, a'). Inr (Suc k, a'))
     else release_retained bs a)"

definition reclaim :: "'r recycler option \<Rightarrow> nat \<Rightarrow> alloc \<times> 'r \<Rightarrow> py_error + (alloc \<times> 'r)" where
  "reclaim R n = (\<lambda>(a, r). case R of
       None \<Rightarrow> Inr (a, r)
     | Some ops \<Rightarrow>
         if a_retained a = {} then Inr (a, r)
         else (case reclaim_hook ops (min n (card (a_retained a))) r of (given, r') \<Rightarrow>
                 rbind (release_retained given a) (\<lambda>(_, a'). Inr (a', r'))))"

section \<open>Allocation, sharing, release\<close>

definition allocate :: "'r recycler option \<Rightarrow> alloc \<times> 'r \<Rightarrow> py_error + (nat \<times> alloc \<times> 'r)" where
  "allocate R = (\<lambda>(a, r).
     rbind (if a_free a = [] then reclaim R 1 (a, r) else Inr (a, r)) (\<lambda>(a, r).
       case a_free a of
         [] \<Rightarrow> Inl OutOfBlocksError
       | b # rest \<Rightarrow> Inr (b, a\<lparr>a_free := rest, a_refs := (a_refs a)[b := 1]\<rparr>, r)))"

fun allocate_times :: "'r recycler option \<Rightarrow> nat \<Rightarrow> alloc \<times> 'r \<Rightarrow> py_error + (nat list \<times> alloc \<times> 'r)" where
  "allocate_times R 0 s = Inr ([], s)"
| "allocate_times R (Suc n) s =
     rbind (allocate R s) (\<lambda>(b, s'). rbind (allocate_times R n s') (\<lambda>(bs, s''). Inr (b # bs, s'')))"

definition allocate_many ::
  "'r recycler option \<Rightarrow> int \<Rightarrow> alloc \<times> 'r \<Rightarrow> py_error + (nat list \<times> alloc \<times> 'r)" where
  "allocate_many R num = (\<lambda>(a, r).
     if num < 0 then Inl ValueError
     else rbind (if int (length (a_free a)) < num
                 then reclaim R (nat num - length (a_free a)) (a, r) else Inr (a, r))
       (\<lambda>(a, r). if int (length (a_free a)) < num then Inl OutOfBlocksError
                 else allocate_times R (nat num) (a, r)))"

definition adopt :: "nat \<Rightarrow> alloc \<Rightarrow> py_error + (nat \<times> alloc)" where
  "adopt b a = rbind (check_id b a) (\<lambda>_.
     if b \<notin> a_retained a then Inl InvalidBlockError
     else Inr (b, a\<lparr>a_retained := a_retained a - {b}, a_refs := (a_refs a)[b := 1]\<rparr>))"

definition incref :: "nat \<Rightarrow> alloc \<Rightarrow> py_error + (nat \<times> alloc)" where
  "incref b a = rbind (check_id b a) (\<lambda>_.
     if a_refs a ! b = 0 then Inl InvalidBlockError
     else Inr (a_refs a ! b + 1, a\<lparr>a_refs := (a_refs a)[b := a_refs a ! b + 1]\<rparr>))"

definition incref_many :: "nat list \<Rightarrow> alloc \<Rightarrow> py_error + alloc" where
  "incref_many = rfold (\<lambda>b a. rbind (incref b a) (\<lambda>(_, a'). Inr a'))"

definition decref :: "'r recycler option \<Rightarrow> nat \<Rightarrow> alloc \<times> 'r \<Rightarrow> py_error + (nat \<times> alloc \<times> 'r)" where
  "decref R b = (\<lambda>(a, r). rbind (check_id b a) (\<lambda>_.
     if a_refs a ! b = 0 then Inl InvalidBlockError
     else (let n = a_refs a ! b - 1; a' = a\<lparr>a_refs := (a_refs a)[b := n]\<rparr>
           in Inr (n, if n = 0 then release R b (a', r) else (a', r)))))"

definition decref_many :: "'r recycler option \<Rightarrow> nat list \<Rightarrow> alloc \<times> 'r \<Rightarrow> py_error + (alloc \<times> 'r)" where
  "decref_many R = rfold (\<lambda>b s. rbind (decref R b s) (\<lambda>(_, s'). Inr s'))"

definition alloc_reset :: "alloc \<Rightarrow> alloc" where
  "alloc_reset a = a\<lparr>a_refs := replicate (a_num_blocks a) 0, a_free := [0..<a_num_blocks a],
                     a_retained := {}\<rparr>"

text \<open>\<open>check_invariants\<close>: the free list is a set, disjoint from the retained set, and a
  block is unreferenced exactly when it is in one of the two.\<close>

definition alloc_check :: "alloc \<Rightarrow> py_error + unit" where
  "alloc_check a =
     rbind (rguard (\<not> distinct (a_free a)) BlockAllocatorError) (\<lambda>_.
     rbind (rguard (set (a_free a) \<inter> a_retained a \<noteq> {}) BlockAllocatorError) (\<lambda>_.
     rguard (list_ex (\<lambda>b.
        (a_refs a ! b = 0 \<and> b \<notin> set (a_free a) \<and> b \<notin> a_retained a)
        \<or> (0 < a_refs a ! b \<and> (b \<in> set (a_free a) \<or> b \<in> a_retained a)))
        [0..<length (a_refs a)]) BlockAllocatorError))"

section \<open>The three-state invariant and reference accounting\<close>

definition alloc_inv :: "alloc \<Rightarrow> bool" where
  "alloc_inv a \<longleftrightarrow>
     length (a_refs a) = a_num_blocks a \<and> distinct (a_free a)
     \<and> set (a_free a) \<subseteq> {..<a_num_blocks a} \<and> a_retained a \<subseteq> {..<a_num_blocks a}
     \<and> set (a_free a) \<inter> a_retained a = {}
     \<and> (\<forall>b < a_num_blocks a. a_refs a ! b = 0 \<longleftrightarrow> b \<in> set (a_free a) \<union> a_retained a)"

text \<open>\<open>M\<close> is the multiset of references held by the users of the pool.\<close>

definition counted :: "nat multiset \<Rightarrow> alloc \<Rightarrow> bool" where
  "counted M a \<longleftrightarrow> (\<forall>b. count M b = (if b < a_num_blocks a then a_refs a ! b else 0))"

definition same_pool :: "alloc \<Rightarrow> alloc \<Rightarrow> bool" where
  "same_pool a a' \<longleftrightarrow> a_num_blocks a' = a_num_blocks a \<and> a_block_size a' = a_block_size a"

lemma same_pool_refl [simp]: "same_pool a a"
  by (simp add: same_pool_def)

lemma same_pool_trans: "same_pool a b \<Longrightarrow> same_pool b c \<Longrightarrow> same_pool a c"
  by (simp add: same_pool_def)

lemma alloc_inv_finite: "alloc_inv a \<Longrightarrow> finite (a_retained a)"
  by (auto simp: alloc_inv_def intro: finite_subset)

lemma alloc_inv_check: "alloc_inv a \<Longrightarrow> alloc_check a = Inr ()"
  by (auto simp: alloc_inv_def alloc_check_def list_ex_iff)

lemma alloc_check_inv:
  assumes "alloc_check a = Inr ()" "length (a_refs a) = a_num_blocks a"
    "set (a_free a) \<subseteq> {..<a_num_blocks a}" "a_retained a \<subseteq> {..<a_num_blocks a}"
  shows "alloc_inv a"
proof -
  have "distinct (a_free a)" "set (a_free a) \<inter> a_retained a = {}"
    using assms(1) by (auto simp: alloc_check_def)
  moreover have "a_refs a ! b = 0 \<longleftrightarrow> b \<in> set (a_free a) \<union> a_retained a" if "b < a_num_blocks a" for b
  proof -
    have "b \<in> {0..<a_num_blocks a}" using that by simp
    with assms(1,2) show ?thesis
      by (auto simp: alloc_check_def list_ex_iff dest!: bspec [where x = b])
  qed
  ultimately show ?thesis using assms(2-4) by (simp add: alloc_inv_def)
qed

lemma alloc_init_inv: "alloc_init n bs = Inr a \<Longrightarrow> alloc_inv a \<and> counted {#} a"
  by (auto simp: alloc_init_def alloc_inv_def counted_def split: if_splits)

lemma alloc_reset_inv: "alloc_inv (alloc_reset a) \<and> counted {#} (alloc_reset a)"
  by (auto simp: alloc_reset_def alloc_inv_def counted_def)

lemma counted_bound: "counted M a \<Longrightarrow> b \<in># M \<Longrightarrow> b < a_num_blocks a"
  by (metis counted_def count_greater_zero_iff less_numeral_extra(3))

lemma counted_refs: "counted M a \<Longrightarrow> b < a_num_blocks a \<Longrightarrow> a_refs a ! b = count M b"
  by (simp add: counted_def)

lemma unreferenced_iff:
  assumes "alloc_inv a" "counted M a"
  shows "set (a_free a) \<union> a_retained a = {..<a_num_blocks a} - set_mset M"
proof -
  have "b \<in> set (a_free a) \<union> a_retained a \<longleftrightarrow> b < a_num_blocks a \<and> b \<notin># M" for b
    using assms unfolding alloc_inv_def
    by (metis (no_types, lifting) UnE counted_refs count_greater_zero_iff lessThan_iff
        not_gr_zero subset_iff)
  then show ?thesis by auto
qed

text \<open>How many blocks can be handed out depends on the references alone.\<close>

lemma num_allocatable_eq:
  assumes "alloc_inv a" "counted M a"
  shows "num_allocatable a = a_num_blocks a - card (set_mset M)"
proof -
  have "num_allocatable a = card (set (a_free a) \<union> a_retained a)"
    using assms(1) alloc_inv_finite [OF assms(1)]
    by (simp add: num_allocatable_def alloc_inv_def card_Un_disjoint distinct_card)
  also have "\<dots> = card ({..<a_num_blocks a} - set_mset M)"
    using unreferenced_iff [OF assms] by simp
  also have "\<dots> = a_num_blocks a - card (set_mset M)"
    using counted_bound [OF assms(2)] by (subst card_Diff_subset) auto
  finally show ?thesis .
qed

lemma references_fit: "counted M a \<Longrightarrow> card (set_mset M) \<le> a_num_blocks a"
  using card_mono [of "{..<a_num_blocks a}" "set_mset M"] counted_bound [of M a] by fastforce

section \<open>The recycler interface\<close>

text \<open>
  \<open>held r\<close> are the blocks in the recycler's custody (retained), \<open>idx r\<close> what it still
  knows of the contents of each block it indexes, \<open>rinv\<close> its own invariant. The laws are what
  \<open>BlockRecycler\<close>'s documentation promises: a block whose offer is accepted is held, and
  \<open>reclaim\<close> gives back as many held blocks as asked for, each once, and forgets them.
\<close>

definition give_back :: "'r recycler option \<Rightarrow> nat \<Rightarrow> 'r \<Rightarrow> nat list \<times> 'r" where
  "give_back R n r = (case R of None \<Rightarrow> ([], r) | Some ops \<Rightarrow> reclaim_hook ops n r)"

locale block_recycler =
  fixes R :: "'r recycler option"
    and held :: "'r \<Rightarrow> nat set"
    and idx :: "'r \<Rightarrow> nat \<rightharpoonup> 'e"
    and rinv :: "'r \<Rightarrow> bool"
  assumes held_idx: "rinv r \<Longrightarrow> held r \<subseteq> dom (idx r)"
    and offer_inv: "rinv r \<Longrightarrow> offer_block R b r = (k, r') \<Longrightarrow> rinv r'"
    and offer_held: "rinv r \<Longrightarrow> offer_block R b r = (k, r') \<Longrightarrow>
      held r' = (if k then insert b (held r) else held r)"
    and offer_idx: "rinv r \<Longrightarrow> offer_block R b r = (k, r') \<Longrightarrow>
      idx r' = idx r \<and> (k \<longleftrightarrow> b \<in> dom (idx r))"
    and give_inv: "rinv r \<Longrightarrow> give_back R n r = (bs, r') \<Longrightarrow> rinv r'"
    and give_held: "rinv r \<Longrightarrow> give_back R n r = (bs, r') \<Longrightarrow>
      set bs \<subseteq> held r \<and> held r' = held r - set bs \<and> idx r' = idx r |` (- set bs)"
    and give_length: "rinv r \<Longrightarrow> give_back R n r = (bs, r') \<Longrightarrow>
      distinct bs \<and> length bs = min n (card (held r))"

text \<open>The pool, its recycler and the references of its users agree.\<close>

definition pool_inv ::
  "('r \<Rightarrow> nat set) \<Rightarrow> ('r \<Rightarrow> nat \<rightharpoonup> 'e) \<Rightarrow> ('r \<Rightarrow> bool) \<Rightarrow> nat multiset \<Rightarrow> alloc \<Rightarrow> 'r \<Rightarrow> bool" where
  "pool_inv held idx rinv M a r \<longleftrightarrow>
     alloc_inv a \<and> rinv r \<and> counted M a \<and> a_retained a = held r
     \<and> dom (idx r) \<inter> set (a_free a) = {} \<and> dom (idx r) \<subseteq> {..<a_num_blocks a}"

lemma release_retained_all:
  "set bs \<subseteq> a_retained a \<Longrightarrow> distinct bs \<Longrightarrow> a_retained a \<subseteq> {..<a_num_blocks a} \<Longrightarrow>
   release_retained bs a =
     Inr (length bs, a\<lparr>a_retained := a_retained a - set bs, a_free := a_free a @ bs\<rparr>)"
proof (induction bs arbitrary: a)
  case Nil
  then show ?case by simp
next
  case (Cons b bs)
  let ?a = "a\<lparr>a_retained := a_retained a - {b}, a_free := a_free a @ [b]\<rparr>"
  have "release_retained bs ?a =
      Inr (length bs, ?a\<lparr>a_retained := a_retained ?a - set bs, a_free := a_free ?a @ bs\<rparr>)"
    using Cons.prems by (intro Cons.IH) auto
  moreover have "check_id b a = Inr ()" using Cons.prems by (auto simp: check_id_def)
  moreover have "a_retained a - {b} - set bs = a_retained a - insert b (set bs)" by auto
  ultimately show ?case using Cons.prems by simp
qed

context block_recycler
begin

abbreviation pool :: "nat multiset \<Rightarrow> alloc \<Rightarrow> 'r \<Rightarrow> bool" where
  "pool \<equiv> pool_inv held idx rinv"

text \<open>Reclaiming moves held blocks to the free list and changes nothing else.\<close>

lemma reclaim_pool:
  assumes "pool M a r"
  shows "\<exists>a' r'. reclaim R n (a, r) = Inr (a', r') \<and> pool M a' r' \<and> same_pool a a'
    \<and> idx r' \<subseteq>\<^sub>m idx r \<and> (\<forall>b \<in># M. idx r' b = idx r b)
    \<and> length (a_free a') = length (a_free a) + min n (card (a_retained a))"
proof (cases "R = None \<or> a_retained a = {}")
  case True
  have "card (held r) = 0" if "R = None"
    using give_length [of r 1 "[]" r] that assms
    by (auto simp: give_back_def pool_inv_def min_def split: if_splits)
  with True show ?thesis
    using assms by (auto simp: reclaim_def pool_inv_def split: option.splits)
next
  case False
  then obtain ops where R: "R = Some ops" by auto
  let ?n = "min n (card (a_retained a))"
  obtain bs r' where g: "reclaim_hook ops ?n r = (bs, r')" by fastforce
  have gb: "give_back R ?n r = (bs, r')" using g R by (simp add: give_back_def)
  have r: "rinv r" and h: "a_retained a = held r" and ai: "alloc_inv a"
    using assms by (auto simp: pool_inv_def)
  note gh = give_held [OF r gb] and gl = give_length [OF r gb]
  let ?a = "a\<lparr>a_retained := a_retained a - set bs, a_free := a_free a @ bs\<rparr>"
  have rr: "release_retained bs a = Inr (length bs, ?a)"
    using gh gl h ai by (intro release_retained_all) (auto simp: alloc_inv_def)
  have "pool M ?a r'"
    using assms gh gl h give_inv [OF r gb]
    unfolding pool_inv_def alloc_inv_def counted_def by auto
  moreover have "idx r' \<subseteq>\<^sub>m idx r" using gh by (auto simp: map_le_def restrict_map_def)
  moreover have "\<forall>b \<in># M. idx r' b = idx r b"
    using gh h unreferenced_iff [OF ai] assms by (fastforce simp: pool_inv_def restrict_map_def)
  ultimately show ?thesis
    using False R g rr gh gl h by (auto simp: reclaim_def same_pool_def)
qed

lemma allocate_pool:
  assumes p: "pool M a r" and room: "card (set_mset M) < a_num_blocks a"
  shows "\<exists>b a' r'. allocate R (a, r) = Inr (b, a', r') \<and> pool (add_mset b M) a' r'
    \<and> same_pool a a' \<and> idx r' \<subseteq>\<^sub>m idx r \<and> (\<forall>x \<in># M. idx r' x = idx r x)
    \<and> b \<notin># M \<and> idx r' b = None"
proof -
  have na: "num_allocatable a = a_num_blocks a - card (set_mset M)"
    using p by (intro num_allocatable_eq) (auto simp: pool_inv_def)
  obtain a1 r1 where s1: "(if a_free a = [] then reclaim R 1 (a, r) else Inr (a, r)) = Inr (a1, r1)"
    and p1: "pool M a1 r1" "same_pool a a1" "idx r1 \<subseteq>\<^sub>m idx r" "\<forall>x \<in># M. idx r1 x = idx r x"
      and f1: "a_free a1 \<noteq> []"
  proof (cases "a_free a = []")
    case True
    obtain a' r' where "reclaim R 1 (a, r) = Inr (a', r')" "pool M a' r'" "same_pool a a'"
      "idx r' \<subseteq>\<^sub>m idx r" "\<forall>x \<in># M. idx r' x = idx r x" "length (a_free a') = length (a_free a) + min 1 (card (a_retained a))"
      using reclaim_pool [OF p] by blast
    moreover have "0 < card (a_retained a)"
      using True na room by (simp add: num_allocatable_def)
    ultimately have "a_free a' \<noteq> []" by auto
    then show ?thesis
      using that \<open>reclaim R 1 (a, r) = Inr (a', r')\<close> \<open>pool M a' r'\<close> \<open>same_pool a a'\<close>
        \<open>idx r' \<subseteq>\<^sub>m idx r\<close> \<open>\<forall>x \<in># M. idx r' x = idx r x\<close> True by simp
  next
    case False
    then show ?thesis using p that by auto
  qed
  obtain b rest where f: "a_free a1 = b # rest" using f1 by (cases "a_free a1") auto
  let ?a = "a1\<lparr>a_free := rest, a_refs := (a_refs a1)[b := 1]\<rparr>"
  have b: "b < a_num_blocks a1" "a_refs a1 ! b = 0" "idx r1 b = None"
    using p1(1) f by (auto simp: pool_inv_def alloc_inv_def)
  then have bM: "b \<notin># M"
    using p1(1) by (metis counted_refs pool_inv_def count_eq_zero_iff)
  have "counted (add_mset b M) ?a"
    using p1(1) b by (auto simp: pool_inv_def counted_def alloc_inv_def nth_list_update)
  moreover have "alloc_inv ?a"
    using p1(1) b f by (auto simp: pool_inv_def alloc_inv_def nth_list_update)
  ultimately have "pool (add_mset b M) ?a r1"
    using p1(1) f by (auto simp: pool_inv_def)
  moreover have "allocate R (a, r) = Inr (b, ?a, r1)"
    using s1 f by (simp add: allocate_def)
  moreover have "same_pool a ?a" using p1(2) by (simp add: same_pool_def)
  ultimately show ?thesis using p1(3,4) b(3) bM by blast
qed

lemma allocate_full:
  assumes p: "pool M a r" and full: "card (set_mset M) = a_num_blocks a"
  shows "allocate R (a, r) = Inl OutOfBlocksError"
proof -
  have "num_allocatable a = 0"
    using p full num_allocatable_eq [of a M] by (auto simp: pool_inv_def)
  moreover have "alloc_inv a" using p by (simp add: pool_inv_def)
  then have "finite (a_retained a)" by (rule alloc_inv_finite)
  ultimately have "a_free a = []" "a_retained a = {}" by (auto simp: num_allocatable_def)
  then show ?thesis by (simp add: allocate_def reclaim_def split: option.splits)
qed

lemma incref_pool:
  assumes p: "pool M a r" and b: "b \<in># M"
  shows "\<exists>a'. incref b a = Inr (count M b + 1, a') \<and> pool (add_mset b M) a' r \<and> same_pool a a'"
proof -
  have c: "counted M a" and ai: "alloc_inv a" using p by (auto simp: pool_inv_def)
  have bn: "b < a_num_blocks a" using counted_bound [OF c b] .
  have rb: "a_refs a ! b = count M b" "count M b \<noteq> 0"
    using counted_refs [OF c bn] b by auto
  then have nb: "b \<notin> set (a_free a)" "b \<notin> a_retained a"
    using ai bn unfolding alloc_inv_def by (metis UnCI)+
  let ?a = "a\<lparr>a_refs := (a_refs a)[b := a_refs a ! b + 1]\<rparr>"
  have "counted (add_mset b M) ?a"
    using c ai bn by (auto simp: counted_def alloc_inv_def nth_list_update)
  moreover have "alloc_inv ?a"
    using ai bn nb by (auto simp: alloc_inv_def nth_list_update)
  ultimately show ?thesis
    using p bn rb by (auto simp: incref_def check_id_def pool_inv_def same_pool_def)
qed

lemma decref_pool:
  assumes p: "pool M a r" and b: "b \<in># M"
  shows "\<exists>a' r'. decref R b (a, r) = Inr (count M b - 1, a', r') \<and> pool (M - {#b#}) a' r'
    \<and> same_pool a a' \<and> idx r' = idx r"
proof -
  have c: "counted M a" and ai: "alloc_inv a" and ri: "rinv r" using p by (auto simp: pool_inv_def)
  have bn: "b < a_num_blocks a" using counted_bound [OF c b] .
  have rb: "a_refs a ! b = count M b" "count M b \<noteq> 0"
    using counted_refs [OF c bn] b by auto
  let ?n = "count M b - 1"
  let ?a = "a\<lparr>a_refs := (a_refs a)[b := ?n]\<rparr>"
  have c': "counted (M - {#b#}) ?a"
    using c ai bn by (auto simp: counted_def alloc_inv_def nth_list_update)
  have nb: "b \<notin> set (a_free a)" "b \<notin> a_retained a"
    using ai bn rb unfolding alloc_inv_def by (metis UnCI)+
  show ?thesis
  proof (cases "?n = 0")
    case False
    then have "alloc_inv ?a" using ai bn nb by (auto simp: alloc_inv_def nth_list_update)
    then show ?thesis
      using False p bn rb c'
      by (auto simp: decref_def check_id_def pool_inv_def same_pool_def Let_def)
  next
    case True
    obtain k r' where o: "offer_block R b r = (k, r')" by fastforce
    note oh = offer_held [OF ri o] and ok = offer_idx [OF ri o] and oi = offer_inv [OF ri o]
    let ?a' = "if k then ?a\<lparr>a_retained := insert b (a_retained a)\<rparr>
               else ?a\<lparr>a_free := a_free a @ [b]\<rparr>"
    have "alloc_inv ?a'"
      using ai bn rb nb True by (auto simp: alloc_inv_def nth_list_update)
    moreover have "counted (M - {#b#}) ?a'"
      using c' by (auto simp: counted_def)
    ultimately have "pool (M - {#b#}) ?a' r'"
      using p bn nb oh ok oi by (auto simp: pool_inv_def)
    moreover have "decref R b (a, r) = Inr (?n, ?a', r')"
      using True bn rb o by (auto simp: decref_def check_id_def release_def Let_def)
    moreover have "same_pool a ?a'" by (simp add: same_pool_def)
    ultimately show ?thesis using ok by blast
  qed
qed

lemma double_free_raises:
  assumes p: "pool M a r" and b: "b \<notin># M"
  shows "decref R b (a, r) = Inl InvalidBlockError"
  using p b counted_refs [of M a b]
  by (auto simp: decref_def check_id_def pool_inv_def rguard_def not_in_iff)

lemma decref_many_pool:
  "pool M a r \<Longrightarrow> mset bs \<subseteq># M \<Longrightarrow>
   \<exists>a' r'. decref_many R bs (a, r) = Inr (a', r') \<and> pool (M - mset bs) a' r'
     \<and> same_pool a a' \<and> idx r' = idx r"
proof (induction bs arbitrary: M a r)
  case Nil
  then show ?case by (auto simp: decref_many_def)
next
  case (Cons b bs)
  have "b \<in># M" using Cons.prems(2) by (simp add: insert_subset_eq_iff)
  then obtain a1 r1 where 1: "decref R b (a, r) = Inr (count M b - 1, a1, r1)"
      "pool (M - {#b#}) a1 r1" "same_pool a a1" "idx r1 = idx r"
    using decref_pool [OF Cons.prems(1)] by blast
  have "mset bs \<subseteq># M - {#b#}" using Cons.prems(2) by (simp add: insert_subset_eq_iff)
  then obtain a2 r2 where 2: "decref_many R bs (a1, r1) = Inr (a2, r2)"
      "pool (M - {#b#} - mset bs) a2 r2" "same_pool a1 a2" "idx r2 = idx r1"
    using Cons.IH [OF 1(2)] by blast
  show ?case
    using 1 2 by (auto simp: decref_many_def intro: same_pool_trans)
qed

lemma allocate_times_pool:
  "pool M a r \<Longrightarrow> card (set_mset M) + n \<le> a_num_blocks a \<Longrightarrow>
   \<exists>bs a' r'. allocate_times R n (a, r) = Inr (bs, a', r') \<and> pool (M + mset bs) a' r'
     \<and> same_pool a a' \<and> length bs = n \<and> distinct bs \<and> set bs \<inter> set_mset M = {}"
proof (induction n arbitrary: M a r)
  case 0
  then show ?case by auto
next
  case (Suc n)
  then obtain b a1 r1 where 1: "allocate R (a, r) = Inr (b, a1, r1)" "pool (add_mset b M) a1 r1"
      "same_pool a a1" "b \<notin># M"
    using allocate_pool [OF Suc.prems(1)] by auto
  have "card (set_mset (add_mset b M)) + n \<le> a_num_blocks a1"
    using Suc.prems(2) 1(3,4) by (simp add: same_pool_def card_insert_if)
  then obtain bs a2 r2 where 2: "allocate_times R n (a1, r1) = Inr (bs, a2, r2)"
      "pool (add_mset b M + mset bs) a2 r2" "same_pool a1 a2" "length bs = n" "distinct bs"
      "set bs \<inter> set_mset (add_mset b M) = {}"
    using Suc.IH [OF 1(2)] by blast
  show ?case
    using 1 2 by (intro exI [of _ "b # bs"] exI [of _ a2] exI [of _ r2])
      (auto intro: same_pool_trans)
qed

text \<open>\<open>allocate_many\<close> is all-or-nothing: it succeeds exactly when the pool has room.\<close>

lemma allocate_many_pool:
  assumes p: "pool M a r" and n: "0 \<le> n"
  shows "(nat n \<le> num_allocatable a \<longrightarrow>
      (\<exists>bs a' r'. allocate_many R n (a, r) = Inr (bs, a', r') \<and> pool (M + mset bs) a' r'
         \<and> length bs = nat n \<and> distinct bs \<and> set bs \<inter> set_mset M = {}))
    \<and> (num_allocatable a < nat n \<longrightarrow> allocate_many R n (a, r) = Inl OutOfBlocksError)"
proof -
  have na: "num_allocatable a = a_num_blocks a - card (set_mset M)"
    using p by (intro num_allocatable_eq) (auto simp: pool_inv_def)
  have cn: "card (set_mset M) \<le> a_num_blocks a" using p references_fit by (auto simp: pool_inv_def)
  let ?k = "nat n - length (a_free a)"
  obtain a1 r1 where s1: "(if int (length (a_free a)) < n then reclaim R ?k (a, r) else Inr (a, r))
      = Inr (a1, r1)" and p1: "pool M a1 r1" "same_pool a a1"
    and f1: "int (length (a_free a1)) < n \<longleftrightarrow> num_allocatable a < nat n"
  proof (cases "int (length (a_free a)) < n")
    case True
    obtain a' r' where "reclaim R ?k (a, r) = Inr (a', r')" "pool M a' r'" "same_pool a a'"
      and l: "length (a_free a') = length (a_free a) + min ?k (card (a_retained a))"
      using reclaim_pool [OF p] by blast
    moreover have "int (length (a_free a')) < n \<longleftrightarrow> num_allocatable a < nat n"
      unfolding l num_allocatable_def using True by linarith
    ultimately show ?thesis using that True by auto
  next
    case False
    then show ?thesis using that p by (auto simp: num_allocatable_def)
  qed
  show ?thesis
  proof (cases "num_allocatable a < nat n")
    case True
    then show ?thesis using s1 f1 n by (simp add: allocate_many_def)
  next
    case False
    then have "card (set_mset M) + nat n \<le> a_num_blocks a1"
      using na cn p1(2) by (simp add: same_pool_def)
    then show ?thesis
      using False s1 f1 n allocate_times_pool [OF p1(1)] by (fastforce simp: allocate_many_def)
  qed
qed

end

section \<open>Pinning a cached block\<close>

text \<open>
  A recycler whose held blocks can be taken into use again: \<open>acq b\<close> notes that the block
  has a user. This is what a prefix-cache hit does next to \<open>adopt\<close> or \<open>incref\<close>.
\<close>

locale pinning_recycler = block_recycler R held idx rinv
  for R :: "'r recycler option" and held idx rinv +
  fixes acq :: "nat \<Rightarrow> 'r \<Rightarrow> 'r"
  assumes acq_inv: "rinv r \<Longrightarrow> rinv (acq b r)"
    and acq_held: "rinv r \<Longrightarrow> held (acq b r) = held r - {b}"
    and acq_idx: "rinv r \<Longrightarrow> idx (acq b r) = idx r"
begin

lemma adopt_pool:
  assumes p: "pool M a r" and b: "b \<in> held r"
  shows "\<exists>a'. adopt b a = Inr (b, a') \<and> pool (add_mset b M) a' (acq b r) \<and> same_pool a a' \<and> b \<notin># M"
proof -
  have ai: "alloc_inv a" and c: "counted M a" and ri: "rinv r" and h: "a_retained a = held r"
    using p by (auto simp: pool_inv_def)
  have bn: "b < a_num_blocks a" and r0: "a_refs a ! b = 0"
    using ai b h by (auto simp: alloc_inv_def)
  let ?a = "a\<lparr>a_retained := a_retained a - {b}, a_refs := (a_refs a)[b := 1]\<rparr>"
  have "counted (add_mset b M) ?a"
    using c ai bn r0 by (auto simp: counted_def alloc_inv_def nth_list_update)
  moreover have "alloc_inv ?a"
    using ai bn b h by (auto simp: alloc_inv_def nth_list_update)
  moreover have "b \<notin># M" using counted_refs [OF c bn] r0 by (simp add: not_in_iff)
  ultimately show ?thesis
    using p bn b h acq_inv [OF ri] acq_held [OF ri] acq_idx [OF ri]
    by (auto simp: adopt_def check_id_def pool_inv_def same_pool_def)
qed

lemma share_pool:
  assumes p: "pool M a r" and b: "b \<in> dom (idx r)" "b \<notin> held r"
  shows "\<exists>n a'. incref b a = Inr (n, a') \<and> pool (add_mset b M) a' (acq b r) \<and> same_pool a a' \<and> b \<in># M"
proof -
  have ai: "alloc_inv a" and c: "counted M a" and ri: "rinv r" and h: "a_retained a = held r"
    using p by (auto simp: pool_inv_def)
  have "b \<notin> set (a_free a) \<union> a_retained a" "b < a_num_blocks a"
    using b p h by (auto simp: pool_inv_def)
  then have "b \<in># M" using unreferenced_iff [OF ai c] by auto
  then obtain a' where a': "incref b a = Inr (count M b + 1, a')" "pool (add_mset b M) a' r"
      "same_pool a a'"
    using incref_pool [OF p] by blast
  moreover have "held (acq b r) = held r" using acq_held [OF ri] b by auto
  ultimately show ?thesis
    using acq_inv [OF ri] acq_idx [OF ri] \<open>b \<in># M\<close> by (auto simp: pool_inv_def)
qed

end

end
