(* ===== verification/Hash_Chain.thy ===== *)
theory Hash_Chain
  imports Prelude "HOL-Library.Word"
begin

text \<open>
  The hash chain of \<open>src/turboserve/engine/core/prefix_cache.py\<close>: \<open>_token_bytes\<close>,
  \<open>block_hash\<close>, \<open>block_hash_chain\<close>.

  \<open>hashlib.blake2b(digest_size=16)\<close> is the parameter \<open>D\<close>, a function from the bytes fed
  to the digest to the digest. Nothing is assumed of it except where a theorem says so
  (\<open>digest_ok\<close>: 16-byte results without a collision among the messages it is about).
  \<open>int.to_bytes(8, "little", signed=True)\<close> is written out, with the \<open>OverflowError\<close> it
  raises out of range.

  \<open>prefix_hash\<close> is the abstract chain: the hash of the first \<open>k\<close> blocks. The lemmas show
  that the code's loop computes it, that the byte encoding can be read back, and that
  without a collision a chained hash determines the adapter and all tokens before it.
\<close>

section \<open>Hashing\<close>

type_synonym bytes = "8 word list"
type_synonym digest = "bytes \<Rightarrow> bytes"

definition fits64 :: "int \<Rightarrow> bool" where
  "fits64 x \<longleftrightarrow> - (2 ^ 63) \<le> x \<and> x < 2 ^ 63"

definition le64 :: "int \<Rightarrow> bytes" where
  "le64 x = map (\<lambda>i. word_of_int (x div 256 ^ i)) [0..<8]"

definition to_bytes8 :: "int \<Rightarrow> py_error + bytes" where
  "to_bytes8 x = (if fits64 x then Inr (le64 x) else Inl OverflowError)"

fun token_bytes :: "int list \<Rightarrow> py_error + bytes" where
  "token_bytes [] = Inr []"
| "token_bytes (t # ts) =
     rbind (to_bytes8 t) (\<lambda>b. rbind (token_bytes ts) (\<lambda>bs. Inr (b @ bs)))"

definition root_message :: bytes where
  "root_message = map of_char ''turboserve/prefix-cache/v1''"

definition root_hash :: "digest \<Rightarrow> bytes" where
  "root_hash D = D root_message"

definition block_hash :: "digest \<Rightarrow> bytes \<Rightarrow> int list \<Rightarrow> int \<Rightarrow> py_error + bytes" where
  "block_hash D parent tokens lora =
     rbind (to_bytes8 lora) (\<lambda>l. rbind (token_bytes tokens) (\<lambda>t. Inr (D (parent @ l @ t))))"

text \<open>\<open>token_ids[index * block_size : (index + 1) * block_size]\<close>\<close>

definition block_slice :: "int list \<Rightarrow> nat \<Rightarrow> nat \<Rightarrow> int list" where
  "block_slice tokens bs i = take bs (drop (i * bs) tokens)"

definition num_full_blocks :: "int list \<Rightarrow> nat \<Rightarrow> int option \<Rightarrow> nat" where
  "num_full_blocks tokens bs max_blocks =
     (let n = length tokens div bs
      in case max_blocks of None \<Rightarrow> n | Some m \<Rightarrow> min n (nat (max 0 m)))"

fun hash_loop :: "digest \<Rightarrow> int list \<Rightarrow> nat \<Rightarrow> int \<Rightarrow> nat list \<Rightarrow> bytes \<Rightarrow> py_error + bytes list" where
  "hash_loop D tokens bs lora [] parent = Inr []"
| "hash_loop D tokens bs lora (i # is) parent =
     rbind (block_hash D parent (block_slice tokens bs i) lora) (\<lambda>h.
     rbind (hash_loop D tokens bs lora is h) (\<lambda>hs. Inr (h # hs)))"

definition block_hash_chain ::
  "digest \<Rightarrow> int list \<Rightarrow> nat \<Rightarrow> int \<Rightarrow> int option \<Rightarrow> py_error + bytes list" where
  "block_hash_chain D tokens bs lora max_blocks =
     (if bs < 1 then Inl ValueError
      else hash_loop D tokens bs lora [0..<num_full_blocks tokens bs max_blocks] (root_hash D))"

section \<open>The encoding can be read back\<close>

fun le_value :: "bytes \<Rightarrow> int" where
  "le_value [] = 0"
| "le_value (b # bs) = uint b + 256 * le_value bs"

lemma length_le64 [simp]: "length (le64 x) = 8"
  by (simp add: le64_def)

lemma le_value_digits:
  "le_value (map (\<lambda>i. word_of_int (x div 256 ^ i)) [m..<m + n]) = x div 256 ^ m mod 256 ^ n"
proof (induction n arbitrary: m)
  case 0
  then show ?case by simp
next
  case (Suc n)
  have "uint (word_of_int (x div 256 ^ m) :: 8 word) = x div 256 ^ m mod 256"
    by (simp add: uint_word_of_int)
  moreover have "[m..<m + Suc n] = m # [Suc m..<Suc m + n]" by (simp add: upt_conv_Cons)
  moreover have "x div 256 ^ Suc m = x div 256 ^ m div 256"
    by (simp add: zdiv_zmult2_eq mult.commute [of 256])
  moreover have "y mod 256 + 256 * (y div 256 mod 256 ^ n) = y mod 256 ^ Suc n" for y :: int
    using zmod_zmult2_eq [of "256 ^ n" y 256] by simp
  ultimately show ?case using Suc.IH [of "Suc m"] by simp
qed

lemma le_value_le64: "le_value (le64 x) = x mod 2 ^ 64"
  using le_value_digits [of x 0 8] by (simp add: le64_def)

lemma le64_inj: "fits64 x \<Longrightarrow> fits64 y \<Longrightarrow> le64 x = le64 y \<Longrightarrow> x = y"
proof -
  assume f: "fits64 x" "fits64 y" and "le64 x = le64 y"
  then have "x mod 2 ^ 64 = y mod 2 ^ 64" by (metis le_value_le64)
  then have "2 ^ 64 dvd x - y" by (simp add: mod_eq_dvd_iff)
  moreover have "\<bar>x - y\<bar> < 2 ^ 64" using f by (auto simp: fits64_def)
  ultimately show "x = y" using zdvd_imp_le [of "2 ^ 64" "\<bar>x - y\<bar>"] by (cases "x = y") auto
qed

definition tokens_bytes :: "int list \<Rightarrow> bytes" where
  "tokens_bytes ts = concat (map le64 ts)"

lemma length_tokens_bytes [simp]: "length (tokens_bytes ts) = 8 * length ts"
  by (induction ts) (auto simp: tokens_bytes_def)

lemma tokens_bytes_inj:
  "list_all fits64 xs \<Longrightarrow> list_all fits64 ys \<Longrightarrow> tokens_bytes xs = tokens_bytes ys \<Longrightarrow> xs = ys"
proof (induction xs arbitrary: ys)
  case Nil
  then show ?case by (metis length_tokens_bytes length_0_conv list.size(3) mult_eq_0_iff zero_neq_numeral)
next
  case (Cons x xs)
  have "length ys = Suc (length xs)"
    using arg_cong [OF Cons.prems(3), of length] by simp
  then obtain y ys' where ys: "ys = y # ys'" by (cases ys) auto
  then have "le64 x = le64 y" "tokens_bytes xs = tokens_bytes ys'"
    using Cons.prems(3) by (simp_all add: tokens_bytes_def)
  then show ?case using Cons ys le64_inj by auto
qed

lemma token_bytes_eq: "list_all fits64 ts \<Longrightarrow> token_bytes ts = Inr (tokens_bytes ts)"
  by (induction ts) (auto simp: tokens_bytes_def to_bytes8_def)

lemma token_bytes_overflow: "\<not> list_all fits64 ts \<Longrightarrow> token_bytes ts = Inl OverflowError"
  by (induction ts) (auto simp: to_bytes8_def rbind_eq_Inl token_bytes_eq)

section \<open>The abstract chain\<close>

definition hash_message :: "bytes \<Rightarrow> int \<Rightarrow> int list \<Rightarrow> bytes" where
  "hash_message parent lora tokens = parent @ le64 lora @ tokens_bytes tokens"

primrec prefix_hash :: "digest \<Rightarrow> nat \<Rightarrow> int \<Rightarrow> int list \<Rightarrow> nat \<Rightarrow> bytes" where
  "prefix_hash D bs lora tokens 0 = root_hash D"
| "prefix_hash D bs lora tokens (Suc k) =
     D (hash_message (prefix_hash D bs lora tokens k) lora (block_slice tokens bs k))"

text \<open>Requests whose tokens and adapter slot fit the 64-bit encoding.\<close>

definition encodable :: "int \<Rightarrow> int list \<Rightarrow> bool" where
  "encodable lora tokens \<longleftrightarrow> fits64 lora \<and> list_all fits64 tokens"

lemma encodable_slice: "encodable lora tokens \<Longrightarrow> list_all fits64 (block_slice tokens bs i)"
  by (auto simp: encodable_def block_slice_def list_all_iff dest: in_set_takeD in_set_dropD)

lemma block_hash_eq:
  "fits64 lora \<Longrightarrow> list_all fits64 tokens \<Longrightarrow>
   block_hash D parent tokens lora = Inr (D (hash_message parent lora tokens))"
  by (simp add: block_hash_def to_bytes8_def token_bytes_eq hash_message_def)

lemma hash_loop_eq:
  assumes "encodable lora tokens"
  shows "hash_loop D tokens bs lora [k..<n] (prefix_hash D bs lora tokens k)
         = Inr (map (\<lambda>i. prefix_hash D bs lora tokens (Suc i)) [k..<n])"
proof (induction "n - k" arbitrary: k)
  case 0
  then show ?case by simp
next
  case (Suc m)
  then have "[k..<n] = k # [Suc k..<n]" by (simp add: upt_conv_Cons)
  moreover have "m = n - Suc k" using Suc.hyps(2) by simp
  moreover have "block_hash D (prefix_hash D bs lora tokens k) (block_slice tokens bs k) lora
      = Inr (prefix_hash D bs lora tokens (Suc k))"
    using assms encodable_slice [OF assms] by (simp add: block_hash_eq encodable_def)
  ultimately show ?case using Suc.hyps(1) [of "Suc k"] by simp
qed

lemma prefix_hash_take:
  "k * bs \<le> n \<Longrightarrow> prefix_hash D bs lora (take n tokens) k = prefix_hash D bs lora tokens k"
proof (induction k)
  case 0
  then show ?case by simp
next
  case (Suc k)
  then have "block_slice (take n tokens) bs k = block_slice tokens bs k"
    by (simp add: block_slice_def drop_take min_def)
  then show ?case using Suc by simp
qed

lemma prefix_hash_append:
  "k * bs \<le> length tokens \<Longrightarrow> prefix_hash D bs lora (tokens @ more) k = prefix_hash D bs lora tokens k"
  using prefix_hash_take [of k bs "length tokens" D lora "tokens @ more"] by simp

lemma slices_prefix:
  "take (Suc k * bs) tokens = take (k * bs) tokens @ block_slice tokens bs k"
  by (simp add: block_slice_def take_add add.commute [of bs])

section \<open>Without a collision the chain identifies the prefix\<close>

primrec chain_messages :: "digest \<Rightarrow> nat \<Rightarrow> int \<Rightarrow> int list \<Rightarrow> nat \<Rightarrow> bytes set" where
  "chain_messages D bs lora tokens 0 = {root_message}"
| "chain_messages D bs lora tokens (Suc k) =
     insert (hash_message (prefix_hash D bs lora tokens k) lora (block_slice tokens bs k))
       (chain_messages D bs lora tokens k)"

definition digest_ok :: "digest \<Rightarrow> bytes set \<Rightarrow> bool" where
  "digest_ok D S \<longleftrightarrow> inj_on D S \<and> (\<forall>m \<in> S. length (D m) = 16)"

lemma root_in_chain: "root_message \<in> chain_messages D bs lora tokens k"
  by (induction k) auto

lemma chain_messages_mono: "j \<le> k \<Longrightarrow> chain_messages D bs lora tokens j \<subseteq> chain_messages D bs lora tokens k"
  by (induction k) (auto simp: le_Suc_eq)

lemma prefix_hash_length:
  "digest_ok D S \<Longrightarrow> chain_messages D bs lora tokens k \<subseteq> S \<Longrightarrow>
   length (prefix_hash D bs lora tokens k) = 16"
  by (cases k) (auto simp: digest_ok_def root_hash_def)

lemma hash_message_not_root:
  "length p = 16 \<Longrightarrow> hash_message p lora tokens \<noteq> root_message"
proof
  assume p: "length p = 16" and e: "hash_message p lora tokens = root_message"
  have "length (hash_message p lora tokens) = 24 + 8 * length tokens"
    using p by (simp add: hash_message_def)
  moreover have "length root_message = 26" by (simp add: root_message_def)
  ultimately have "24 + 8 * length tokens = 26" using e by simp
  then show False by presburger
qed

lemma hash_message_inj:
  assumes "hash_message p l ts = hash_message p' l' ts'" "length p = 16" "length p' = 16"
    "fits64 l" "fits64 l'" "list_all fits64 ts" "list_all fits64 ts'"
  shows "p = p' \<and> l = l' \<and> ts = ts'"
proof -
  have "p = p'" "le64 l @ tokens_bytes ts = le64 l' @ tokens_bytes ts'"
    using assms(1-3) by (auto simp: hash_message_def)
  moreover from this have "le64 l = le64 l'" "tokens_bytes ts = tokens_bytes ts'" by auto
  ultimately show ?thesis using assms(4-7) le64_inj tokens_bytes_inj by blast
qed

lemma chain_identifies_prefix:
  assumes "digest_ok D S"
    and "chain_messages D bs la ta i \<subseteq> S" and "chain_messages D bs lb tb j \<subseteq> S"
    and "encodable la ta" and "encodable lb tb"
    and "prefix_hash D bs la ta i = prefix_hash D bs lb tb j"
  shows "i = j \<and> take (i * bs) ta = take (j * bs) tb \<and> (0 < i \<longrightarrow> la = lb)"
  using assms
proof (induction i arbitrary: j)
  case 0
  show ?case
  proof (cases j)
    case 0
    then show ?thesis by simp
  next
    case (Suc j')
    let ?m = "hash_message (prefix_hash D bs lb tb j') lb (block_slice tb bs j')"
    have "D root_message = D ?m" using 0 Suc by (simp add: root_hash_def)
    moreover have "root_message \<in> S" "?m \<in> S"
      using 0 Suc root_in_chain by auto
    moreover have "length (prefix_hash D bs lb tb j') = 16"
      using 0 Suc by (intro prefix_hash_length [of D S]) auto
    ultimately show ?thesis
      using "0.prems"(1) hash_message_not_root by (metis digest_ok_def inj_onD)
  qed
next
  case (Suc i)
  let ?m = "hash_message (prefix_hash D bs la ta i) la (block_slice ta bs i)"
  have mS: "?m \<in> S" and li: "length (prefix_hash D bs la ta i) = 16"
    using Suc.prems by (auto intro: prefix_hash_length [of D S])
  show ?case
  proof (cases j)
    case 0
    then have "D ?m = D root_message" using Suc.prems by (simp add: root_hash_def)
    moreover have "root_message \<in> S" using Suc.prems(3) 0 by simp
    ultimately show ?thesis
      using Suc.prems(1) mS hash_message_not_root [OF li] by (metis digest_ok_def inj_onD)
  next
    case (Suc j')
    let ?n = "hash_message (prefix_hash D bs lb tb j') lb (block_slice tb bs j')"
    have nS: "?n \<in> S" and lj: "length (prefix_hash D bs lb tb j') = 16"
      using Suc.prems Suc by (auto intro: prefix_hash_length [of D S])
    have "D ?m = D ?n" using Suc.prems(6) Suc by simp
    then have "?m = ?n" using Suc.prems(1) mS nS by (meson digest_ok_def inj_onD)
    then have e: "prefix_hash D bs la ta i = prefix_hash D bs lb tb j'" "la = lb"
        "block_slice ta bs i = block_slice tb bs j'"
      using hash_message_inj [OF _ li lj] Suc.prems(4,5) encodable_slice
      by (auto simp: encodable_def)
    have "i = j' \<and> take (i * bs) ta = take (j' * bs) tb \<and> (0 < i \<longrightarrow> la = lb)"
      using Suc.prems Suc e by (intro Suc.IH) auto
    then show ?thesis using e Suc slices_prefix by metis
  qed
qed

end
