(* ===== verification/Prefix_Cache.thy ===== *)
theory Prefix_Cache
  imports Block_Allocator Hash_Chain
begin

text \<open>
  The content-addressed index of computed KV blocks, class \<open>PrefixCache\<close> of
  \<open>src/turboserve/engine/core/prefix_cache.py\<close>.

  \<open>OrderedDict _evictable\<close> is the list of its keys, oldest first; \<open>_by_hash\<close> and
  \<open>_by_block\<close> are maps. \<open>index_ok\<close> says the two maps are inverse to each other, which is
  what \<open>check_invariants\<close> tests. The last section shows that the cache keeps the laws of
  \<open>pinning_recycler\<close>, the interface the block allocator relies on.
\<close>

section \<open>The cache object\<close>

record pc_entry =
  e_block :: nat
  e_hash :: bytes

record pcache =
  c_block_size :: nat
  c_by_hash :: "bytes \<rightharpoonup> nat"
  c_by_block :: "nat \<rightharpoonup> pc_entry"
  c_evictable :: "nat list"
  c_hits :: nat
  c_misses :: nat
  c_inserts :: nat
  c_evictions :: nat

record pmatch =
  m_blocks :: "nat list"
  m_hashes :: "bytes list"
  m_block_size :: nat

definition pm_num_blocks :: "pmatch \<Rightarrow> nat" where
  "pm_num_blocks m = length (m_blocks m)"

definition pm_num_tokens :: "pmatch \<Rightarrow> nat" where
  "pm_num_tokens m = length (m_blocks m) * m_block_size m"

definition pc_init :: "int \<Rightarrow> py_error + pcache" where
  "pc_init block_size =
     (if block_size < 1 then Inl ValueError
      else Inr \<lparr>c_block_size = nat block_size, c_by_hash = Map.empty, c_by_block = Map.empty,
                c_evictable = [], c_hits = 0, c_misses = 0, c_inserts = 0, c_evictions = 0\<rparr>)"

definition pc_contains :: "nat \<Rightarrow> pcache \<Rightarrow> bool" where
  "pc_contains b c \<longleftrightarrow> c_by_block c b \<noteq> None"

definition pc_is_evictable :: "nat \<Rightarrow> pcache \<Rightarrow> bool" where
  "pc_is_evictable b c \<longleftrightarrow> b \<in> set (c_evictable c)"

definition pc_get :: "bytes \<Rightarrow> pcache \<Rightarrow> nat option" where
  "pc_get h c = c_by_hash c h"

fun match_loop ::
  "digest \<Rightarrow> (bytes \<rightharpoonup> nat) \<Rightarrow> int list \<Rightarrow> nat \<Rightarrow> int \<Rightarrow> nat list \<Rightarrow> bytes \<Rightarrow>
   py_error + (nat list \<times> bytes list)" where
  "match_loop D idx tokens bs lora [] parent = Inr ([], [])"
| "match_loop D idx tokens bs lora (i # is) parent =
     rbind (block_hash D parent (block_slice tokens bs i) lora) (\<lambda>h.
       case idx h of
         None \<Rightarrow> Inr ([], [])
       | Some b \<Rightarrow> rbind (match_loop D idx tokens bs lora is h)
                     (\<lambda>(blocks, hashes). Inr (b # blocks, h # hashes)))"

definition pc_match ::
  "digest \<Rightarrow> int list \<Rightarrow> int \<Rightarrow> int option \<Rightarrow> bool \<Rightarrow> pcache \<Rightarrow> py_error + (pmatch \<times> pcache)" where
  "pc_match D tokens lora max_blocks rec c =
     (let n = num_full_blocks tokens (c_block_size c) max_blocks
      in rbind (match_loop D (c_by_hash c) tokens (c_block_size c) lora [0..<n] (root_hash D))
         (\<lambda>(blocks, hashes).
            Inr (\<lparr>m_blocks = blocks, m_hashes = hashes, m_block_size = c_block_size c\<rparr>,
                 if rec then c\<lparr>c_hits := c_hits c + length blocks,
                               c_misses := c_misses c + (n - length blocks)\<rparr>
                 else c)))"

definition pc_lookup ::
  "digest \<Rightarrow> int list \<Rightarrow> int \<Rightarrow> int option \<Rightarrow> bool \<Rightarrow> pcache \<Rightarrow> py_error + (nat list \<times> pcache)" where
  "pc_lookup D tokens lora max_blocks rec c =
     rbind (pc_match D tokens lora max_blocks rec c) (\<lambda>(m, c'). Inr (m_blocks m, c'))"

section \<open>Mutation\<close>

definition pc_insert :: "nat \<Rightarrow> bytes \<Rightarrow> pcache \<Rightarrow> py_error + (bool \<times> pcache)" where
  "pc_insert b h c =
     (case c_by_block c b of
        Some e \<Rightarrow> if e_hash e = h then Inr (False, c) else Inl ValueError
      | None \<Rightarrow>
          if c_by_hash c h \<noteq> None then Inr (False, c)
          else Inr (True, c\<lparr>c_by_hash := (c_by_hash c)(h \<mapsto> b),
                            c_by_block := (c_by_block c)(b \<mapsto> \<lparr>e_block = b, e_hash = h\<rparr>),
                            c_inserts := c_inserts c + 1\<rparr>))"

definition pc_acquire :: "nat \<Rightarrow> pcache \<Rightarrow> pcache" where
  "pc_acquire b c = c\<lparr>c_evictable := filter (\<lambda>x. x \<noteq> b) (c_evictable c)\<rparr>"

definition pc_release :: "nat \<Rightarrow> pcache \<Rightarrow> bool \<times> pcache" where
  "pc_release b c =
     (if c_by_block c b = None then (False, c)
      else (True, c\<lparr>c_evictable := filter (\<lambda>x. x \<noteq> b) (c_evictable c) @ [b]\<rparr>))"

text \<open>One turn of the \<open>while\<close> loop of \<open>evict\<close> pops the oldest block and drops its entry.\<close>

definition pc_drop :: "nat \<Rightarrow> pcache \<Rightarrow> pcache" where
  "pc_drop b c =
     (case c_by_block c b of
        None \<Rightarrow> c
      | Some e \<Rightarrow> c\<lparr>c_by_block := (c_by_block c)(b := None),
                    c_by_hash := (c_by_hash c)(e_hash e := None)\<rparr>)"

fun evict_loop :: "nat \<Rightarrow> pcache \<Rightarrow> nat list \<times> pcache" where
  "evict_loop 0 c = ([], c)"
| "evict_loop (Suc n) c =
     (case c_evictable c of
        [] \<Rightarrow> ([], c)
      | b # rest \<Rightarrow> (case evict_loop n (pc_drop b (c\<lparr>c_evictable := rest\<rparr>)) of
                       (evicted, c') \<Rightarrow> (b # evicted, c')))"

definition pc_evict :: "nat \<Rightarrow> pcache \<Rightarrow> nat list \<times> pcache" where
  "pc_evict n c =
     (if n \<le> 0 then ([], c)
      else (case evict_loop n c of
              (evicted, c') \<Rightarrow> (evicted, c'\<lparr>c_evictions := c_evictions c' + length evicted\<rparr>)))"

definition pc_remove :: "nat \<Rightarrow> pcache \<Rightarrow> bool \<times> pcache" where
  "pc_remove b c =
     (case c_by_block c b of
        None \<Rightarrow> (False, c)
      | Some e \<Rightarrow> (True, pc_acquire b (pc_drop b c)))"

fun pc_remove_many :: "nat list \<Rightarrow> pcache \<Rightarrow> nat \<times> pcache" where
  "pc_remove_many [] c = (0, c)"
| "pc_remove_many (b # bs) c =
     (case pc_remove b c of (known, c') \<Rightarrow>
        (case pc_remove_many bs c' of (n, c'') \<Rightarrow> ((if known then 1 else 0) + n, c'')))"

definition pc_reset :: "pcache \<Rightarrow> pcache" where
  "pc_reset c = c\<lparr>c_by_hash := Map.empty, c_by_block := Map.empty, c_evictable := []\<rparr>"

definition pc_reset_stats :: "pcache \<Rightarrow> pcache" where
  "pc_reset_stats c = c\<lparr>c_hits := 0, c_misses := 0, c_inserts := 0, c_evictions := 0\<rparr>"

definition pc_check :: "pcache \<Rightarrow> py_error + unit" where
  "pc_check c =
     rbind (rguard (card (dom (c_by_hash c)) \<noteq> card (dom (c_by_block c))) ValueError) (\<lambda>_.
     rbind (rguard (\<exists>b \<in> dom (c_by_block c). case c_by_block c b of
              None \<Rightarrow> False | Some e \<Rightarrow> e_block e \<noteq> b \<or> c_by_hash c (e_hash e) \<noteq> Some b) ValueError) (\<lambda>_.
     rguard (list_ex (\<lambda>b. c_by_block c b = None) (c_evictable c)) ValueError))"

definition pc_recycler :: "pcache recycler" where
  "pc_recycler = \<lparr>on_zero_refs = pc_release, reclaim_hook = pc_evict\<rparr>"

section \<open>The index invariant\<close>

definition index_ok :: "(bytes \<rightharpoonup> nat) \<Rightarrow> (nat \<rightharpoonup> pc_entry) \<Rightarrow> bool" where
  "index_ok H B \<longleftrightarrow>
     (\<forall>h b. H h = Some b \<longleftrightarrow> (\<exists>e. B b = Some e \<and> e_hash e = h))
     \<and> (\<forall>b e. B b = Some e \<longrightarrow> e_block e = b)"

definition pc_inv :: "pcache \<Rightarrow> bool" where
  "pc_inv c \<longleftrightarrow> index_ok (c_by_hash c) (c_by_block c)
     \<and> distinct (c_evictable c) \<and> set (c_evictable c) \<subseteq> dom (c_by_block c)"

lemma index_ok_hash: "index_ok H B \<Longrightarrow> H h = Some b \<longleftrightarrow> (\<exists>e. B b = Some e \<and> e_hash e = h)"
  by (simp add: index_ok_def)

lemma index_ok_entry: "index_ok H B \<Longrightarrow> B b = Some e \<Longrightarrow> e_block e = b \<and> H (e_hash e) = Some b"
  by (auto simp: index_ok_def)

lemma index_ok_empty [simp]: "index_ok Map.empty Map.empty"
  by (simp add: index_ok_def)

lemma index_ok_insert:
  assumes i: "index_ok H B" and "B b = None" "H h = None" "e_block e = b" "e_hash e = h"
  shows "index_ok (H(h \<mapsto> b)) (B(b \<mapsto> e))"
proof -
  have "(H(h \<mapsto> b)) h' = Some b' \<longleftrightarrow> (\<exists>e'. (B(b \<mapsto> e)) b' = Some e' \<and> e_hash e' = h')" for h' b'
    using index_ok_hash [OF i, of h' b'] index_ok_hash [OF i, of h' b] assms
      index_ok_hash [OF i, of h b']
    by (cases "h' = h"; cases "b' = b") auto
  then show ?thesis using i assms(4) by (simp add: index_ok_def)
qed

lemma index_ok_remove:
  assumes i: "index_ok H B" and e: "B b = Some e"
  shows "index_ok (H(e_hash e := None)) (B(b := None))"
proof -
  have "(H(e_hash e := None)) h' = Some b' \<longleftrightarrow> (\<exists>e'. (B(b := None)) b' = Some e' \<and> e_hash e' = h')"
    for h' b'
    using index_ok_hash [OF i, of h' b'] index_ok_hash [OF i, of "e_hash e" b'] e
      index_ok_hash [OF i, of "e_hash e" b]
    by (cases "h' = e_hash e"; cases "b' = b") auto
  then show ?thesis using i by (simp add: index_ok_def)
qed

definition pc_held :: "pcache \<Rightarrow> nat set" where
  "pc_held c = set (c_evictable c)"

definition pc_kept :: "pcache \<Rightarrow> nat set" where
  "pc_kept c = dom (c_by_block c)"

lemma pc_init_inv: "pc_init n = Inr c \<Longrightarrow> pc_inv c \<and> pc_kept c = {}"
  by (auto simp: pc_init_def pc_inv_def pc_kept_def split: if_splits)

lemma pc_insert_inv: "pc_inv c \<Longrightarrow> pc_insert b h c = Inr (k, c') \<Longrightarrow> pc_inv c'"
  by (auto simp: pc_inv_def pc_insert_def intro!: index_ok_insert split: option.splits if_splits)

lemma pc_acquire_inv: "pc_inv c \<Longrightarrow> pc_inv (pc_acquire b c)"
  by (auto simp: pc_inv_def pc_acquire_def)

lemma pc_release_inv: "pc_inv c \<Longrightarrow> pc_release b c = (k, c') \<Longrightarrow> pc_inv c'"
  by (auto simp: pc_inv_def pc_release_def split: if_splits)

lemma pc_drop_inv:
  "pc_inv c \<Longrightarrow> b \<notin> set (c_evictable c) \<Longrightarrow> pc_inv (pc_drop b c)"
  by (auto simp: pc_inv_def pc_drop_def intro!: index_ok_remove split: option.splits)

lemma pc_drop_simps [simp]:
  "c_evictable (pc_drop b c) = c_evictable c"
  "c_block_size (pc_drop b c) = c_block_size c"
  by (auto simp: pc_drop_def split: option.splits)

lemma pc_drop_idx: "c_by_block (pc_drop b c) = (c_by_block c)(b := None)"
  by (auto simp: pc_drop_def split: option.splits)

lemma evict_loop_effect:
  "pc_inv c \<Longrightarrow> evict_loop n c = (bs, c') \<Longrightarrow>
     pc_inv c' \<and> bs = take n (c_evictable c) \<and> c_evictable c' = drop n (c_evictable c)
     \<and> c_by_block c' = c_by_block c |` (- set bs)"
proof (induction n arbitrary: c bs c')
  case 0
  then show ?case by simp
next
  case (Suc n)
  show ?case
  proof (cases "c_evictable c")
    case Nil
    then show ?thesis using Suc.prems by simp
  next
    case (Cons b rest)
    let ?c = "pc_drop b (c\<lparr>c_evictable := rest\<rparr>)"
    obtain bs1 c1 where e: "evict_loop n ?c = (bs1, c1)" by fastforce
    have "pc_inv (c\<lparr>c_evictable := rest\<rparr>)" "b \<notin> set rest"
      using Suc.prems(1) Cons by (auto simp: pc_inv_def)
    then have "pc_inv ?c" using pc_drop_inv by fastforce
    then have ih: "pc_inv c1" "bs1 = take n rest" "c_evictable c1 = drop n rest"
        and i: "c_by_block c1 = c_by_block ?c |` (- set bs1)"
      using Suc.IH [OF _ e] by simp_all
    have "c_by_block c1 = c_by_block c |` (- set (b # bs1))"
      unfolding i pc_drop_idx by (auto simp: restrict_map_def fun_eq_iff)
    moreover
    have "bs = b # bs1" "c' = c1" using Suc.prems(2) Cons e by simp_all
    ultimately show ?thesis using ih Cons by simp
  qed
qed

lemma pc_evict_effect:
  assumes "pc_inv c" "pc_evict n c = (bs, c')"
  shows "pc_inv c' \<and> bs = take n (c_evictable c) \<and> c_evictable c' = drop n (c_evictable c)
     \<and> c_by_block c' = c_by_block c |` (- set bs)"
proof (cases n)
  case 0
  then show ?thesis using assms by (auto simp: pc_evict_def)
next
  case (Suc m)
  obtain bs1 c1 where e: "evict_loop n c = (bs1, c1)" by fastforce
  then have "bs = bs1" "c' = c1\<lparr>c_evictions := c_evictions c1 + length bs1\<rparr>"
    using assms(2) Suc by (auto simp: pc_evict_def)
  moreover have "pc_inv c'" using evict_loop_effect [OF assms(1) e] calculation
    by (auto simp: pc_inv_def)
  ultimately show ?thesis
    using evict_loop_effect [OF assms(1) e] by auto
qed

lemma pc_remove_inv: "pc_inv c \<Longrightarrow> pc_inv (snd (pc_remove b c))"
  by (auto simp: pc_remove_def pc_inv_def pc_drop_def pc_acquire_def
      intro!: index_ok_remove split: option.splits)

lemma pc_reset_inv: "pc_inv (pc_reset c) \<and> pc_kept (pc_reset c) = {}"
  by (simp add: pc_reset_def pc_inv_def pc_kept_def)

lemma pc_match_cache: "pc_match D ts l mb rec c = Inr (m, c') \<Longrightarrow>
    pc_inv c' = pc_inv c \<and> pc_kept c' = pc_kept c \<and> pc_held c' = pc_held c
    \<and> c_by_hash c' = c_by_hash c \<and> c_by_block c' = c_by_block c
    \<and> c_block_size c' = c_block_size c"
  by (auto simp: pc_match_def Let_def pc_inv_def pc_kept_def pc_held_def split: if_splits)

section \<open>What a lookup returns\<close>

text \<open>
  The loop stops at some block \<open>j\<close>: everything before it is indexed under the chain hash of
  the query's own prefix, and block \<open>j\<close> (if there is one) is not indexed.
\<close>

definition hit_run ::
  "digest \<Rightarrow> (bytes \<rightharpoonup> nat) \<Rightarrow> int list \<Rightarrow> nat \<Rightarrow> int \<Rightarrow> nat \<Rightarrow> nat \<Rightarrow> nat list \<Rightarrow> bytes list \<Rightarrow> bool" where
  "hit_run D idx tokens bs lora k n blocks hashes \<longleftrightarrow>
     (\<exists>j. k \<le> j \<and> (j \<le> n \<or> j = k) \<and> hashes = map (\<lambda>i. prefix_hash D bs lora tokens (Suc i)) [k..<j]
        \<and> map idx hashes = map Some blocks
        \<and> (j < n \<longrightarrow> idx (prefix_hash D bs lora tokens (Suc j)) = None))"

lemma match_loop_run:
  assumes "encodable lora tokens"
  shows "\<exists>blocks hashes. match_loop D idx tokens bs lora [k..<n] (prefix_hash D bs lora tokens k)
           = Inr (blocks, hashes) \<and> hit_run D idx tokens bs lora k n blocks hashes"
proof (induction "n - k" arbitrary: k)
  case 0
  then show ?case by (auto simp: hit_run_def)
next
  case (Suc m)
  then have u: "[k..<n] = k # [Suc k..<n]" by (simp add: upt_conv_Cons)
  let ?h = "prefix_hash D bs lora tokens (Suc k)"
  have bh: "block_hash D (prefix_hash D bs lora tokens k) (block_slice tokens bs k) lora = Inr ?h"
    using assms encodable_slice [OF assms] by (simp add: block_hash_eq encodable_def)
  show ?case
  proof (cases "idx ?h")
    case None
    then show ?thesis using u bh by (auto simp: hit_run_def intro!: exI [of _ k])
  next
    case (Some b)
    have "m = n - Suc k" using Suc.hyps(2) by simp
    from Suc.hyps(1) [OF this] obtain blocks hashes j where
      l: "match_loop D idx tokens bs lora [Suc k..<n] ?h = Inr (blocks, hashes)"
      and j: "Suc k \<le> j" "j \<le> n \<or> j = Suc k"
      and h: "hashes = map (\<lambda>i. prefix_hash D bs lora tokens (Suc i)) [Suc k..<j]"
      and b: "map idx hashes = map Some blocks"
      and e: "j < n \<longrightarrow> idx (prefix_hash D bs lora tokens (Suc j)) = None"
      by (auto simp: hit_run_def)
    have "[k..<j] = k # [Suc k..<j]" using j by (simp add: upt_conv_Cons)
    then have "hit_run D idx tokens bs lora k n (b # blocks) (?h # hashes)"
      unfolding hit_run_def using j h b e Some Suc.hyps(2) by (intro exI [of _ j]) auto
    then show ?thesis using u bh Some l by auto
  qed
qed

text \<open>A lookup of an encodable request returns the longest indexed run of its own blocks.\<close>

lemma pc_match_run:
  assumes "encodable lora tokens"
  shows "\<exists>m c'. pc_match D tokens lora mb rec c = Inr (m, c') \<and> m_block_size m = c_block_size c
    \<and> m_hashes m = map (\<lambda>i. prefix_hash D (c_block_size c) lora tokens (Suc i)) [0..<pm_num_blocks m]
    \<and> map (c_by_hash c) (m_hashes m) = map Some (m_blocks m)
    \<and> pm_num_blocks m \<le> num_full_blocks tokens (c_block_size c) mb
    \<and> (pm_num_blocks m < num_full_blocks tokens (c_block_size c) mb \<longrightarrow>
         c_by_hash c (prefix_hash D (c_block_size c) lora tokens (Suc (pm_num_blocks m))) = None)"
proof -
  let ?n = "num_full_blocks tokens (c_block_size c) mb"
  obtain blocks hashes where
    l: "match_loop D (c_by_hash c) tokens (c_block_size c) lora [0..<?n] (root_hash D) = Inr (blocks, hashes)"
    and r: "hit_run D (c_by_hash c) tokens (c_block_size c) lora 0 ?n blocks hashes"
    using match_loop_run [OF assms, of D "c_by_hash c" "c_block_size c" 0 ?n] by auto
  from r have "length blocks = length hashes"
    by (auto simp: hit_run_def dest: arg_cong [where f = length])
  with l r show ?thesis
    by (auto simp: pc_match_def hit_run_def pm_num_blocks_def Let_def)
qed

lemma num_full_blocks_le: "num_full_blocks tokens bs mb \<le> length tokens div bs"
  by (auto simp: num_full_blocks_def Let_def split: option.splits)

section \<open>The cache as the allocator's recycler\<close>

lemma pc_held_kept: "pc_inv c \<Longrightarrow> pc_held c \<subseteq> pc_kept c"
  by (simp add: pc_inv_def pc_held_def pc_kept_def)

interpretation caching: pinning_recycler "Some pc_recycler" pc_held c_by_block pc_inv pc_acquire
proof (unfold_locales, goal_cases)
  case (1 r) then show ?case using pc_held_kept by (simp add: pc_kept_def)
next
  case (2 r b k r') then show ?case
    by (auto simp: offer_block_def pc_recycler_def intro: pc_release_inv)
next
  case (3 r b k r') then show ?case
    by (auto simp: offer_block_def pc_recycler_def pc_release_def pc_held_def split: if_splits)
next
  case (4 r b k r') then show ?case
    by (auto simp: offer_block_def pc_recycler_def pc_release_def split: if_splits)
next
  case (5 r n bs r') then show ?case
    by (auto simp: give_back_def pc_recycler_def dest: pc_evict_effect)
next
  case (6 r n bs r')
  then have e: "bs = take n (c_evictable r)" "c_evictable r' = drop n (c_evictable r)"
      "c_by_block r' = c_by_block r |` (- set bs)"
    using pc_evict_effect [of r n bs r'] by (auto simp: give_back_def pc_recycler_def)
  moreover have "distinct (c_evictable r)" using 6 by (simp add: pc_inv_def)
  then have "set (drop n (c_evictable r)) = set (c_evictable r) - set (take n (c_evictable r))"
    by (rule set_drop_distinct)
  ultimately show ?case by (auto simp: pc_held_def dest: in_set_takeD)
next
  case (7 r n bs r')
  then have "bs = take n (c_evictable r)" "distinct (c_evictable r)"
    using pc_evict_effect [of r n bs r'] by (auto simp: give_back_def pc_recycler_def pc_inv_def)
  then show ?case by (simp add: pc_held_def distinct_card)
next
  case (8 r b) then show ?case by (rule pc_acquire_inv)
next
  case (9 r b) then show ?case by (auto simp: pc_held_def pc_acquire_def)
next
  case (10 r b) then show ?case by (simp add: pc_acquire_def)
qed

text \<open>With prefix caching disabled the allocator has no recycler and the index stays empty.\<close>

definition pc_off_inv :: "pcache \<Rightarrow> bool" where
  "pc_off_inv c \<longleftrightarrow> pc_inv c \<and> pc_kept c = {}"

interpretation uncached: pinning_recycler None pc_held c_by_block pc_off_inv pc_acquire
proof (unfold_locales, goal_cases)
  case (1 r) then show ?case using pc_held_kept [of r] by (auto simp: pc_off_inv_def pc_kept_def)
next
  case (7 r n bs r')
  then have "pc_held r = {}" using pc_held_kept [of r] by (auto simp: pc_off_inv_def)
  then show ?case using 7 by (simp add: give_back_def)
next
  case (8 r b) then show ?case
    using pc_acquire_inv by (auto simp: pc_off_inv_def pc_kept_def pc_acquire_def)
next
  case (9 r b) then show ?case by (auto simp: pc_held_def pc_acquire_def)
next
  case (10 r b) then show ?case by (simp add: pc_acquire_def)
qed (auto simp: offer_block_def give_back_def pc_off_inv_def pc_kept_def)

end
