(* ===== verification/Engine_Types.thy ===== *)
theory Engine_Types
  imports Prelude Complex_Main
begin

text \<open>
  The data contracts of \<open>src/turboserve/engine/core/types.py\<close>: sampling parameters and
  the scheduler configuration with their validators, request timings and the figures
  derived from them, and the packed-batch metadata with its validator.

  A 1-D \<open>int64\<close> tensor is the \<open>int list\<close> of its entries and a 2-D one the list of its rows;
  its device, dtype and rank are fixed by that and not modelled. Floats are \<open>rat\<close>: the
  arithmetic is exact, rounding is not modelled. A pydantic constraint (\<open>Field(ge=1)\<close>)
  is a conjunct of the record's validity predicate.
\<close>

section \<open>Sampling parameters and scheduler configuration\<close>

record sampling =
  max_tokens :: int
  temperature :: rat
  top_p :: rat
  top_k :: int
  seed :: "int option"
  stop_token_ids :: "int list"
  stop_strings :: "utext list"
  repetition_penalty :: rat
  ignore_eos :: bool
  logprobs :: bool

definition sampling_default :: sampling where
  "sampling_default = \<lparr>max_tokens = 128, temperature = 1, top_p = 1, top_k = 0, seed = None,
     stop_token_ids = [], stop_strings = [], repetition_penalty = 1, ignore_eos = False,
     logprobs = False\<rparr>"

definition sampling_valid :: "sampling \<Rightarrow> bool" where
  "sampling_valid p \<longleftrightarrow> 1 \<le> max_tokens p \<and> 0 \<le> temperature p \<and> 0 < top_p p \<and> top_p p \<le> 1
     \<and> 0 \<le> top_k p \<and> 0 < repetition_penalty p"

definition is_greedy :: "sampling \<Rightarrow> bool" where
  "is_greedy p \<longleftrightarrow> temperature p = 0"

datatype scheduler_policy = Fcfs | Tenant_Fair

record scheduler_config =
  max_num_seqs :: nat
  max_num_batched_tokens :: nat
  cfg_block_size :: nat
  cfg_num_blocks :: "nat option"
  enable_chunked_prefill :: bool
  enable_prefix_caching :: bool
  policy :: scheduler_policy
  tenant_weights :: "(string \<times> rat) list"

text \<open>
  \<open>block_size & (block_size - 1)\<close> is zero exactly on the powers of two (and zero).
\<close>

definition config_valid :: "scheduler_config \<Rightarrow> bool" where
  "config_valid c \<longleftrightarrow> 1 \<le> max_num_seqs c \<and> 1 \<le> max_num_batched_tokens c \<and> 1 \<le> cfg_block_size c
     \<and> (case cfg_num_blocks c of None \<Rightarrow> True | Some n \<Rightarrow> 1 \<le> n)
     \<and> and (cfg_block_size c) (cfg_block_size c - 1) = 0
     \<and> cfg_block_size c \<le> max_num_batched_tokens c
     \<and> (\<forall>(t, w) \<in> set (tenant_weights c). 0 < w)"

section \<open>Request timing\<close>

datatype finish_reason = Stop | Length | Abort

record timing =
  t_arrival :: "rat option"
  t_first_scheduled :: "rat option"
  t_first_token :: "rat option"
  t_finish :: "rat option"
  num_cached_prompt_tokens :: nat

definition timing_empty :: timing where
  "timing_empty = \<lparr>t_arrival = None, t_first_scheduled = None, t_first_token = None,
     t_finish = None, num_cached_prompt_tokens = 0\<rparr>"

fun span :: "rat option \<Rightarrow> rat option \<Rightarrow> rat option" where
  "span (Some a) (Some b) = Some (b - a)"
| "span _ _ = None"

definition ttft :: "timing \<Rightarrow> rat option" where
  "ttft t = span (t_arrival t) (t_first_token t)"

definition e2e :: "timing \<Rightarrow> rat option" where
  "e2e t = span (t_arrival t) (t_finish t)"

definition queue_time :: "timing \<Rightarrow> rat option" where
  "queue_time t = span (t_arrival t) (t_first_scheduled t)"

definition tpot :: "timing \<Rightarrow> int \<Rightarrow> rat option" where
  "tpot t n_out =
     (if n_out < 2 then None
      else case span (t_first_token t) (t_finish t) of
        None \<Rightarrow> None | Some d \<Rightarrow> Some (d / of_int (n_out - 1)))"

text \<open>End-to-end time is the first token's time plus the decode slope times its length.\<close>

lemma e2e_decomposes:
  assumes "ttft t = Some a" "tpot t n = Some p"
  shows "e2e t = Some (a + p * of_int (n - 1))"
proof -
  have n: "\<not> n < 2" using assms(2) by (auto simp: tpot_def)
  obtain d where d: "span (t_first_token t) (t_finish t) = Some d" "p = d / of_int (n - 1)"
    using assms(2) n by (auto simp: tpot_def split: option.splits)
  have "p * of_int (n - 1) = d" using d(2) n by simp
  then show ?thesis
    using assms(1) d(1) unfolding e2e_def ttft_def
    by (cases "t_arrival t"; cases "t_first_token t"; cases "t_finish t") auto
qed

section \<open>Packed batches\<close>

definition no_lora :: int where "no_lora = 0"

definition pad_block :: int where "pad_block = - 1"

fun cumsum_from :: "int \<Rightarrow> int list \<Rightarrow> int list" where
  "cumsum_from acc [] = []"
| "cumsum_from acc (x # xs) = (acc + x) # cumsum_from (acc + x) xs"

definition build_query_start_loc :: "int list \<Rightarrow> int list" where
  "build_query_start_loc query_lens = 0 # cumsum_from 0 query_lens"

definition row_width :: "int list list \<Rightarrow> nat" where
  "row_width rows = foldr (\<lambda>row w. max (length row) w) rows 0"

definition pad_row :: "nat \<Rightarrow> int list \<Rightarrow> int list" where
  "pad_row width row = row @ replicate (width - length row) pad_block"

definition pad_block_tables :: "int list list \<Rightarrow> nat option \<Rightarrow> py_error + int list list" where
  "pad_block_tables rows max_blocks =
     (case max_blocks of
        None \<Rightarrow> Inr (map (pad_row (row_width rows)) rows)
      | Some m \<Rightarrow> if m < row_width rows then Inl ValueError else Inr (map (pad_row m) rows))"

record attn_meta =
  slot_mapping :: "int list"
  block_tables :: "int list list"
  context_lens :: "int list"
  query_start_loc :: "int list"
  max_query_len :: int
  max_context_len :: int
  num_prefill_seqs :: int
  num_decode_seqs :: int

definition am_num_seqs :: "attn_meta \<Rightarrow> int" where
  "am_num_seqs m = num_prefill_seqs m + num_decode_seqs m"

definition am_num_tokens :: "attn_meta \<Rightarrow> int" where
  "am_num_tokens m = int (length (slot_mapping m))"

definition is_prefill_only :: "attn_meta \<Rightarrow> bool" where
  "is_prefill_only m \<longleftrightarrow> num_decode_seqs m = 0 \<and> 0 < num_prefill_seqs m"

definition is_decode_only :: "attn_meta \<Rightarrow> bool" where
  "is_decode_only m \<longleftrightarrow> num_prefill_seqs m = 0 \<and> 0 < num_decode_seqs m \<and> max_query_len m = 1"

definition query_lens_of :: "int list \<Rightarrow> int list" where
  "query_lens_of locs = map (\<lambda>(a, b). b - a) (zip (butlast locs) (tl locs))"

definition max_list :: "int list \<Rightarrow> int" where
  "max_list xs = foldr max (tl xs) (hd xs)"

definition seq_covered :: "int option \<Rightarrow> int list \<Rightarrow> int \<Rightarrow> int \<Rightarrow> py_error + unit" where
  "seq_covered block_size row ctx q_len =
     (if ctx < q_len then Inl ValueError
      else case block_size of
        None \<Rightarrow> Inr ()
      | Some bs \<Rightarrow>
          (let needed = - ((- ctx) div bs);
               valid = filter (\<lambda>b. b \<noteq> pad_block) (take (nat needed) row)
           in rguard (int (length valid) \<noteq> needed) ValueError))"

fun all_covered :: "int option \<Rightarrow> int list list \<Rightarrow> int list \<Rightarrow> int list \<Rightarrow> py_error + unit" where
  "all_covered bs (row # rows) (ctx # ctxs) (q # qs) =
     rbind (seq_covered bs row ctx q) (\<lambda>_. all_covered bs rows ctxs qs)"
| "all_covered bs rows ctxs qs = Inr ()"

definition am_validate :: "int option \<Rightarrow> attn_meta \<Rightarrow> py_error + unit" where
  "am_validate block_size m =
     (let locs = query_start_loc m; qlens = query_lens_of locs in
      rbind (rguard (num_prefill_seqs m < 0 \<or> num_decode_seqs m < 0) ValueError) (\<lambda>_.
      rbind (rguard (int (length (block_tables m)) \<noteq> am_num_seqs m) ValueError) (\<lambda>_.
      rbind (rguard (int (length (context_lens m)) \<noteq> am_num_seqs m) ValueError) (\<lambda>_.
      rbind (rguard (int (length locs) \<noteq> am_num_seqs m + 1) ValueError) (\<lambda>_.
      rbind (rguard (hd locs \<noteq> 0) ValueError) (\<lambda>_.
      rbind (rguard (list_ex (\<lambda>(a, b). b < a) (zip (butlast locs) (tl locs))) ValueError) (\<lambda>_.
      rbind (rguard (last locs \<noteq> am_num_tokens m) ValueError) (\<lambda>_.
      rbind (rguard (qlens \<noteq> [] \<and> max_list qlens \<noteq> max_query_len m) ValueError) (\<lambda>_.
      rbind (rguard (context_lens m \<noteq> [] \<and> max_list (context_lens m) \<noteq> max_context_len m) ValueError) (\<lambda>_.
      all_covered block_size (block_tables m) (context_lens m) qlens))))))))))"

lemma length_cumsum_from [simp]: "length (cumsum_from a xs) = length xs"
  by (induction xs arbitrary: a) auto

lemma last_cumsum_from: "last (a # cumsum_from a xs) = a + sum_list xs"
  by (induction xs arbitrary: a) auto

lemma query_lens_cumsum: "query_lens_of (a # cumsum_from a xs) = xs"
proof (induction xs arbitrary: a)
  case Nil
  then show ?case by (simp add: query_lens_of_def)
next
  case (Cons x xs)
  have "query_lens_of (a # (a + x) # cumsum_from (a + x) xs)
      = x # query_lens_of ((a + x) # cumsum_from (a + x) xs)"
    by (simp add: query_lens_of_def)
  then show ?case using Cons by simp
qed

text \<open>The offsets are the running sums: reading them back gives the lengths.\<close>

lemma query_start_loc_roundtrip: "query_lens_of (build_query_start_loc qs) = qs"
  by (simp add: build_query_start_loc_def query_lens_cumsum)

lemma query_start_loc_last: "last (build_query_start_loc qs) = sum_list qs"
  using last_cumsum_from [of 0 qs] by (simp add: build_query_start_loc_def)

lemma row_width_ge: "row \<in> set rows \<Longrightarrow> length row \<le> row_width rows"
  by (induction rows) (auto simp: row_width_def)

lemma pad_block_tables_prefix:
  "pad_block_tables rows mb = Inr out \<Longrightarrow>
   length out = length rows \<and> (\<forall>i < length rows. take (length (rows ! i)) (out ! i) = rows ! i)"
  by (auto simp: pad_block_tables_def pad_row_def split: option.splits if_splits)

section \<open>LoRA context\<close>

record lora_context =
  token_lora_slot :: "int list"
  active_slots :: "int list"

definition lora_from_slots :: "int list \<Rightarrow> lora_context" where
  "lora_from_slots slots =
     \<lparr>token_lora_slot = slots,
      active_slots = sorted_list_of_set (set (filter (\<lambda>s. s \<noteq> no_lora) slots))\<rparr>"

definition lora_base_only :: "nat \<Rightarrow> lora_context" where
  "lora_base_only n = \<lparr>token_lora_slot = replicate n no_lora, active_slots = []\<rparr>"

definition lora_validate :: "lora_context \<Rightarrow> py_error + unit" where
  "lora_validate c =
     rbind (rguard (list_ex (\<lambda>s. s \<le> no_lora) (active_slots c)) ValueError) (\<lambda>_.
     rbind (rguard (\<not> distinct (active_slots c)) ValueError) (\<lambda>_.
     rguard (list_ex (\<lambda>s. s \<noteq> no_lora \<and> s \<notin> set (active_slots c)) (token_lora_slot c)) ValueError))"

lemma lora_from_slots_valid:
  "list_all (\<lambda>s. no_lora \<le> s) slots \<Longrightarrow> lora_validate (lora_from_slots slots) = Inr ()"
  by (auto simp: lora_validate_def lora_from_slots_def list_ex_iff list_all_iff)

end
