(* ===== verification/Sequences.thy ===== *)
theory Sequences
  imports Engine_Types
begin

text \<open>
  One request's server-side state, class \<open>Sequence\<close> of
  \<open>src/turboserve/engine/core/sequence.py\<close>.

  The record \<open>seqn\<close> holds the fields of the dataclass; \<open>generator\<close> (a torch RNG, used by
  the sampler only) is left out. A method that mutates \<open>self\<close> returns the new record. The
  clock is an argument: where the code falls back to \<open>time.perf_counter()\<close>, the caller
  passes the reading as \<open>now\<close>.

  \<open>seq_wf\<close> is the class's documented invariant; every operation keeps it.
\<close>

datatype seq_status = Waiting | Running | Preempted | Finished

record seqn =
  q_id :: nat
  q_request :: string
  q_prompt :: "int list"
  q_sampling :: sampling
  q_tenant :: string
  q_priority :: int
  q_lora :: int
  q_output :: "int list"
  q_table :: "nat list"
  q_computed :: nat
  q_status :: seq_status
  q_reason :: "finish_reason option"
  q_stop_token :: "int option"
  q_timing :: timing
  q_preemptions :: nat

definition seq_init ::
  "nat \<Rightarrow> string \<Rightarrow> int list \<Rightarrow> sampling \<Rightarrow> string \<Rightarrow> int \<Rightarrow> int \<Rightarrow> py_error + seqn" where
  "seq_init sid rid prompt params tenant prio lora =
     (if prompt = [] then Inl ValueError
      else if lora < no_lora then Inl ValueError
      else Inr \<lparr>q_id = sid, q_request = rid, q_prompt = prompt, q_sampling = params,
        q_tenant = tenant, q_priority = prio, q_lora = lora, q_output = [], q_table = [],
        q_computed = 0, q_status = Waiting, q_reason = None, q_stop_token = None,
        q_timing = timing_empty, q_preemptions = 0\<rparr>)"

section \<open>Token accounting\<close>

definition num_prompt_tokens :: "seqn \<Rightarrow> nat" where
  "num_prompt_tokens q = length (q_prompt q)"

definition num_output_tokens :: "seqn \<Rightarrow> nat" where
  "num_output_tokens q = length (q_output q)"

definition num_tokens :: "seqn \<Rightarrow> nat" where
  "num_tokens q = length (q_prompt q) + length (q_output q)"

definition num_uncomputed :: "seqn \<Rightarrow> int" where
  "num_uncomputed q = int (num_tokens q) - int (q_computed q)"

definition token_ids :: "seqn \<Rightarrow> int list" where
  "token_ids q = q_prompt q @ q_output q"

definition is_prefill :: "seqn \<Rightarrow> bool" where
  "is_prefill q \<longleftrightarrow> q_computed q < num_prompt_tokens q"

definition is_finished :: "seqn \<Rightarrow> bool" where
  "is_finished q \<longleftrightarrow> q_status q = Finished"

definition token_at :: "int \<Rightarrow> seqn \<Rightarrow> py_error + int" where
  "token_at position q =
     (if \<not> (0 \<le> position \<and> position < int (num_tokens q)) then Inl IndexError
      else let p = length (q_prompt q)
           in if position < int p then Inr (q_prompt q ! nat position)
              else Inr (q_output q ! (nat position - p)))"

definition tokens_in_range :: "int \<Rightarrow> int \<Rightarrow> seqn \<Rightarrow> py_error + int list" where
  "tokens_in_range start stop q =
     (if start < 0 \<or> int (num_tokens q) < stop \<or> stop < start then Inl ValueError
      else let p = length (q_prompt q); s = nat start; e = nat stop
           in if e \<le> p then Inr (take (e - s) (drop s (q_prompt q)))
              else if p \<le> s then Inr (take (e - s) (drop (s - p) (q_output q)))
              else Inr (drop s (q_prompt q) @ take (e - p) (q_output q)))"

definition block_tokens :: "nat \<Rightarrow> nat \<Rightarrow> seqn \<Rightarrow> py_error + int list" where
  "block_tokens index bs q =
     (let start = index * bs; stop = start + bs
      in if num_tokens q < stop then Inl ValueError
         else tokens_in_range (int start) (int stop) q)"

definition num_blocks_needed :: "nat \<Rightarrow> seqn \<Rightarrow> nat" where
  "num_blocks_needed bs q = ceil_div (num_tokens q) bs"

definition num_new_tokens_to_compute :: "int \<Rightarrow> seqn \<Rightarrow> nat" where
  "num_new_tokens_to_compute budget q =
     (if is_finished q \<or> budget \<le> 0 then 0
      else nat (max 0 (min budget (num_uncomputed q))))"

definition advance_computed :: "int \<Rightarrow> seqn \<Rightarrow> py_error + (nat \<times> seqn)" where
  "advance_computed n q =
     (if n < 0 then Inl ValueError
      else let target = q_computed q + nat n
           in if num_tokens q < target then Inl ValueError
              else Inr (target, q\<lparr>q_computed := target\<rparr>))"

definition reset_for_recompute :: "seqn \<Rightarrow> seqn" where
  "reset_for_recompute q = q\<lparr>q_computed := 0, q_table := [],
     q_timing := (q_timing q)\<lparr>num_cached_prompt_tokens := 0\<rparr>,
     q_preemptions := q_preemptions q + 1, q_status := Preempted\<rparr>"

section \<open>Generation\<close>

definition seq_append_token :: "int \<Rightarrow> rat \<Rightarrow> seqn \<Rightarrow> py_error + seqn" where
  "seq_append_token token now q =
     (if is_finished q then Inl ValueError
      else let q' = q\<lparr>q_output := q_output q @ [token]\<rparr>
           in Inr (if t_first_token (q_timing q) = None
                   then q'\<lparr>q_timing := (q_timing q)\<lparr>t_first_token := Some now\<rparr>\<rparr> else q'))"

definition check_stop :: "int \<Rightarrow> int option \<Rightarrow> seqn \<Rightarrow> finish_reason option" where
  "check_stop token eos q =
     (if token \<in> set (stop_token_ids (q_sampling q)) then Some Stop
      else if eos = Some token \<and> \<not> ignore_eos (q_sampling q) then Some Stop
      else if max_tokens (q_sampling q) \<le> int (num_output_tokens q) then Some Length
      else None)"

definition seq_finish :: "finish_reason \<Rightarrow> rat \<Rightarrow> int option \<Rightarrow> seqn \<Rightarrow> seqn" where
  "seq_finish reason now stop_token q =
     (if is_finished q then q
      else q\<lparr>q_status := Finished, q_reason := Some reason, q_stop_token := stop_token,
             q_timing := (q_timing q)\<lparr>t_finish := Some now\<rparr>\<rparr>)"

record request_output =
  o_request :: string
  o_new_tokens :: "int list"
  o_text :: utext
  o_finished :: bool
  o_reason :: "finish_reason option"
  o_timing :: timing
  o_prompt_tokens :: nat
  o_output_tokens :: nat
  o_cached :: nat

definition make_output :: "int list option \<Rightarrow> utext \<Rightarrow> seqn \<Rightarrow> request_output" where
  "make_output new_tokens text q =
     \<lparr>o_request = q_request q,
      o_new_tokens = (case new_tokens of None \<Rightarrow> [] | Some ts \<Rightarrow> ts), o_text = text,
      o_finished = is_finished q, o_reason = q_reason q, o_timing = q_timing q,
      o_prompt_tokens = num_prompt_tokens q, o_output_tokens = num_output_tokens q,
      o_cached = num_cached_prompt_tokens (q_timing q)\<rparr>"

section \<open>The class invariant\<close>

definition seq_wf :: "seqn \<Rightarrow> bool" where
  "seq_wf q \<longleftrightarrow> q_prompt q \<noteq> [] \<and> no_lora \<le> q_lora q \<and> q_computed q \<le> num_tokens q
     \<and> (q_status q = Finished \<longleftrightarrow> q_reason q \<noteq> None)"

lemma seq_init_wf:
  "seq_init sid rid prompt params tenant prio lora = Inr q \<Longrightarrow>
   seq_wf q \<and> q_status q = Waiting \<and> q_table q = [] \<and> q_computed q = 0 \<and> q_id q = sid
   \<and> q_request q = rid \<and> token_ids q = prompt \<and> q_lora q = lora \<and> q_tenant q = tenant
   \<and> q_output q = []"
  by (auto simp: seq_init_def seq_wf_def num_tokens_def token_ids_def split: if_splits)

lemma num_tokens_token_ids: "num_tokens q = length (token_ids q)"
  by (simp add: num_tokens_def token_ids_def)

text \<open>Reading a range or a position agrees with the concatenated token list.\<close>

lemma tokens_in_range_eq:
  assumes "0 \<le> i" "i \<le> j" "j \<le> int (num_tokens q)"
  shows "tokens_in_range i j q = Inr (take (nat j - nat i) (drop (nat i) (token_ids q)))"
  using assms unfolding tokens_in_range_def token_ids_def num_tokens_def
  by (auto simp: Let_def)

lemma tokens_in_range_nat:
  "i \<le> j \<Longrightarrow> j \<le> num_tokens q \<Longrightarrow>
   tokens_in_range (int i) (int j) q = Inr (take (j - i) (drop i (token_ids q)))"
  by (subst tokens_in_range_eq) (simp_all only: nat_int of_nat_le_iff of_nat_0_le_iff)

lemma token_at_eq:
  assumes "0 \<le> i" "i < int (num_tokens q)"
  shows "token_at i q = Inr (token_ids q ! nat i)"
  using assms unfolding token_at_def token_ids_def num_tokens_def
  by (auto simp: Let_def nth_append)

lemma block_tokens_eq:
  "(index + 1) * bs \<le> num_tokens q \<Longrightarrow>
   block_tokens index bs q = Inr (take bs (drop (index * bs) (token_ids q)))"
  using tokens_in_range_eq [of "int (index * bs)" "int (index * bs + bs)" q]
  unfolding block_tokens_def Let_def
  by (simp add: nat_add_distrib flip: of_nat_add of_nat_mult)

lemma block_tokens_short:
  "num_tokens q < (index + 1) * bs \<Longrightarrow> block_tokens index bs q = Inl ValueError"
  by (simp add: block_tokens_def Let_def add.commute)

text \<open>One expression covers prefill, chunked prefill and decode.\<close>

lemma num_new_tokens_bounds:
  assumes "q_computed q \<le> num_tokens q"
  shows "num_new_tokens_to_compute b q \<le> nat b"
    "q_computed q + num_new_tokens_to_compute b q \<le> num_tokens q"
  using assms by (auto simp: num_new_tokens_to_compute_def num_uncomputed_def)

lemma num_new_tokens_value:
  "\<not> is_finished q \<Longrightarrow> 0 < b \<Longrightarrow> q_computed q \<le> num_tokens q \<Longrightarrow>
   num_new_tokens_to_compute (int b) q = min b (num_tokens q - q_computed q)"
  by (auto simp: num_new_tokens_to_compute_def num_uncomputed_def)

lemma advance_computed_eq:
  "q_computed q + n \<le> num_tokens q \<Longrightarrow>
   advance_computed (int n) q = Inr (q_computed q + n, q\<lparr>q_computed := q_computed q + n\<rparr>)"
  by (simp add: advance_computed_def Let_def)

lemma advance_computed_wf: "seq_wf q \<Longrightarrow> advance_computed n q = Inr (t, q') \<Longrightarrow> seq_wf q'"
  by (auto simp: advance_computed_def seq_wf_def num_tokens_def Let_def split: if_splits)

lemma reset_for_recompute_wf: "seq_wf q \<Longrightarrow> \<not> is_finished q \<Longrightarrow> seq_wf (reset_for_recompute q)"
  by (auto simp: reset_for_recompute_def seq_wf_def num_tokens_def is_finished_def)

lemma seq_append_token_wf: "seq_wf q \<Longrightarrow> seq_append_token t now q = Inr q' \<Longrightarrow> seq_wf q'"
  by (auto simp: seq_append_token_def seq_wf_def num_tokens_def is_finished_def Let_def split: if_splits)

lemma seq_append_token_eq:
  "\<not> is_finished q \<Longrightarrow> \<exists>q'. seq_append_token t now q = Inr q' \<and> token_ids q' = token_ids q @ [t]
     \<and> q_output q' = q_output q @ [t] \<and> q_prompt q' = q_prompt q
     \<and> q_table q' = q_table q \<and> q_computed q' = q_computed q \<and> q_status q' = q_status q
     \<and> q_lora q' = q_lora q \<and> q_id q' = q_id q \<and> q_request q' = q_request q
     \<and> q_tenant q' = q_tenant q \<and> q_reason q' = q_reason q \<and> q_sampling q' = q_sampling q"
  by (simp add: seq_append_token_def token_ids_def Let_def)

lemma seq_finish_wf: "seq_wf q \<Longrightarrow> seq_wf (seq_finish r now st q)"
  by (auto simp: seq_finish_def seq_wf_def num_tokens_def is_finished_def)

lemma seq_finish_fields [simp]:
  "q_table (seq_finish r now st q) = q_table q"
  "q_computed (seq_finish r now st q) = q_computed q"
  "q_id (seq_finish r now st q) = q_id q"
  "q_request (seq_finish r now st q) = q_request q"
  "q_tenant (seq_finish r now st q) = q_tenant q"
  "q_lora (seq_finish r now st q) = q_lora q"
  "q_prompt (seq_finish r now st q) = q_prompt q"
  "q_output (seq_finish r now st q) = q_output q"
  "q_status (seq_finish r now st q) = Finished"
  by (auto simp: seq_finish_def is_finished_def)

text \<open>The first reason recorded wins.\<close>

lemma seq_finish_idem:
  "seq_finish r' now' st' (seq_finish r now st q) = seq_finish r now st q"
  by (auto simp: seq_finish_def is_finished_def)

end
