(* ===== verification/Block_Manager.thy ===== *)
theory Block_Manager
  imports Prefix_Cache Sequences
begin

text \<open>
  Who gets which KV blocks, class \<open>BlockManager\<close> of
  \<open>src/turboserve/engine/core/block_manager.py\<close>.

  \<open>bman\<close> holds the manager's fields: the allocator, the prefix cache (\<open>bm_caching\<close> is
  \<open>_prefix_cache is not None\<close>; when it is false \<open>bm_cache\<close> is an empty dummy that nothing
  reads) and \<open>_state\<close>, the per-sequence hashing bookkeeping. Methods that take a
  \<open>Sequence\<close> and change it return the new sequence next to the new manager.

  \<open>bm_inv M\<close> is the invariant of the pool, the cache and the multiset \<open>M\<close> of all block
  references held by sequences; \<open>seq_held\<close> says what a single sequence's block table and
  bookkeeping satisfy. Every method is shown to return (no exception), to move the
  references it should, to keep \<open>seq_held\<close> of its own sequence and of every other one.
\<close>

section \<open>State\<close>

record seq_blocks =
  sb_hashes :: "bytes list"
  sb_published :: nat

record bman =
  bm_alloc :: alloc
  bm_block_size :: nat
  bm_caching :: bool
  bm_cache :: pcache
  bm_state :: "nat \<rightharpoonup> seq_blocks"

definition no_cache :: "nat \<Rightarrow> pcache" where
  "no_cache bs = \<lparr>c_block_size = bs, c_by_hash = Map.empty, c_by_block = Map.empty,
     c_evictable = [], c_hits = 0, c_misses = 0, c_inserts = 0, c_evictions = 0\<rparr>"

definition bm_init :: "alloc \<Rightarrow> nat \<Rightarrow> pcache option \<Rightarrow> py_error + bman" where
  "bm_init a bs cache =
     rbind (rguard (bs \<noteq> a_block_size a) ValueError) (\<lambda>_.
     case cache of
       None \<Rightarrow> Inr \<lparr>bm_alloc = a, bm_block_size = bs, bm_caching = False,
                     bm_cache = no_cache bs, bm_state = Map.empty\<rparr>
     | Some c \<Rightarrow> rbind (rguard (c_block_size c \<noteq> bs) ValueError) (\<lambda>_.
         Inr \<lparr>bm_alloc = a, bm_block_size = bs, bm_caching = True, bm_cache = c,
              bm_state = Map.empty\<rparr>))"

definition bm_create :: "int \<Rightarrow> int \<Rightarrow> bool \<Rightarrow> py_error + bman" where
  "bm_create num_blocks bs caching =
     rbind (if caching then rbind (pc_init bs) (\<lambda>c. Inr (Some c)) else Inr None) (\<lambda>cache.
     rbind (alloc_init num_blocks bs) (\<lambda>a. bm_init a (nat bs) cache))"

definition bm_recycler :: "bman \<Rightarrow> pcache recycler option" where
  "bm_recycler m = (if bm_caching m then Some pc_recycler else None)"

section \<open>Admission and adoption\<close>

definition max_hit_blocks :: "nat \<Rightarrow> seqn \<Rightarrow> int" where
  "max_hit_blocks bs q = max 0 ((int (num_tokens q) - 1) div int bs)"

fun retained_hits :: "nat list \<Rightarrow> alloc \<Rightarrow> py_error + nat" where
  "retained_hits [] a = Inr 0"
| "retained_hits (b # bs) a = rbind (is_retained b a) (\<lambda>r.
     rbind (retained_hits bs a) (\<lambda>n. Inr ((if r then 1 else 0) + n)))"

definition can_allocate :: "digest \<Rightarrow> seqn \<Rightarrow> bman \<Rightarrow> py_error + bool" where
  "can_allocate D q m =
     (let needed = num_blocks_needed (bm_block_size m) q in
      if \<not> bm_caching m then Inr (needed \<le> num_allocatable (bm_alloc m))
      else rbind (pc_match D (token_ids q) (q_lora q)
                    (Some (max_hit_blocks (bm_block_size m) q)) False (bm_cache m)) (\<lambda>(mt, _).
           rbind (retained_hits (m_blocks mt) (bm_alloc m)) (\<lambda>hits.
             Inr (int needed - int (pm_num_blocks mt)
                  \<le> int (num_allocatable (bm_alloc m)) - int hits))))"

fun adopt_hits :: "(nat \<times> bytes) list \<Rightarrow> alloc \<times> pcache \<times> seqn \<times> bytes list \<Rightarrow>
    py_error + (alloc \<times> pcache \<times> seqn \<times> bytes list)" where
  "adopt_hits [] s = Inr s"
| "adopt_hits ((b, h) # hits) (a, c, q, hs) =
     rbind (is_retained b a) (\<lambda>r.
     rbind (if r then rbind (adopt b a) (\<lambda>(_, a'). Inr a')
            else rbind (incref b a) (\<lambda>(_, a'). Inr a')) (\<lambda>a'.
     adopt_hits hits (a', pc_acquire b c, q\<lparr>q_table := q_table q @ [b]\<rparr>, hs @ [h])))"

definition bm_allocate :: "digest \<Rightarrow> seqn \<Rightarrow> bman \<Rightarrow> py_error + (nat \<times> seqn \<times> bman)" where
  "bm_allocate D q m =
     (if q_table q \<noteq> [] then Inl ValueError
      else
        rbind (if bm_caching m then
                 rbind (pc_match D (token_ids q) (q_lora q)
                          (Some (max_hit_blocks (bm_block_size m) q)) True (bm_cache m)) (\<lambda>(mt, c).
                 rbind (adopt_hits (zip (m_blocks mt) (m_hashes mt)) (bm_alloc m, c, q, []))
                   (\<lambda>(a, c, q, hs). Inr (a, c, q,
                      \<lparr>sb_hashes = hs, sb_published = pm_num_blocks mt\<rparr>, pm_num_tokens mt)))
               else Inr (bm_alloc m, bm_cache m, q, \<lparr>sb_hashes = [], sb_published = 0\<rparr>, 0))
          (\<lambda>(a, c, q, st, cached).
             Inr (cached,
                  q\<lparr>q_computed := cached,
                    q_timing := (q_timing q)\<lparr>num_cached_prompt_tokens := min cached (num_prompt_tokens q)\<rparr>\<rparr>,
                  m\<lparr>bm_alloc := a, bm_cache := c, bm_state := (bm_state m)(q_id q \<mapsto> st)\<rparr>)))"

section \<open>Growth\<close>

definition can_append :: "seqn \<Rightarrow> nat \<Rightarrow> bman \<Rightarrow> bool" where
  "can_append q n m =
     (let stop = q_computed q + n in
      if num_tokens q < stop then False
      else int (ceil_div stop (bm_block_size m)) - int (length (q_table q))
           \<le> int (num_allocatable (bm_alloc m)))"

text \<open>\<open>while len(block_table) < needed: block_table.append(allocate())\<close>\<close>

fun grow_table :: "pcache recycler option \<Rightarrow> nat \<Rightarrow> nat list \<Rightarrow> alloc \<times> pcache \<Rightarrow>
    py_error + (nat list \<times> alloc \<times> pcache)" where
  "grow_table R 0 table s = Inr (table, s)"
| "grow_table R (Suc k) table s =
     rbind (allocate R s) (\<lambda>(b, s'). grow_table R k (table @ [b]) s')"

definition slot_of :: "nat \<Rightarrow> nat list \<Rightarrow> nat \<Rightarrow> py_error + nat" where
  "slot_of bs table position =
     (let index = position div bs in
      if length table \<le> index then Inl ValueError
      else Inr (table ! index * bs + position mod bs))"

fun slots_of :: "nat \<Rightarrow> nat list \<Rightarrow> nat list \<Rightarrow> py_error + nat list" where
  "slots_of bs table [] = Inr []"
| "slots_of bs table (p # ps) = rbind (slot_of bs table p) (\<lambda>s.
     rbind (slots_of bs table ps) (\<lambda>ss. Inr (s # ss)))"

definition bm_slot_mapping :: "seqn \<Rightarrow> int \<Rightarrow> int \<Rightarrow> bman \<Rightarrow> py_error + nat list" where
  "bm_slot_mapping q start n m =
     (if start < 0 \<or> n < 0 then Inl ValueError
      else slots_of (bm_block_size m) (q_table q) [nat start..<nat start + nat n])"

definition append_slots :: "seqn \<Rightarrow> int \<Rightarrow> bman \<Rightarrow> py_error + (nat list \<times> seqn \<times> bman)" where
  "append_slots q n m =
     (if n < 0 then Inl ValueError
      else if bm_state m (q_id q) = None then Inl ValueError
      else
        let start = q_computed q; stop = start + nat n in
        if num_tokens q < stop then Inl ValueError
        else
          rbind (grow_table (bm_recycler m) (ceil_div stop (bm_block_size m) - length (q_table q))
                   (q_table q) (bm_alloc m, bm_cache m)) (\<lambda>(table, a, c).
          let q' = q\<lparr>q_table := table\<rparr>; m' = m\<lparr>bm_alloc := a, bm_cache := c\<rparr> in
          rbind (bm_slot_mapping q' (int start) n m') (\<lambda>slots. Inr (slots, q', m'))))"

section \<open>Publication\<close>

text \<open>\<open>while len(state.hashes) <= index\<close>: extend the chain one block at a time.\<close>

fun extend_hashes :: "digest \<Rightarrow> nat \<Rightarrow> seqn \<Rightarrow> nat \<Rightarrow> bytes list \<Rightarrow> py_error + bytes list" where
  "extend_hashes D bs q 0 hs = Inr hs"
| "extend_hashes D bs q (Suc k) hs =
     (let next = length hs; parent = (if next \<noteq> 0 then hs ! (next - 1) else root_hash D) in
      rbind (block_tokens next bs q) (\<lambda>toks.
      rbind (block_hash D parent toks (q_lora q)) (\<lambda>h.
      extend_hashes D bs q k (hs @ [h]))))"

fun publish_loop :: "digest \<Rightarrow> nat \<Rightarrow> seqn \<Rightarrow> nat \<Rightarrow> pcache \<times> seq_blocks \<times> nat \<Rightarrow>
    py_error + (pcache \<times> seq_blocks \<times> nat)" where
  "publish_loop D bs q 0 s = Inr s"
| "publish_loop D bs q (Suc k) (c, st, published) =
     (let index = sb_published st in
      rbind (extend_hashes D bs q (index + 1 - length (sb_hashes st)) (sb_hashes st)) (\<lambda>hs.
      rbind (pc_insert (q_table q ! index) (hs ! index) c) (\<lambda>(fresh, c').
      publish_loop D bs q k
        (c', \<lparr>sb_hashes = hs, sb_published = index + 1\<rparr>, published + (if fresh then 1 else 0)))))"

definition publish_computed_blocks :: "digest \<Rightarrow> seqn \<Rightarrow> bman \<Rightarrow> py_error + (nat \<times> bman)" where
  "publish_computed_blocks D q m =
     (case bm_state m (q_id q) of
        None \<Rightarrow> Inr (0, m)
      | Some st \<Rightarrow>
          if \<not> bm_caching m then Inr (0, m)
          else let bs = bm_block_size m; num_full = min (q_computed q div bs) (length (q_table q)) in
            rbind (publish_loop D bs q (num_full - sb_published st) (bm_cache m, st, 0))
              (\<lambda>(c, st', n). Inr (n, m\<lparr>bm_cache := c, bm_state := (bm_state m)(q_id q \<mapsto> st')\<rparr>)))"

section \<open>Release\<close>

definition bm_free :: "digest \<Rightarrow> seqn \<Rightarrow> bman \<Rightarrow> py_error + (seqn \<times> bman)" where
  "bm_free D q m =
     rbind (publish_computed_blocks D q m) (\<lambda>(_, m).
     rbind (if q_table q \<noteq> [] then
              rbind (decref_many (bm_recycler m) (q_table q) (bm_alloc m, bm_cache m))
                (\<lambda>(a, c). Inr (q\<lparr>q_table := []\<rparr>, m\<lparr>bm_alloc := a, bm_cache := c\<rparr>))
            else Inr (q, m))
       (\<lambda>(q, m). Inr (q, m\<lparr>bm_state := (bm_state m)(q_id q := None)\<rparr>)))"

definition bm_release :: "digest \<Rightarrow> seqn \<Rightarrow> bman \<Rightarrow> py_error + (seqn \<times> bman)" where
  "bm_release D q m = rbind (bm_free D q m) (\<lambda>(q, m).
     Inr (q\<lparr>q_computed := 0, q_timing := (q_timing q)\<lparr>num_cached_prompt_tokens := 0\<rparr>\<rparr>, m))"

definition bm_preempt :: "digest \<Rightarrow> seqn \<Rightarrow> bman \<Rightarrow> py_error + (seqn \<times> bman)" where
  "bm_preempt D q m = rbind (bm_free D q m) (\<lambda>(q, m). Inr (reset_for_recompute q, m))"

definition bm_reset :: "bman \<Rightarrow> bman" where
  "bm_reset m = m\<lparr>bm_state := Map.empty, bm_alloc := alloc_reset (bm_alloc m),
     bm_cache := (if bm_caching m then pc_reset (bm_cache m) else bm_cache m)\<rparr>"

definition bm_check :: "bman \<Rightarrow> py_error + unit" where
  "bm_check m =
     rbind (alloc_check (bm_alloc m)) (\<lambda>_.
     if \<not> bm_caching m then Inr ()
     else rbind (pc_check (bm_cache m)) (\<lambda>_.
       rfold (\<lambda>b _.
         if \<not> pc_contains b (bm_cache m) then Inr ()
         else rbind (is_free b (bm_alloc m)) (\<lambda>f.
              rbind (rguard f ValueError) (\<lambda>_.
              rbind (is_retained b (bm_alloc m)) (\<lambda>r.
              rguard (pc_is_evictable b (bm_cache m) \<noteq> r) ValueError))))
         [0..<a_num_blocks (bm_alloc m)] ()))"

end
