(* ===== verification/Block_Manager_Inv.thy ===== *)
theory Block_Manager_Inv
  imports Block_Manager
begin

text \<open>
  The invariant of the block manager and what each of its methods does to it.

  \<open>F\<close> is always the multiset of references held by the \<^emph>\<open>other\<close> sequences, so a method's
  lemma reads: from \<open>bm_inv (F + mset (q_table q))\<close> to \<open>bm_inv (F + mset (q_table q'))\<close>.
  \<open>frame F sid\<close> is what the other sequences are guaranteed: their bookkeeping and the cache
  entries of the blocks they reference are untouched.
\<close>

section \<open>Invariant, per-sequence facts, frame\<close>

definition pc_rinv :: "bool \<Rightarrow> pcache \<Rightarrow> bool" where
  "pc_rinv caching = (if caching then pc_inv else pc_off_inv)"

definition bm_inv :: "nat multiset \<Rightarrow> bman \<Rightarrow> bool" where
  "bm_inv M m \<longleftrightarrow>
     pool_inv pc_held c_by_block (pc_rinv (bm_caching m)) M (bm_alloc m) (bm_cache m)
     \<and> a_block_size (bm_alloc m) = bm_block_size m \<and> c_block_size (bm_cache m) = bm_block_size m
     \<and> 0 < bm_block_size m
     \<and> (\<forall>b. 2 \<le> count M b \<longrightarrow> c_by_block (bm_cache m) b \<noteq> None)"

definition chain_of :: "digest \<Rightarrow> nat \<Rightarrow> seqn \<Rightarrow> nat \<Rightarrow> bytes" where
  "chain_of D bs q i = prefix_hash D bs (q_lora q) (token_ids q) (Suc i)"

definition seq_held :: "digest \<Rightarrow> bman \<Rightarrow> seqn \<Rightarrow> bool" where
  "seq_held D m q \<longleftrightarrow>
     (case bm_state m (q_id q) of
        None \<Rightarrow> q_table q = [] \<and> q_computed q = 0
      | Some st \<Rightarrow>
          sb_hashes st = map (chain_of D (bm_block_size m) q) [0..<sb_published st]
          \<and> sb_published st * bm_block_size m \<le> q_computed q
          \<and> sb_published st \<le> length (q_table q)
          \<and> q_computed q \<le> length (q_table q) * bm_block_size m
          \<and> (\<forall>i < length (q_table q). \<forall>e. c_by_block (bm_cache m) (q_table q ! i) = Some e \<longrightarrow>
               e_hash e = chain_of D (bm_block_size m) q i)
          \<and> (\<forall>i < length (q_table q). sb_published st \<le> i \<longrightarrow>
               c_by_block (bm_cache m) (q_table q ! i) = None))"

definition frame :: "nat multiset \<Rightarrow> nat \<Rightarrow> bman \<Rightarrow> bman \<Rightarrow> bool" where
  "frame F sid m m' \<longleftrightarrow>
     bm_block_size m' = bm_block_size m \<and> bm_caching m' = bm_caching m
     \<and> same_pool (bm_alloc m) (bm_alloc m')
     \<and> (\<forall>x. x \<noteq> sid \<longrightarrow> bm_state m' x = bm_state m x)
     \<and> (\<forall>b \<in># F. c_by_block (bm_cache m') b = c_by_block (bm_cache m) b)"

text \<open>A sequence the manager can hash: well formed, with 64-bit tokens.\<close>

definition seq_sane :: "seqn \<Rightarrow> bool" where
  "seq_sane q \<longleftrightarrow> seq_wf q \<and> encodable (q_lora q) (token_ids q)"

lemma frame_refl [simp]: "frame F sid m m"
  by (simp add: frame_def)

lemma frame_trans: "frame F sid m m' \<Longrightarrow> frame F sid m' m'' \<Longrightarrow> frame F sid m m''"
  by (auto simp: frame_def intro: same_pool_trans)

lemma frame_sizes:
  "frame F sid m m' \<Longrightarrow> bm_block_size m' = bm_block_size m \<and> bm_caching m' = bm_caching m
     \<and> a_num_blocks (bm_alloc m') = a_num_blocks (bm_alloc m)"
  by (simp add: frame_def same_pool_def)

lemma seq_held_frame:
  assumes "frame F sid m m'" "q_id q \<noteq> sid" "mset (q_table q) \<subseteq># F" "seq_held D m q"
  shows "seq_held D m' q"
proof -
  have "q_table q ! i \<in># F" if "i < length (q_table q)" for i
    using assms(3) that by (meson mset_subset_eqD nth_mem_mset)
  then have "c_by_block (bm_cache m') (q_table q ! i) = c_by_block (bm_cache m) (q_table q ! i)"
    if "i < length (q_table q)" for i
    using assms(1) that by (simp add: frame_def)
  then show ?thesis
    using assms(1,2,4) by (auto simp: seq_held_def frame_def split: option.splits)
qed

lemma pinning: "pinning_recycler (bm_recycler m) pc_held c_by_block (pc_rinv (bm_caching m)) pc_acquire"
  using caching.pinning_recycler_axioms uncached.pinning_recycler_axioms
  by (simp add: bm_recycler_def pc_rinv_def)

lemma recycling: "block_recycler (bm_recycler m) pc_held c_by_block (pc_rinv (bm_caching m))"
  using pinning pinning_recycler.axioms(1) by blast

lemma bm_inv_pool:
  "bm_inv M m \<Longrightarrow> pool_inv pc_held c_by_block (pc_rinv (bm_caching m)) M (bm_alloc m) (bm_cache m)"
  by (simp add: bm_inv_def)

lemma bm_inv_cache: "bm_inv M m \<Longrightarrow> pc_inv (bm_cache m)"
  by (auto simp: bm_inv_def pool_inv_def pc_rinv_def pc_off_inv_def split: if_splits)

lemma bm_allocatable:
  "bm_inv M m \<Longrightarrow> num_allocatable (bm_alloc m) = a_num_blocks (bm_alloc m) - card (set_mset M)"
  by (rule num_allocatable_eq) (auto simp: bm_inv_def pool_inv_def)

lemma bm_references_fit: "bm_inv M m \<Longrightarrow> card (set_mset M) \<le> a_num_blocks (bm_alloc m)"
  by (rule references_fit) (auto simp: bm_inv_def pool_inv_def)

text \<open>An uncached block has at most one reference.\<close>

lemma uncached_exclusive:
  "bm_inv M m \<Longrightarrow> c_by_block (bm_cache m) b = None \<Longrightarrow> count M b \<le> 1"
  unfolding bm_inv_def by (metis not_less_eq_eq numeral_2_eq_2 One_nat_def)

lemma uncached_elsewhere:
  assumes "bm_inv (F + mset (q_table q)) m" "i < length (q_table q)"
    and "c_by_block (bm_cache m) (q_table q ! i) = None"
  shows "q_table q ! i \<notin># F" "\<And>j. j < length (q_table q) \<Longrightarrow> q_table q ! j = q_table q ! i \<Longrightarrow> j = i"
proof -
  have "count (F + mset (q_table q)) (q_table q ! i) \<le> 1"
    using uncached_exclusive [OF assms(1,3)] .
  then have c: "count F (q_table q ! i) + count (mset (q_table q)) (q_table q ! i) \<le> 1" by simp
  have "count F (q_table q ! i) = 0"
    using count_mset_nth_pos [OF assms(2)] c by linarith
  then show "q_table q ! i \<notin># F" by (simp only: not_in_iff)
  show "j = i" if j: "j < length (q_table q)" "q_table q ! j = q_table q ! i" for j
  proof (rule ccontr)
    assume "j \<noteq> i"
    then have "2 \<le> count (mset (q_table q)) (q_table q ! i)"
      using count_two_indices [OF assms(2) j(1)] j(2) by simp
    then show False using c by linarith
  qed
qed

section \<open>Publication\<close>

lemma chain_of_parent:
  "(if n \<noteq> 0 then map (chain_of D bs q) [0..<n] ! (n - 1) else root_hash D)
   = prefix_hash D bs (q_lora q) (token_ids q) n"
  by (cases n) (simp_all add: chain_of_def nth_append del: upt_Suc)

lemma chain_of_step:
  assumes "encodable (q_lora q) (token_ids q)" "Suc n * bs \<le> num_tokens q"
  shows "block_tokens n bs q = Inr (block_slice (token_ids q) bs n)"
    "block_hash D (prefix_hash D bs (q_lora q) (token_ids q) n)
       (block_slice (token_ids q) bs n) (q_lora q) = Inr (chain_of D bs q n)"
  using assms(2) block_tokens_eq [of n bs q] assms(1) encodable_slice [OF assms(1)]
  by (simp_all add: block_slice_def block_hash_eq encodable_def chain_of_def)

lemma extend_hashes_eq:
  "encodable (q_lora q) (token_ids q) \<Longrightarrow> (n + k) * bs \<le> num_tokens q \<Longrightarrow>
   extend_hashes D bs q k (map (chain_of D bs q) [0..<n]) = Inr (map (chain_of D bs q) [0..<n + k])"
proof (induction k arbitrary: n)
  case 0
  then show ?case by simp
next
  case (Suc k)
  have le: "Suc n * bs \<le> num_tokens q"
    using Suc.prems(2) by (metis add_Suc_shift le_add1 le_trans mult_le_mono1)
  have "extend_hashes D bs q k (map (chain_of D bs q) [0..<Suc n])
      = Inr (map (chain_of D bs q) [0..<Suc n + k])"
    using Suc.prems by (intro Suc.IH) auto
  then show ?case
    using chain_of_step(1) [OF Suc.prems(1) le] chain_of_step(2) [OF Suc.prems(1) le, of D] chain_of_parent [of n D bs q] by (simp add: Let_def)
qed

text \<open>The cache after some of a sequence's own blocks were offered.\<close>

definition published_from :: "digest \<Rightarrow> nat \<Rightarrow> seqn \<Rightarrow> nat \<Rightarrow> nat \<Rightarrow> pcache \<Rightarrow> pcache \<Rightarrow> bool" where
  "published_from D bs q lo hi c c' \<longleftrightarrow>
     c_evictable c' = c_evictable c \<and> c_block_size c' = c_block_size c
     \<and> (\<forall>b. c_by_block c' b = c_by_block c b
          \<or> (\<exists>i. lo \<le> i \<and> i < hi \<and> b = q_table q ! i \<and> c_by_block c b = None
               \<and> c_by_block c' b = Some \<lparr>e_block = b, e_hash = chain_of D bs q i\<rparr>))"

lemma published_from_refl [simp]: "published_from D bs q lo hi c c"
  by (simp add: published_from_def)

lemma published_from_trans:
  assumes "published_from D bs q lo mid c c1" "published_from D bs q mid hi c1 c2" "lo \<le> mid" "mid \<le> hi"
  shows "published_from D bs q lo hi c c2"
  unfolding published_from_def
proof (intro conjI allI)
  show "c_evictable c2 = c_evictable c" "c_block_size c2 = c_block_size c"
    using assms(1,2) by (simp_all add: published_from_def)
  fix b
  let ?P = "\<lambda>c c' i. b = q_table q ! i \<and> c_by_block c b = None
      \<and> c_by_block c' b = Some \<lparr>e_block = b, e_hash = chain_of D bs q i\<rparr>"
  have 1: "c_by_block c1 b = c_by_block c b \<or> (\<exists>i. lo \<le> i \<and> i < mid \<and> ?P c c1 i)"
    and 2: "c_by_block c2 b = c_by_block c1 b \<or> (\<exists>i. mid \<le> i \<and> i < hi \<and> ?P c1 c2 i)"
    using assms(1,2) unfolding published_from_def by blast+
  show "c_by_block c2 b = c_by_block c b \<or> (\<exists>i. lo \<le> i \<and> i < hi \<and> ?P c c2 i)"
  proof (cases "c_by_block c2 b = c_by_block c1 b")
    case True
    then show ?thesis using 1 assms(4) order_less_le_trans by metis
  next
    case False
    then obtain i where "mid \<le> i" "i < hi" "?P c1 c2 i" using 2 by blast
    moreover from this have "c_by_block c b = None" using 1 by (metis option.distinct(1))
    ultimately show ?thesis using assms(3) le_trans by metis
  qed
qed

lemma pc_insert_publishes:
  assumes "c_by_block c (q_table q ! p) = None" and b: "b = q_table q ! p" and h: "h = chain_of D bs q p"
  shows "\<exists>fresh c'. pc_insert b h c = Inr (fresh, c') \<and> published_from D bs q p (Suc p) c c'"
proof (cases "c_by_hash c h")
  case None
  let ?c = "c\<lparr>c_by_hash := (c_by_hash c)(h \<mapsto> b),
              c_by_block := (c_by_block c)(b \<mapsto> \<lparr>e_block = b, e_hash = h\<rparr>), c_inserts := c_inserts c + 1\<rparr>"
  have "published_from D bs q p (Suc p) c ?c"
    using assms unfolding published_from_def by auto
  moreover have "pc_insert b h c = Inr (True, ?c)" using None assms by (simp add: pc_insert_def)
  ultimately show ?thesis by blast
next
  case (Some b')
  then have "pc_insert b h c = Inr (False, c)" using assms by (simp add: pc_insert_def)
  then show ?thesis using published_from_refl by blast
qed

lemma publish_loop_eq:
  "encodable (q_lora q) (token_ids q) \<Longrightarrow> pc_inv c \<Longrightarrow> (p + k) * bs \<le> num_tokens q \<Longrightarrow>
   p + k \<le> length (q_table q) \<Longrightarrow> distinct (drop p (q_table q)) \<Longrightarrow>
   (\<forall>i. p \<le> i \<longrightarrow> i < p + k \<longrightarrow> c_by_block c (q_table q ! i) = None) \<Longrightarrow>
   sb_hashes st = map (chain_of D bs q) [0..<p] \<Longrightarrow> sb_published st = p \<Longrightarrow>
   \<exists>c' st' n'. publish_loop D bs q k (c, st, n) = Inr (c', st', n') \<and> pc_inv c'
     \<and> sb_hashes st' = map (chain_of D bs q) [0..<p + k] \<and> sb_published st' = p + k
     \<and> published_from D bs q p (p + k) c c'"
proof (induction k arbitrary: p c st n)
  case 0
  then show ?case by auto
next
  case (Suc k)
  let ?b = "q_table q ! p" and ?h = "chain_of D bs q p"
  let ?hs = "map (chain_of D bs q) [0..<Suc p]"
  have "(p + 1) * bs \<le> num_tokens q" using Suc.prems(3) by (simp add: algebra_simps)
  then have ext: "extend_hashes D bs q (p + 1 - length (sb_hashes st)) (sb_hashes st) = Inr ?hs"
    using extend_hashes_eq [OF Suc.prems(1), of p 1 bs D] Suc.prems(7) by simp
  have none: "c_by_block c ?b = None" using Suc.prems(6) by simp
  obtain fresh c1 where ins: "pc_insert ?b ?h c = Inr (fresh, c1)"
    and p1: "published_from D bs q p (Suc p) c c1"
    using pc_insert_publishes [OF none refl refl] by blast
  have "pc_inv c1" using pc_insert_inv [OF Suc.prems(2) ins] .
  have hsp: "?hs ! p = ?h" by (simp add: nth_append)
  have d: "drop p (q_table q) = ?b # drop (Suc p) (q_table q)"
    using Suc.prems(4) by (simp add: Cons_nth_drop_Suc)
  then have dist: "distinct (drop (Suc p) (q_table q))" and nb: "?b \<notin> set (drop (Suc p) (q_table q))"
    using Suc.prems(5) by auto
  have none1: "c_by_block c1 (q_table q ! i) = None" if i: "Suc p \<le> i" "i < Suc p + k" for i
  proof -
    have "q_table q ! i = drop (Suc p) (q_table q) ! (i - Suc p)" using i Suc.prems(4) by simp
    then have "q_table q ! i \<noteq> ?b"
      using nb i Suc.prems(4) by (metis (no_types, lifting) add_Suc_right add_Suc_shift diff_less_mono
          length_drop nth_mem order_less_le_trans)
    moreover have "c_by_block c (q_table q ! i) = None" using Suc.prems(6) i by simp
    ultimately show ?thesis using p1 unfolding published_from_def by (metis le_antisym less_Suc_eq_le)
  qed
  let ?st = "\<lparr>sb_hashes = ?hs, sb_published = Suc p\<rparr>"
  obtain c' st' n' where l: "publish_loop D bs q k (c1, ?st, n + (if fresh then 1 else 0)) = Inr (c', st', n')"
    and i: "pc_inv c'" "sb_hashes st' = map (chain_of D bs q) [0..<Suc p + k]"
      "sb_published st' = Suc p + k" and p2: "published_from D bs q (Suc p) (Suc p + k) c1 c'"
    using Suc.IH [OF Suc.prems(1) \<open>pc_inv c1\<close>, of "Suc p" ?st "n + (if fresh then 1 else 0)"]
      Suc.prems(3,4) dist none1 by auto
  have "published_from D bs q p (p + Suc k) c c'"
    using published_from_trans [OF p1 p2] by simp
  moreover have "publish_loop D bs q (Suc k) (c, st, n) = Inr (c', st', n')"
    using l ext ins hsp Suc.prems(8) by (simp add: Let_def del: upt_Suc)
  ultimately show ?case using i by auto
qed

text \<open>Publishing own, exclusively held blocks keeps the pool invariant.\<close>

lemma published_bm_inv:
  assumes inv: "bm_inv M m" and cach: "bm_caching m" and pc: "pc_inv c'"
    and pub: "published_from D bs q lo hi (bm_cache m) c'"
    and own: "\<And>i. lo \<le> i \<Longrightarrow> i < hi \<Longrightarrow> q_table q ! i \<in># M"
  shows "bm_inv M (m\<lparr>bm_cache := c', bm_state := S\<rparr>)"
proof -
  let ?c = "bm_cache m"
  have pool: "pool_inv pc_held c_by_block pc_inv M (bm_alloc m) ?c"
    using bm_inv_pool [OF inv] cach by (simp add: pc_rinv_def)
  have ai: "alloc_inv (bm_alloc m)" and ct: "counted M (bm_alloc m)"
    using pool by (auto simp: pool_inv_def)
  have grow: "c_by_block c' b \<noteq> None" if "c_by_block ?c b \<noteq> None" for b
    using pub that unfolding published_from_def by metis
  have dom: "b \<in> dom (c_by_block ?c) \<or> b \<in># M" if "b \<in> dom (c_by_block c')" for b
    using pub own that unfolding published_from_def by (metis domIff)
  have "dom (c_by_block c') \<inter> set (a_free (bm_alloc m)) = {}"
    using pool dom unreferenced_iff [OF ai ct] unfolding pool_inv_def by blast
  moreover have "dom (c_by_block c') \<subseteq> {..<a_num_blocks (bm_alloc m)}"
    using pool dom counted_bound [OF ct] unfolding pool_inv_def by blast
  moreover have "pc_held c' = pc_held ?c" "c_block_size c' = c_block_size ?c"
    using pub by (simp_all add: pc_held_def published_from_def)
  ultimately have "pool_inv pc_held c_by_block pc_inv M (bm_alloc m) c'"
    using pool pc by (simp add: pool_inv_def)
  then show ?thesis
    using inv cach grow \<open>c_block_size c' = c_block_size ?c\<close> by (auto simp: bm_inv_def pc_rinv_def)
qed

lemma seq_heldE:
  assumes "seq_held D m q" "bm_state m (q_id q) = Some st"
  obtains "sb_hashes st = map (chain_of D (bm_block_size m) q) [0..<sb_published st]"
    "sb_published st * bm_block_size m \<le> q_computed q" "sb_published st \<le> length (q_table q)"
    "q_computed q \<le> length (q_table q) * bm_block_size m"
    "\<And>i e. i < length (q_table q) \<Longrightarrow> c_by_block (bm_cache m) (q_table q ! i) = Some e \<Longrightarrow>
       e_hash e = chain_of D (bm_block_size m) q i"
    "\<And>i. i < length (q_table q) \<Longrightarrow> sb_published st \<le> i \<Longrightarrow>
       c_by_block (bm_cache m) (q_table q ! i) = None"
  using assms by (auto simp: seq_held_def)

lemma unpublished_distinct:
  assumes "bm_inv (F + mset (q_table q)) m" "p \<le> length (q_table q)"
    and "\<And>i. i < length (q_table q) \<Longrightarrow> p \<le> i \<Longrightarrow> c_by_block (bm_cache m) (q_table q ! i) = None"
  shows "distinct (drop p (q_table q))"
  unfolding distinct_conv_nth
proof (intro allI impI)
  fix i j assume ij: "i < length (drop p (q_table q))" "j < length (drop p (q_table q))" "i \<noteq> j"
  then have l: "p + i < length (q_table q)" "p + j < length (q_table q)" by auto
  have "q_table q ! (p + j) \<noteq> q_table q ! (p + i)"
    using uncached_elsewhere(2) [OF assms(1) l(1) assms(3) l(2)] l ij(3) by auto
  then show "drop p (q_table q) ! i \<noteq> drop p (q_table q) ! j" using l by simp
qed

text \<open>
  Where the entries of the cache may come from when an operation works on \<open>q\<close>: they were
  there before, or they are full computed blocks of \<open>q\<close> under the hash of its own prefix.
\<close>

definition cache_from :: "digest \<Rightarrow> seqn \<Rightarrow> bman \<Rightarrow> bman \<Rightarrow> bool" where
  "cache_from D q m m' \<longleftrightarrow> (\<forall>b e. c_by_block (bm_cache m') b = Some e \<longrightarrow>
     c_by_block (bm_cache m) b = Some e
     \<or> (\<exists>i < length (q_table q). Suc i * bm_block_size m \<le> q_computed q \<and> b = q_table q ! i
          \<and> e_hash e = chain_of D (bm_block_size m) q i))"

lemma publish_effect:
  assumes inv: "bm_inv (F + mset (q_table q)) m" and held: "seq_held D m q" and sane: "seq_sane q"
  shows "\<exists>n m'. publish_computed_blocks D q m = Inr (n, m') \<and> bm_inv (F + mset (q_table q)) m'
    \<and> seq_held D m' q \<and> frame F (q_id q) m m' \<and> bm_alloc m' = bm_alloc m
    \<and> (bm_state m' (q_id q) = None \<longleftrightarrow> bm_state m (q_id q) = None) \<and> cache_from D q m m'"
proof (cases "bm_state m (q_id q) = None \<or> \<not> bm_caching m")
  case True
  then have "publish_computed_blocks D q m = Inr (0, m)"
    by (auto simp: publish_computed_blocks_def split: option.splits)
  then show ?thesis using inv held by (auto simp: cache_from_def)
next
  case False
  then obtain st where st: "bm_state m (q_id q) = Some st" and cach: "bm_caching m" by auto
  let ?bs = "bm_block_size m" and ?c = "bm_cache m" and ?p = "sb_published st"
  let ?full = "min (q_computed q div ?bs) (length (q_table q))"
  let ?k = "?full - ?p"
  from held st have h: "sb_hashes st = map (chain_of D ?bs q) [0..<?p]" "?p * ?bs \<le> q_computed q"
      "?p \<le> length (q_table q)" "q_computed q \<le> length (q_table q) * ?bs"
    and own: "\<And>i e. i < length (q_table q) \<Longrightarrow> c_by_block ?c (q_table q ! i) = Some e \<Longrightarrow>
               e_hash e = chain_of D ?bs q i"
    and unp: "\<And>i. i < length (q_table q) \<Longrightarrow> ?p \<le> i \<Longrightarrow> c_by_block ?c (q_table q ! i) = None"
    by (auto elim: seq_heldE)
  have bs: "0 < ?bs" using inv by (simp add: bm_inv_def)
  have "?p \<le> ?full" using h(2,3) bs by (simp add: less_eq_div_iff_mult_less_eq)
  then have pk: "?p + ?k = ?full" by simp
  have fc: "?full * ?bs \<le> q_computed q"
    by (meson div_times_less_eq_dividend le_trans min.cobounded1 mult_le_mono1)
  also have "\<dots> \<le> num_tokens q" using sane by (simp add: seq_sane_def seq_wf_def)
  finally have fit: "(?p + ?k) * ?bs \<le> num_tokens q" using pk by simp
  have dist: "distinct (drop ?p (q_table q))" using unpublished_distinct [OF inv h(3) unp] .
  obtain c' st' n' where l: "publish_loop D ?bs q ?k (?c, st, 0) = Inr (c', st', n')"
    and pc: "pc_inv c'" and st': "sb_hashes st' = map (chain_of D ?bs q) [0..<?full]"
      "sb_published st' = ?full" and pub: "published_from D ?bs q ?p ?full ?c c'"
    using publish_loop_eq [of q ?c ?p ?k ?bs st D 0] sane bm_inv_cache [OF inv] fit dist unp h(1) pk
    by (auto simp: seq_sane_def)
  let ?m = "m\<lparr>bm_cache := c', bm_state := (bm_state m)(q_id q \<mapsto> st')\<rparr>"
  have run: "publish_computed_blocks D q m = Inr (n', ?m)"
    using st cach l by (simp add: publish_computed_blocks_def Let_def)
  have inv': "bm_inv (F + mset (q_table q)) ?m"
    by (rule published_bm_inv [OF inv cach pc pub]) auto
  have idx: "c_by_block c' b = c_by_block ?c b \<or> (\<exists>i. ?p \<le> i \<and> i < ?full \<and> b = q_table q ! i
      \<and> c_by_block ?c b = None \<and> c_by_block c' b = Some \<lparr>e_block = b, e_hash = chain_of D ?bs q i\<rparr>)" for b
    using pub by (simp add: published_from_def)
  have new: "b \<notin># F" if "c_by_block c' b \<noteq> c_by_block ?c b" for b
    using idx [of b] that uncached_elsewhere(1) [OF inv] by auto
  have fr: "frame F (q_id q) m ?m"
    using new unfolding frame_def by auto
  have same: "j = i" if "i < length (q_table q)" "j < ?full" "?p \<le> j" "q_table q ! i = q_table q ! j" for i j
    using uncached_elsewhere(2) [OF inv, of j i] unp [of j] that by auto
  have "e_hash e = chain_of D ?bs q i"
    if i: "i < length (q_table q)" "c_by_block c' (q_table q ! i) = Some e" for i e
    using idx [of "q_table q ! i"] own [OF i(1)] same [OF i(1)] i(2) by fastforce
  moreover have "c_by_block c' (q_table q ! i) = None" if i: "i < length (q_table q)" "?full \<le> i" for i
  proof -
    have "c_by_block ?c (q_table q ! i) = None" using unp [OF i(1)] \<open>?p \<le> ?full\<close> i(2) by linarith
    then show ?thesis using idx [of "q_table q ! i"] same [OF i(1)] i(2) by fastforce
  qed
  ultimately have "seq_held D ?m q"
    using st' h(4) fc by (simp add: seq_held_def)
  moreover have "cache_from D q m ?m"
    unfolding cache_from_def
  proof (intro allI impI)
    fix b e assume "c_by_block (bm_cache ?m) b = Some e"
    then have e: "c_by_block c' b = Some e" by simp
    show "c_by_block ?c b = Some e
        \<or> (\<exists>i < length (q_table q). Suc i * ?bs \<le> q_computed q \<and> b = q_table q ! i \<and> e_hash e = chain_of D ?bs q i)"
    proof (cases "c_by_block c' b = c_by_block ?c b")
      case False
      then obtain i where i: "i < ?full" "b = q_table q ! i" "c_by_block c' b = Some \<lparr>e_block = b, e_hash = chain_of D ?bs q i\<rparr>"
        using idx [of b] by blast
      then have "Suc i * ?bs \<le> ?full * ?bs" by (intro mult_le_mono1) simp
      then show ?thesis using i e fc by auto
    qed (use e in simp)
  qed
  ultimately show ?thesis using run inv' fr st by auto
qed

lemma publish_ok:
  assumes "bm_inv (F + mset (q_table q)) m" "seq_held D m q" "seq_sane q"
  shows "\<exists>n m'. publish_computed_blocks D q m = Inr (n, m') \<and> bm_inv (F + mset (q_table q)) m'
    \<and> seq_held D m' q \<and> frame F (q_id q) m m' \<and> bm_alloc m' = bm_alloc m
    \<and> (bm_state m' (q_id q) = None \<longleftrightarrow> bm_state m (q_id q) = None)"
  using publish_effect [OF assms] by (elim exE conjE) (intro exI conjI; assumption)

end
