(* ===== verification/Block_Manager_Ops.thy ===== *)
theory Block_Manager_Ops
  imports Block_Manager_Inv
begin

text \<open>
  What \<open>free\<close>, \<open>release\<close>, \<open>preempt\<close>, \<open>can_allocate\<close>, \<open>allocate\<close>, \<open>can_append\<close> and
  \<open>append_slots\<close> do under the invariant: they return, move exactly the references they
  should, and leave the other sequences alone. The facts about the pool come from the locale
  \<open>pinning_recycler\<close>, through its two interpretations.
\<close>

section \<open>Release\<close>

lemma bm_inv_shrink:
  assumes "bm_inv (F + G) m"
    and "pool_inv pc_held c_by_block (pc_rinv (bm_caching m)) F a c" "same_pool (bm_alloc m) a"
    and "c_by_block c = c_by_block (bm_cache m)" "c_block_size c = c_block_size (bm_cache m)"
  shows "bm_inv F (m\<lparr>bm_alloc := a, bm_cache := c, bm_state := S\<rparr>)"
proof -
  have "c_by_block c b \<noteq> None" if "2 \<le> count F b" for b
  proof -
    have "2 \<le> count (F + G) b" using that by simp
    then show ?thesis using assms(1,4) unfolding bm_inv_def by metis
  qed
  then show ?thesis using assms by (simp add: bm_inv_def same_pool_def)
qed

lemma decref_block_size:
  "decref (bm_recycler m) b (a, c) = Inr (n, a', c') \<Longrightarrow> c_block_size c' = c_block_size c"
  by (auto simp: decref_def bm_recycler_def release_def offer_block_def pc_recycler_def
      pc_release_def Let_def split: if_splits)

lemma decref_many_block_size:
  "decref_many (bm_recycler m) bs (a, c) = Inr (a', c') \<Longrightarrow> c_block_size c' = c_block_size c"
  unfolding decref_many_def
  by (induction bs arbitrary: a c) (auto dest!: decref_block_size)

lemma free_ok:
  assumes inv: "bm_inv (F + mset (q_table q)) m" and held: "seq_held D m q" and sane: "seq_sane q"
  shows "\<exists>m'. bm_free D q m = Inr (q\<lparr>q_table := []\<rparr>, m') \<and> bm_inv F m' \<and> frame F (q_id q) m m'
     \<and> bm_state m' (q_id q) = None"
proof -
  obtain n m1 where p: "publish_computed_blocks D q m = Inr (n, m1)"
    and i1: "bm_inv (F + mset (q_table q)) m1" and f1: "frame F (q_id q) m m1"
    using publish_ok [OF assms] by blast
  have r: "bm_recycler m1 = bm_recycler m" using f1 by (simp add: frame_def bm_recycler_def)
  obtain a c where d: "decref_many (bm_recycler m1) (q_table q) (bm_alloc m1, bm_cache m1) = Inr (a, c)"
    and pool: "pool_inv pc_held c_by_block (pc_rinv (bm_caching m1)) F a c"
    and sp: "same_pool (bm_alloc m1) a" and ix: "c_by_block c = c_by_block (bm_cache m1)"
    using block_recycler.decref_many_pool [OF recycling bm_inv_pool [OF i1], of "q_table q"] by auto
  let ?m = "m1\<lparr>bm_alloc := a, bm_cache := c, bm_state := (bm_state m1)(q_id q := None)\<rparr>"
  have "bm_inv F ?m"
    using bm_inv_shrink [OF i1 pool sp ix decref_many_block_size [OF d]] .
  moreover have "frame F (q_id q) m1 ?m" using sp ix by (simp add: frame_def)
  then have "frame F (q_id q) m ?m" using frame_trans [OF f1] by blast
  moreover have "bm_free D q m = Inr (q\<lparr>q_table := []\<rparr>, ?m)"
  proof (cases "q_table q = []")
    case True
    then have "q\<lparr>q_table := []\<rparr> = q" by (cases q) simp
    moreover have "a = bm_alloc m1" "c = bm_cache m1" using d True by (simp_all add: decref_many_def)
    ultimately show ?thesis using p True by (simp add: bm_free_def)
  next
    case False
    then show ?thesis using p d by (simp add: bm_free_def)
  qed
  ultimately show ?thesis by auto
qed

lemma preempt_ok:
  assumes "bm_inv (F + mset (q_table q)) m" "seq_held D m q" "seq_sane q"
  shows "\<exists>m'. bm_preempt D q m = Inr (reset_for_recompute q, m') \<and> bm_inv F m' \<and> frame F (q_id q) m m'
     \<and> bm_state m' (q_id q) = None"
  using free_ok [OF assms] by (auto simp: bm_preempt_def reset_for_recompute_def)

lemma release_ok:
  assumes "bm_inv (F + mset (q_table q)) m" "seq_held D m q" "seq_sane q"
  shows "\<exists>m'. bm_release D q m = Inr (q\<lparr>q_table := [], q_computed := 0,
       q_timing := (q_timing q)\<lparr>num_cached_prompt_tokens := 0\<rparr>\<rparr>, m') \<and> bm_inv F m' \<and> frame F (q_id q) m m'
     \<and> bm_state m' (q_id q) = None"
  using free_ok [OF assms] by (auto simp: bm_release_def)

text \<open>Freeing twice is harmless.\<close>

lemma free_again:
  "bm_state m (q_id q) = None \<Longrightarrow> q_table q = [] \<Longrightarrow> bm_free D q m = Inr (q, m)"
  by (auto simp: bm_free_def publish_computed_blocks_def fun_upd_idem)

section \<open>Admission\<close>

lemma adopt_hits_ok:
  "pool_inv pc_held c_by_block pc_inv M a c \<Longrightarrow> length hs = length bs \<Longrightarrow>
   set bs \<subseteq> dom (c_by_block c) \<Longrightarrow>
   \<exists>a' c'. adopt_hits (zip bs hs) (a, c, q, acc) = Inr (a', c', q\<lparr>q_table := q_table q @ bs\<rparr>, acc @ hs)
     \<and> pool_inv pc_held c_by_block pc_inv (M + mset bs) a' c' \<and> same_pool a a'
     \<and> c_by_block c' = c_by_block c \<and> c_block_size c' = c_block_size c"
proof (induction bs arbitrary: hs M a c q acc)
  case Nil
  then show ?case by simp
next
  case (Cons b bs)
  then obtain h hs' where hs: "hs = h # hs'" by (cases hs) auto
  have b: "b \<in> dom (c_by_block c)" using Cons.prems(3) by simp
  have ret: "is_retained b a = Inr (b \<in> pc_held c)"
    using Cons.prems(1) b by (auto simp: is_retained_def check_id_def pool_inv_def)
  obtain a1 where a1: "(if b \<in> pc_held c then rbind (adopt b a) (\<lambda>(_, a'). Inr a')
        else rbind (incref b a) (\<lambda>(_, a'). Inr a')) = Inr a1"
    and p1: "pool_inv pc_held c_by_block pc_inv (add_mset b M) a1 (pc_acquire b c)" and s1: "same_pool a a1"
  proof (cases "b \<in> pc_held c")
    case True
    then show ?thesis using caching.adopt_pool [OF Cons.prems(1) True] that by auto
  next
    case False
    then show ?thesis using caching.share_pool [OF Cons.prems(1) b False] that by auto
  qed
  have fields: "c_by_block (pc_acquire b c) = c_by_block c" "c_block_size (pc_acquire b c) = c_block_size c"
    by (simp_all add: pc_acquire_def)
  let ?q = "q\<lparr>q_table := q_table q @ [b]\<rparr>"
  obtain a2 c2 where "adopt_hits (zip bs hs') (a1, pc_acquire b c, ?q, acc @ [h])
      = Inr (a2, c2, ?q\<lparr>q_table := q_table ?q @ bs\<rparr>, (acc @ [h]) @ hs')"
    "pool_inv pc_held c_by_block pc_inv (add_mset b M + mset bs) a2 c2" "same_pool a1 a2"
    "c_by_block c2 = c_by_block c" "c_block_size c2 = c_block_size c"
    using Cons.IH [OF p1, of hs' ?q "acc @ [h]"] Cons.prems(2,3) hs fields by auto
  then show ?case
    using hs ret a1 s1 by (auto intro: same_pool_trans)
qed

lemma max_hit_tokens:
  assumes "n \<le> num_full_blocks (token_ids q) bs (Some (max_hit_blocks bs q))" "0 < num_tokens q" "0 < bs"
  shows "n * bs < num_tokens q"
proof -
  have t: "int (num_tokens q) - 1 = int (num_tokens q - 1)" using assms(2) by simp
  have "n \<le> (num_tokens q - 1) div bs"
    using assms(1) unfolding num_full_blocks_def max_hit_blocks_def t Let_def
    by (simp flip: zdiv_int)
  then have "n * bs \<le> num_tokens q - 1" using assms(3) by (simp add: less_eq_div_iff_mult_less_eq)
  then show ?thesis using assms(2) by simp
qed

text \<open>The match an admission works with.\<close>

lemma admission_match:
  assumes inv: "bm_inv F m" and sane: "seq_sane q" and cach: "bm_caching m"
  shows "\<exists>mt c. pc_match D (token_ids q) (q_lora q) (Some (max_hit_blocks (bm_block_size m) q)) rec (bm_cache m)
       = Inr (mt, c) \<and> m_block_size mt = bm_block_size m \<and> length (m_hashes mt) = length (m_blocks mt)
     \<and> m_hashes mt = map (chain_of D (bm_block_size m) q) [0..<length (m_blocks mt)]
     \<and> length (m_blocks mt) * bm_block_size m < num_tokens q
     \<and> (\<forall>i < length (m_blocks mt). \<exists>e. c_by_block (bm_cache m) (m_blocks mt ! i) = Some e
           \<and> e_hash e = chain_of D (bm_block_size m) q i)"
proof -
  let ?bs = "bm_block_size m" and ?c = "bm_cache m"
  have bs: "c_block_size ?c = ?bs" "0 < ?bs" using inv by (auto simp: bm_inv_def)
  have enc: "encodable (q_lora q) (token_ids q)" and nt: "0 < num_tokens q"
    using sane by (auto simp: seq_sane_def seq_wf_def num_tokens_def)
  obtain mt c where mt: "pc_match D (token_ids q) (q_lora q) (Some (max_hit_blocks ?bs q)) rec ?c = Inr (mt, c)"
    and sz: "m_block_size mt = ?bs"
    and hs: "m_hashes mt = map (\<lambda>i. prefix_hash D ?bs (q_lora q) (token_ids q) (Suc i)) [0..<pm_num_blocks mt]"
    and bl: "map (c_by_hash ?c) (m_hashes mt) = map Some (m_blocks mt)"
    and le: "pm_num_blocks mt \<le> num_full_blocks (token_ids q) ?bs (Some (max_hit_blocks ?bs q))"
    using pc_match_run [OF enc, of D "Some (max_hit_blocks ?bs q)" rec ?c] unfolding bs(1) by blast
  have hs': "m_hashes mt = map (chain_of D ?bs q) [0..<length (m_blocks mt)]"
    using hs by (simp add: chain_of_def pm_num_blocks_def)
  have lt: "length (m_blocks mt) * ?bs < num_tokens q"
    using max_hit_tokens [OF le nt bs(2)] by (simp add: pm_num_blocks_def)
  have "\<exists>e. c_by_block ?c (m_blocks mt ! i) = Some e \<and> e_hash e = chain_of D ?bs q i"
    if i: "i < length (m_blocks mt)" for i
  proof -
    have "map (c_by_hash ?c) (m_hashes mt) ! i = map Some (m_blocks mt) ! i" using bl by simp
    then have "c_by_hash ?c (chain_of D ?bs q i) = Some (m_blocks mt ! i)" using i hs' by simp
    then show ?thesis
      using bm_inv_cache [OF inv] unfolding pc_inv_def using index_ok_hash by blast
  qed
  then show ?thesis using mt sz hs' lt by auto
qed

lemma retained_hits_eq:
  "set bs \<subseteq> {..<a_num_blocks a} \<Longrightarrow>
   retained_hits bs a = Inr (length (filter (\<lambda>b. b \<in> a_retained a) bs))"
  by (induction bs) (auto simp: is_retained_def check_id_def)

lemma bm_inv_extend:
  assumes "bm_inv F m" "bm_caching m"
    and "pool_inv pc_held c_by_block pc_inv (F + mset bs) a c" "same_pool (bm_alloc m) a"
    and "c_by_block c = c_by_block (bm_cache m)" "c_block_size c = c_block_size (bm_cache m)"
    and "set bs \<subseteq> dom (c_by_block (bm_cache m))"
  shows "bm_inv (F + mset bs) (m\<lparr>bm_alloc := a, bm_cache := c, bm_state := S\<rparr>)"
proof -
  have "c_by_block c b \<noteq> None" if "2 \<le> count (F + mset bs) b" for b
  proof (cases "b \<in> set bs")
    case True
    then show ?thesis using assms(5,7) by auto
  next
    case False
    then have "count (mset bs) b = 0" by (simp add: not_in_iff [symmetric])
    then have "2 \<le> count F b" using that unfolding count_union by linarith
    then show ?thesis using assms(1,5) unfolding bm_inv_def by metis
  qed
  then show ?thesis using assms by (simp add: bm_inv_def pc_rinv_def same_pool_def)
qed

text \<open>A sequence right after its cached prefix was adopted.\<close>

definition admit_prefix :: "nat \<Rightarrow> nat list \<Rightarrow> seqn \<Rightarrow> seqn" where
  "admit_prefix n t q = q\<lparr>q_table := t, q_computed := n,
     q_timing := (q_timing q)\<lparr>num_cached_prompt_tokens := min n (num_prompt_tokens q)\<rparr>\<rparr>"

lemma admit_prefix_fields [simp]:
  "q_table (admit_prefix n t q) = t" "q_computed (admit_prefix n t q) = n"
  "q_id (admit_prefix n t q) = q_id q" "q_status (admit_prefix n t q) = q_status q"
  "q_lora (admit_prefix n t q) = q_lora q" "token_ids (admit_prefix n t q) = token_ids q"
  "num_tokens (admit_prefix n t q) = num_tokens q" "q_reason (admit_prefix n t q) = q_reason q"
  "q_prompt (admit_prefix n t q) = q_prompt q" "q_output (admit_prefix n t q) = q_output q"
  "q_request (admit_prefix n t q) = q_request q" "q_tenant (admit_prefix n t q) = q_tenant q"
  by (simp_all add: admit_prefix_def token_ids_def num_tokens_def)

lemma allocate_ok:
  assumes inv: "bm_inv F m" and sane: "seq_sane q" and empty: "q_table q = []"
  shows "\<exists>t m'. bm_allocate D q m = Inr (length t * bm_block_size m, admit_prefix (length t * bm_block_size m) t q, m')
      \<and> length t * bm_block_size m < num_tokens q
      \<and> bm_inv (F + mset t) m' \<and> seq_held D m' (admit_prefix (length t * bm_block_size m) t q)
      \<and> frame F (q_id q) m m'
      \<and> bm_state m' (q_id q) \<noteq> None \<and> set t \<subseteq> dom (c_by_block (bm_cache m))
      \<and> (bm_caching m \<longrightarrow> (\<exists>mt c. pc_match D (token_ids q) (q_lora q)
            (Some (max_hit_blocks (bm_block_size m) q)) False (bm_cache m) = Inr (mt, c) \<and> t = m_blocks mt))"
proof (cases "bm_caching m")
  case False
  let ?m = "m\<lparr>bm_state := (bm_state m)(q_id q \<mapsto> \<lparr>sb_hashes = [], sb_published = 0\<rparr>)\<rparr>"
  let ?q = "admit_prefix 0 [] q"
  have "bm_allocate D q m = Inr (0, ?q, ?m)"
    using False empty by (cases q) (simp add: bm_allocate_def admit_prefix_def)
  moreover have "bm_inv F ?m" using inv by (simp add: bm_inv_def)
  moreover have "seq_held D ?m ?q" by (simp add: seq_held_def)
  moreover have "frame F (q_id q) m ?m" by (simp add: frame_def)
  moreover have "0 < num_tokens q" using sane by (auto simp: seq_sane_def seq_wf_def num_tokens_def)
  ultimately show ?thesis by (intro exI [of _ "[]"] exI [of _ ?m]) (simp add: False)
next
  case True
  let ?bs = "bm_block_size m" and ?c = "bm_cache m"
  obtain mt c where mt: "pc_match D (token_ids q) (q_lora q) (Some (max_hit_blocks ?bs q)) True ?c = Inr (mt, c)"
    and sz: "m_block_size mt = ?bs" and len: "length (m_hashes mt) = length (m_blocks mt)"
    and hs: "m_hashes mt = map (chain_of D ?bs q) [0..<length (m_blocks mt)]"
    and lt: "length (m_blocks mt) * ?bs < num_tokens q"
    and ent: "\<forall>i < length (m_blocks mt). \<exists>e. c_by_block ?c (m_blocks mt ! i) = Some e
           \<and> e_hash e = chain_of D ?bs q i"
    using admission_match [OF inv sane True, of D True] by blast
  let ?t = "m_blocks mt" and ?n = "length (m_blocks mt) * ?bs"
  have dom: "set ?t \<subseteq> dom (c_by_block ?c)"
    using ent by (fastforce simp: in_set_conv_nth)
  note mc = pc_match_cache [OF mt]
  have "pool_inv pc_held c_by_block pc_inv F (bm_alloc m) c"
    using bm_inv_pool [OF inv] True mc by (simp add: pool_inv_def pc_rinv_def)
  then obtain a' c' where ad: "adopt_hits (zip ?t (m_hashes mt)) (bm_alloc m, c, q, [])
      = Inr (a', c', q\<lparr>q_table := ?t\<rparr>, m_hashes mt)"
    and pool: "pool_inv pc_held c_by_block pc_inv (F + mset ?t) a' c'" and sp: "same_pool (bm_alloc m) a'"
    and ix: "c_by_block c' = c_by_block ?c" "c_block_size c' = c_block_size ?c"
    using adopt_hits_ok [of F "bm_alloc m" c "m_hashes mt" ?t q "[]"] len dom mc empty by auto
  let ?st = "\<lparr>sb_hashes = m_hashes mt, sb_published = length ?t\<rparr>"
  let ?m = "m\<lparr>bm_alloc := a', bm_cache := c', bm_state := (bm_state m)(q_id q \<mapsto> ?st)\<rparr>"
  let ?q = "admit_prefix ?n ?t q"
  have "bm_allocate D q m = Inr (?n, ?q, ?m)"
    using True empty mt ad sz
    by (simp add: bm_allocate_def pm_num_blocks_def pm_num_tokens_def num_prompt_tokens_def admit_prefix_def)
  moreover have "bm_inv (F + mset ?t) ?m" by (rule bm_inv_extend [OF inv True pool sp ix dom])
  moreover have "chain_of D ?bs ?q = chain_of D ?bs q" by (simp add: chain_of_def fun_eq_iff)
  then have "seq_held D ?m ?q"
    using hs ent ix by (auto simp: seq_held_def)
  moreover have "frame F (q_id q) m ?m" using sp ix by (simp add: frame_def)
  moreover have "\<exists>c. pc_match D (token_ids q) (q_lora q) (Some (max_hit_blocks ?bs q)) False ?c = Inr (mt, c)"
    using mt by (auto simp: pc_match_def Let_def)
  ultimately show ?thesis
    using lt dom by (intro exI [of _ ?t] exI [of _ ?m]) auto
qed

text \<open>
  \<open>can_allocate\<close> always answers, and a positive answer leaves room for every block the
  request still needs after its cached prefix was adopted.
\<close>

lemma can_allocate_answers:
  assumes inv: "bm_inv F m" and sane: "seq_sane q"
  shows "\<exists>r. can_allocate D q m = Inr r"
proof (cases "bm_caching m")
  case False
  then show ?thesis by (simp add: can_allocate_def Let_def)
next
  case True
  obtain mt c where mt: "pc_match D (token_ids q) (q_lora q) (Some (max_hit_blocks (bm_block_size m) q)) False (bm_cache m)
       = Inr (mt, c)" and ent: "\<forall>i < length (m_blocks mt). \<exists>e. c_by_block (bm_cache m) (m_blocks mt ! i) = Some e
           \<and> e_hash e = chain_of D (bm_block_size m) q i"
    using admission_match [OF inv sane True, of D False] by blast
  have "set (m_blocks mt) \<subseteq> dom (c_by_block (bm_cache m))"
    using ent by (fastforce simp: in_set_conv_nth)
  then have "set (m_blocks mt) \<subseteq> {..<a_num_blocks (bm_alloc m)}"
    using bm_inv_pool [OF inv] unfolding pool_inv_def by blast
  then show ?thesis
    using True mt retained_hits_eq by (simp add: can_allocate_def Let_def)
qed

lemma new_references:
  assumes pool: "pool_inv held idx rinv F a r" and t: "set t \<subseteq> dom (idx r)"
  shows "card (set_mset (F + mset t)) \<le> card (set_mset F) + length (filter (\<lambda>b. b \<in> a_retained a) t)"
proof -
  have ai: "alloc_inv a" and ct: "counted F a"
    using pool by (auto simp: pool_inv_def)
  have "b \<in> a_retained a" if "b \<in> set t" "b \<notin># F" for b
  proof -
    have "b < a_num_blocks a" "b \<notin> set (a_free a)" using that(1) t pool unfolding pool_inv_def by blast+
    then show ?thesis using unreferenced_iff [OF ai ct] that(2) by blast
  qed
  then have "set_mset (F + mset t) \<subseteq> set_mset F \<union> set (filter (\<lambda>b. b \<in> a_retained a) t)" by auto
  then have "card (set_mset (F + mset t)) \<le> card (set_mset F \<union> set (filter (\<lambda>b. b \<in> a_retained a) t))"
    by (intro card_mono) auto
  also have "\<dots> \<le> card (set_mset F) + card (set (filter (\<lambda>b. b \<in> a_retained a) t))" by (rule card_Un_le)
  also have "\<dots> \<le> card (set_mset F) + length (filter (\<lambda>b. b \<in> a_retained a) t)"
    by (intro add_left_mono card_length)
  finally show ?thesis .
qed

lemma can_allocate_room:
  assumes inv: "bm_inv F m" and sane: "seq_sane q" and empty: "q_table q = []"
    and yes: "can_allocate D q m = Inr True"
    and all: "bm_allocate D q m = Inr (n, q', m')"
  shows "num_blocks_needed (bm_block_size m) q
     \<le> length (q_table q') + num_allocatable (bm_alloc m')"
proof -
  let ?bs = "bm_block_size m" and ?N = "a_num_blocks (bm_alloc m)"
  obtain t m1 where a: "bm_allocate D q m = Inr (length t * ?bs, admit_prefix (length t * ?bs) t q, m1)"
    and i1: "bm_inv (F + mset t) m1" and f1: "frame F (q_id q) m m1"
    and dom: "set t \<subseteq> dom (c_by_block (bm_cache m))"
    and hit: "bm_caching m \<longrightarrow> (\<exists>mt c. pc_match D (token_ids q) (q_lora q)
            (Some (max_hit_blocks ?bs q)) False (bm_cache m) = Inr (mt, c) \<and> t = m_blocks mt)"
    using allocate_ok [OF inv sane empty, of D] by (elim exE conjE) (rule that; assumption)
  have eqs: "q_table q' = t" "m' = m1" using all a by auto
  have na: "num_allocatable (bm_alloc m1) = ?N - card (set_mset (F + mset t))"
    using bm_allocatable [OF i1] frame_sizes [OF f1] by simp
  note nf = bm_allocatable [OF inv]
  have fit: "card (set_mset F) \<le> ?N" using bm_references_fit [OF inv] .
  show ?thesis
  proof (cases "bm_caching m")
    case False
    then have "t = []" using dom inv by (auto simp: bm_inv_def pool_inv_def pc_rinv_def pc_off_inv_def pc_kept_def)
    then show ?thesis
      using False yes eqs na nf by (simp add: can_allocate_def Let_def)
  next
    case True
    then obtain mt c where mt: "pc_match D (token_ids q) (q_lora q) (Some (max_hit_blocks ?bs q)) False (bm_cache m)
         = Inr (mt, c)" and tb: "t = m_blocks mt"
      using hit by blast
    have "set t \<subseteq> {..<?N}" using dom bm_inv_pool [OF inv] unfolding pool_inv_def by blast
    then have "int (num_blocks_needed ?bs q) - int (length t)
        \<le> int (num_allocatable (bm_alloc m)) - int (length (filter (\<lambda>b. b \<in> a_retained (bm_alloc m)) t))"
      using yes True mt retained_hits_eq [of t "bm_alloc m"] tb
      by (simp add: can_allocate_def Let_def pm_num_blocks_def)
    moreover have "card (set_mset (F + mset t))
        \<le> card (set_mset F) + length (filter (\<lambda>b. b \<in> a_retained (bm_alloc m)) t)"
      using new_references [OF bm_inv_pool [OF inv] dom] .
    moreover have "card (set_mset (F + mset t)) \<le> ?N"
      using bm_references_fit [OF i1] frame_sizes [OF f1] by simp
    ultimately show ?thesis unfolding eqs na nf using fit by linarith
  qed
qed

end
