(* ===== verification/Block_Manager_Growth.thy ===== *)
theory Block_Manager_Growth
  imports Block_Manager_Ops
begin

text \<open>
  \<open>append_slots\<close>, the self check of the manager, and what the invariant means for two
  sequences: a block they share holds the same prefix for both, and nobody else can read or
  write the block a sequence is about to fill.
\<close>

section \<open>Growing a block table\<close>

lemma evict_loop_block_size: "evict_loop n c = (bs, c') \<Longrightarrow> c_block_size c' = c_block_size c"
  by (induction n arbitrary: c bs) (fastforce split: list.splits prod.splits)+

lemma pc_evict_block_size: "pc_evict n c = (bs, c') \<Longrightarrow> c_block_size c' = c_block_size c"
  by (auto simp: pc_evict_def dest: evict_loop_block_size split: prod.splits if_splits)

lemma reclaim_block_size:
  "reclaim (bm_recycler m) n (a, c) = Inr (a', c') \<Longrightarrow> c_block_size c' = c_block_size c"
  by (auto simp: reclaim_def bm_recycler_def pc_recycler_def dest: pc_evict_block_size
      split: if_splits prod.splits)

lemma allocate_block_size:
  assumes "allocate (bm_recycler m) (a, c) = Inr (b, a', c')"
  shows "c_block_size c' = c_block_size c"
proof -
  obtain a1 c1 where s: "(if a_free a = [] then reclaim (bm_recycler m) 1 (a, c) else Inr (a, c)) = Inr (a1, c1)"
    and c': "c' = c1"
    using assms by (cases "if a_free a = [] then reclaim (bm_recycler m) 1 (a, c) else Inr (a, c)")
      (auto simp: allocate_def split: list.splits)
  show ?thesis using s c' reclaim_block_size [of m 1 a c a1 c1] by (cases "a_free a = []") auto
qed

lemma grow_table_ok:
  "pool_inv pc_held c_by_block (pc_rinv (bm_caching m)) M a c \<Longrightarrow>
   card (set_mset M) + k \<le> a_num_blocks a \<Longrightarrow>
   \<exists>fresh a' c'. grow_table (bm_recycler m) k table (a, c) = Inr (table @ fresh, a', c')
     \<and> pool_inv pc_held c_by_block (pc_rinv (bm_caching m)) (M + mset fresh) a' c'
     \<and> same_pool a a' \<and> c_block_size c' = c_block_size c \<and> length fresh = k \<and> distinct fresh
     \<and> set fresh \<inter> set_mset M = {} \<and> (\<forall>b \<in> set fresh. c_by_block c' b = None)
     \<and> (\<forall>b \<in># M. c_by_block c' b = c_by_block c b)"
proof (induction k arbitrary: M table a c)
  case 0
  then show ?case by simp
next
  case (Suc k)
  obtain b a1 c1 where 1: "allocate (bm_recycler m) (a, c) = Inr (b, a1, c1)"
      "pool_inv pc_held c_by_block (pc_rinv (bm_caching m)) (add_mset b M) a1 c1"
      "same_pool a a1" "\<forall>x \<in># M. c_by_block c1 x = c_by_block c x" "b \<notin># M" "c_by_block c1 b = None"
    using block_recycler.allocate_pool [OF recycling Suc.prems(1)] Suc.prems(2) by auto
  have "card (set_mset (add_mset b M)) + k \<le> a_num_blocks a1"
    using Suc.prems(2) 1(3,5) by (simp add: same_pool_def card_insert_if)
  then obtain fresh a2 c2 where
    2: "grow_table (bm_recycler m) k (table @ [b]) (a1, c1) = Inr ((table @ [b]) @ fresh, a2, c2)"
       "pool_inv pc_held c_by_block (pc_rinv (bm_caching m)) (add_mset b M + mset fresh) a2 c2"
       "same_pool a1 a2" "c_block_size c2 = c_block_size c1" "length fresh = k" "distinct fresh"
       "set fresh \<inter> set_mset (add_mset b M) = {}" "\<forall>x \<in> set fresh. c_by_block c2 x = None"
       "\<forall>x \<in># add_mset b M. c_by_block c2 x = c_by_block c1 x"
    using Suc.IH [OF 1(2), of "table @ [b]"] by blast
  have "grow_table (bm_recycler m) (Suc k) table (a, c) = Inr (table @ (b # fresh), a2, c2)"
    using 1(1) 2(1) by simp
  moreover have "c_block_size c2 = c_block_size c" using allocate_block_size [OF 1(1)] 2(4) by simp
  moreover have "pool_inv pc_held c_by_block (pc_rinv (bm_caching m)) (M + mset (b # fresh)) a2 c2"
    using 2(2) by simp
  moreover have "same_pool a a2" using 1(3) 2(3) same_pool_trans by blast
  moreover have "length (b # fresh) = Suc k" "distinct (b # fresh)" "set (b # fresh) \<inter> set_mset M = {}"
    using 2(5-7) 1(5) by auto
  moreover have "\<forall>x \<in> set (b # fresh). c_by_block c2 x = None" "\<forall>x \<in># M. c_by_block c2 x = c_by_block c x"
    using 2(8,9) 1(4,6) by auto
  ultimately show ?case by blast
qed

definition slot_at :: "nat \<Rightarrow> nat list \<Rightarrow> nat \<Rightarrow> nat" where
  "slot_at bs table p = table ! (p div bs) * bs + p mod bs"

lemma slots_of_eq:
  "\<forall>p \<in> set ps. p div bs < length table \<Longrightarrow> slots_of bs table ps = Inr (map (slot_at bs table) ps)"
  by (induction ps) (auto simp: slot_of_def slot_at_def)

lemma slot_mapping_eq:
  assumes "0 < bm_block_size m" "start + n \<le> length (q_table q) * bm_block_size m"
  shows "bm_slot_mapping q (int start) (int n) m
     = Inr (map (slot_at (bm_block_size m) (q_table q)) [start..<start + n])"
proof -
  have "p div bm_block_size m < length (q_table q)" if "p \<in> set [start..<start + n]" for p
  proof -
    have "p < length (q_table q) * bm_block_size m" using that assms(2) by simp
    then show ?thesis by (simp add: less_mult_imp_div_less)
  qed
  then show ?thesis by (simp add: bm_slot_mapping_def slots_of_eq)
qed

lemma bm_inv_grown:
  assumes inv: "bm_inv M m"
    and pool: "pool_inv pc_held c_by_block (pc_rinv (bm_caching m)) (M + mset fresh) a c"
    and sp: "same_pool (bm_alloc m) a" "c_block_size c = c_block_size (bm_cache m)"
    and fr: "distinct fresh" "set fresh \<inter> set_mset M = {}"
    and old: "\<forall>b \<in># M. c_by_block c b = c_by_block (bm_cache m) b"
  shows "bm_inv (M + mset fresh) (m\<lparr>bm_alloc := a, bm_cache := c\<rparr>)"
proof -
  have "c_by_block c b \<noteq> None" if two: "2 \<le> count (M + mset fresh) b" for b
  proof -
    have bM: "b \<in># M"
    proof (rule ccontr)
      assume "b \<notin># M"
      then have "count M b = 0" by (simp only: not_in_iff)
      then show False using two distinct_count_mset_le [OF fr(1), of b] unfolding count_union by linarith
    qed
    then have "count (mset fresh) b = 0" using fr(2) by (auto simp: not_in_iff [symmetric])
    then have "2 \<le> count M b" using two unfolding count_union by linarith
    then show ?thesis using inv old bM unfolding bm_inv_def by metis
  qed
  then show ?thesis using inv pool sp by (simp add: bm_inv_def same_pool_def)
qed

lemma append_ok:
  assumes inv: "bm_inv (F + mset (q_table q)) m" and held: "seq_held D m q" and sane: "seq_sane q"
    and st: "bm_state m (q_id q) \<noteq> None" and can: "can_append q n m"
  shows "\<exists>fresh m'. append_slots q (int n) m
        = Inr (map (slot_at (bm_block_size m) (q_table q @ fresh)) [q_computed q..<q_computed q + n],
               q\<lparr>q_table := q_table q @ fresh\<rparr>, m')
     \<and> bm_inv (F + mset (q_table q @ fresh)) m' \<and> frame F (q_id q) m m'
     \<and> seq_held D m' (q\<lparr>q_table := q_table q @ fresh, q_computed := q_computed q + n\<rparr>)
     \<and> seq_held D m' (q\<lparr>q_table := q_table q @ fresh\<rparr>)
     \<and> bm_state m' = bm_state m
     \<and> length (q_table q @ fresh) = max (length (q_table q)) (ceil_div (q_computed q + n) (bm_block_size m))
     \<and> (\<forall>i < length (q_table q @ fresh). q_computed q div bm_block_size m \<le> i \<longrightarrow>
          c_by_block (bm_cache m') ((q_table q @ fresh) ! i) = None)"
proof -
  let ?bs = "bm_block_size m" and ?M = "F + mset (q_table q)" and ?stop = "q_computed q + n"
  let ?k = "ceil_div ?stop ?bs - length (q_table q)"
  have bs: "0 < ?bs" using inv by (simp add: bm_inv_def)
  have stop: "?stop \<le> num_tokens q" and room: "?k \<le> num_allocatable (bm_alloc m)"
    using can by (auto simp: can_append_def Let_def split: if_splits)
  have fit: "card (set_mset ?M) + ?k \<le> a_num_blocks (bm_alloc m)"
    using room bm_allocatable [OF inv] bm_references_fit [OF inv] by simp
  obtain fresh a c where
    g: "grow_table (bm_recycler m) ?k (q_table q) (bm_alloc m, bm_cache m) = Inr (q_table q @ fresh, a, c)"
    and pool: "pool_inv pc_held c_by_block (pc_rinv (bm_caching m)) (?M + mset fresh) a c"
    and sp: "same_pool (bm_alloc m) a" "c_block_size c = c_block_size (bm_cache m)"
    and len: "length fresh = ?k" and dist: "distinct fresh" "set fresh \<inter> set_mset ?M = {}"
    and new: "\<forall>b \<in> set fresh. c_by_block c b = None"
    and old: "\<forall>b \<in># ?M. c_by_block c b = c_by_block (bm_cache m) b"
    using grow_table_ok [OF bm_inv_pool [OF inv] fit, of "q_table q"] by blast
  let ?t = "q_table q @ fresh" and ?m = "m\<lparr>bm_alloc := a, bm_cache := c\<rparr>"
  have lt: "length ?t = max (length (q_table q)) (ceil_div ?stop ?bs)" using len by simp
  have cover: "?stop \<le> length ?t * ?bs"
    using ceil_div_covers [OF bs, of ?stop] lt by (metis le_trans max.cobounded2 mult_le_mono1)
  have run: "append_slots q (int n) m = Inr (map (slot_at ?bs ?t) [q_computed q..<?stop], q\<lparr>q_table := ?t\<rparr>, ?m)"
    using st stop g slot_mapping_eq [of ?m "q_computed q" n "q\<lparr>q_table := ?t\<rparr>"] bs cover
    by (auto simp: append_slots_def Let_def)
  have inv': "bm_inv (F + mset ?t) ?m"
    using bm_inv_grown [OF inv pool sp dist old] by (simp add: add.assoc)
  have fr: "frame F (q_id q) m ?m" using sp old by (simp add: frame_def)
  obtain s where s: "bm_state m (q_id q) = Some s" using st by auto
  from held s have h: "sb_hashes s = map (chain_of D ?bs q) [0..<sb_published s]"
      "sb_published s * ?bs \<le> q_computed q" "sb_published s \<le> length (q_table q)"
      "q_computed q \<le> length (q_table q) * ?bs"
    and own: "\<And>i e. i < length (q_table q) \<Longrightarrow> c_by_block (bm_cache m) (q_table q ! i) = Some e \<Longrightarrow>
               e_hash e = chain_of D ?bs q i"
    and unp: "\<And>i. i < length (q_table q) \<Longrightarrow> sb_published s \<le> i \<Longrightarrow>
               c_by_block (bm_cache m) (q_table q ! i) = None"
    by (auto elim: seq_heldE)
  have at: "(i < length (q_table q) \<and> ?t ! i = q_table q ! i
        \<and> c_by_block c (?t ! i) = c_by_block (bm_cache m) (q_table q ! i))
      \<or> (length (q_table q) \<le> i \<and> c_by_block c (?t ! i) = None)" if "i < length ?t" for i
    using that old new by (auto simp: nth_append)
  have own': "e_hash e = chain_of D ?bs q i" if "i < length ?t" "c_by_block c (?t ! i) = Some e" for i e
    using at [OF that(1)] that(2) own by auto
  have unp': "c_by_block c (?t ! i) = None" if "i < length ?t" "sb_published s \<le> i" for i
    using at [OF that(1)] that(2) unp by auto
  have ch: "chain_of D ?bs (q\<lparr>q_table := t', q_computed := k'\<rparr>) = chain_of D ?bs q" for t' k'
    by (simp add: chain_of_def token_ids_def fun_eq_iff)
  have ch2: "chain_of D ?bs (q\<lparr>q_table := t'\<rparr>) = chain_of D ?bs q" for t'
    by (simp add: chain_of_def token_ids_def fun_eq_iff)
  have h1: "seq_held D ?m (q\<lparr>q_table := ?t, q_computed := ?stop\<rparr>)"
    using s h own' unp' cover by (auto simp: seq_held_def ch)
  have h2: "seq_held D ?m (q\<lparr>q_table := ?t\<rparr>)"
    using s h own' unp' cover by (auto simp: seq_held_def ch2)
  have "sb_published s \<le> q_computed q div ?bs"
    using h(2) bs by (simp add: less_eq_div_iff_mult_less_eq)
  then have unc: "\<forall>i < length ?t. q_computed q div ?bs \<le> i \<longrightarrow> c_by_block c (?t ! i) = None"
    using unp' by auto
  show ?thesis
    using run inv' fr h1 h2 lt unc by (intro exI [of _ fresh] exI [of _ ?m]) simp
qed

section \<open>Creation, reset, the self check\<close>

lemma bm_create_inv: "bm_create n bs caching = Inr m \<Longrightarrow> bm_inv {#} m \<and> bm_state m = Map.empty
   \<and> bm_caching m = caching \<and> a_num_blocks (bm_alloc m) = nat n \<and> bm_block_size m = nat bs"
  by (auto simp: bm_create_def bm_init_def pc_init_def alloc_init_def no_cache_def bm_inv_def pool_inv_def
      pc_rinv_def pc_off_inv_def pc_inv_def pc_kept_def pc_held_def alloc_inv_def counted_def split: if_splits)

lemma bm_create_returns: "0 \<le> n \<Longrightarrow> 1 \<le> bs \<Longrightarrow> \<exists>m. bm_create n bs caching = Inr m"
  by (cases caching) (simp_all add: bm_create_def bm_init_def pc_init_def alloc_init_def)

lemma bm_reset_inv: "bm_inv M m \<Longrightarrow> bm_inv {#} (bm_reset m) \<and> bm_state (bm_reset m) = Map.empty"
proof -
  assume inv: "bm_inv M m"
  have "pc_kept (bm_cache m) = {} \<Longrightarrow> pc_held (bm_cache m) = {}"
    using bm_inv_cache [OF inv] pc_held_kept by blast
  then show ?thesis
    using inv alloc_reset_inv [of "bm_alloc m"] bm_inv_cache [OF inv]
    by (auto simp: bm_inv_def bm_reset_def pool_inv_def pc_rinv_def pc_off_inv_def pc_reset_def
        pc_inv_def pc_kept_def pc_held_def alloc_reset_def split: if_splits)
qed

lemma pc_check_ok:
  assumes "pc_inv c" shows "pc_check c = Inr ()"
proof -
  have i: "index_ok (c_by_hash c) (c_by_block c)" using assms by (simp add: pc_inv_def)
  have "bij_betw (\<lambda>h. the (c_by_hash c h)) (dom (c_by_hash c)) (dom (c_by_block c))"
    unfolding bij_betw_def inj_on_def
  proof (intro conjI ballI impI)
    fix h h' assume "h \<in> dom (c_by_hash c)" "h' \<in> dom (c_by_hash c)"
      "the (c_by_hash c h) = the (c_by_hash c h')"
    then obtain b where "c_by_hash c h = Some b" "c_by_hash c h' = Some b" by auto
    then show "h = h'" using index_ok_hash [OF i] by fastforce
  next
    show "(\<lambda>h. the (c_by_hash c h)) ` dom (c_by_hash c) = dom (c_by_block c)"
    proof (intro equalityI subsetI)
      fix b assume "b \<in> (\<lambda>h. the (c_by_hash c h)) ` dom (c_by_hash c)"
      then obtain h where "c_by_hash c h = Some b" by force
      then show "b \<in> dom (c_by_block c)" using index_ok_hash [OF i] by blast
    next
      fix b assume "b \<in> dom (c_by_block c)"
      then obtain e where "c_by_block c b = Some e" by blast
      then have "c_by_hash c (e_hash e) = Some b" using index_ok_entry [OF i] by blast
      then show "b \<in> (\<lambda>h. the (c_by_hash c h)) ` dom (c_by_hash c)" by (force intro: image_eqI)
    qed
  qed
  then have "card (dom (c_by_hash c)) = card (dom (c_by_block c))" by (rule bij_betw_same_card)
  moreover have "\<not> (\<exists>b \<in> dom (c_by_block c). case c_by_block c b of
              None \<Rightarrow> False | Some e \<Rightarrow> e_block e \<noteq> b \<or> c_by_hash c (e_hash e) \<noteq> Some b)"
    using index_ok_entry [OF i] by (auto split: option.splits)
  moreover have "\<not> list_ex (\<lambda>b. c_by_block c b = None) (c_evictable c)"
    using assms by (auto simp: pc_inv_def list_ex_iff)
  ultimately show ?thesis unfolding pc_check_def by simp
qed

lemma rfold_unit: "(\<And>x. x \<in> set xs \<Longrightarrow> f x () = Inr ()) \<Longrightarrow> rfold f xs () = Inr ()"
  by (induction xs) auto

text \<open>The manager's own \<open>check_invariants\<close> never fires.\<close>

lemma bm_check_ok:
  assumes inv: "bm_inv M m" shows "bm_check m = Inr ()"
proof -
  let ?a = "bm_alloc m" and ?c = "bm_cache m"
  note pool = bm_inv_pool [OF inv]
  have ai: "alloc_inv ?a" and held: "a_retained ?a = pc_held ?c"
    and dj: "dom (c_by_block ?c) \<inter> set (a_free ?a) = {}" using pool by (auto simp: pool_inv_def)
  have "rfold (\<lambda>b _.
         if \<not> pc_contains b ?c then Inr ()
         else rbind (is_free b ?a) (\<lambda>f. rbind (rguard f ValueError) (\<lambda>_.
              rbind (is_retained b ?a) (\<lambda>r. rguard (pc_is_evictable b ?c \<noteq> r) ValueError))))
         [0..<a_num_blocks ?a] () = Inr ()"
  proof (rule rfold_unit)
    fix b assume b: "b \<in> set [0..<a_num_blocks ?a]"
    have "\<not> (a_refs ?a ! b = 0 \<and> b \<notin> a_retained ?a)" if "pc_contains b ?c"
    proof -
      have "b \<notin> set (a_free ?a)" using that dj by (auto simp: pc_contains_def)
      then show ?thesis using ai b unfolding alloc_inv_def by auto
    qed
    then show "(if \<not> pc_contains b ?c then Inr ()
         else rbind (is_free b ?a) (\<lambda>f. rbind (rguard f ValueError) (\<lambda>_.
              rbind (is_retained b ?a) (\<lambda>r. rguard (pc_is_evictable b ?c \<noteq> r) ValueError)))) = Inr ()"
      using b held by (auto simp: is_free_def is_retained_def check_id_def pc_is_evictable_def pc_held_def)
  qed
  then show ?thesis
    unfolding bm_check_def alloc_inv_check [OF ai] rbind.simps pc_check_ok [OF bm_inv_cache [OF inv]]
    by (cases "bm_caching m") auto
qed

section \<open>Two sequences\<close>

text \<open>A block that two sequences share was computed from the same adapter and prefix.\<close>

lemma shared_block_same_hash:
  assumes inv: "bm_inv (F + mset (q_table p) + mset (q_table q)) m"
    and p: "seq_held D m p" "i < length (q_table p)" and q: "seq_held D m q" "j < length (q_table q)"
    and same: "q_table p ! i = q_table q ! j"
  shows "chain_of D (bm_block_size m) p i = chain_of D (bm_block_size m) q j"
proof -
  let ?b = "q_table p ! i"
  have "0 < count (mset (q_table p)) ?b" "0 < count (mset (q_table q)) ?b"
    using count_mset_nth_pos [OF p(2)] count_mset_nth_pos [OF q(2)] same by simp_all
  then have "2 \<le> count (F + mset (q_table p) + mset (q_table q)) ?b"
    unfolding count_union by linarith
  then obtain e where e: "c_by_block (bm_cache m) ?b = Some e" using inv unfolding bm_inv_def by blast
  have "e_hash e = chain_of D (bm_block_size m) p i"
    using p e by (auto simp: seq_held_def split: option.splits)
  moreover have "e_hash e = chain_of D (bm_block_size m) q j"
    using q e same by (auto simp: seq_held_def split: option.splits)
  ultimately show ?thesis by simp
qed

text \<open>Writing a block nobody else can see.\<close>

lemma slot_at_inj:
  assumes "0 < bs" "slot_at bs t p = slot_at bs t' p'"
  shows "t ! (p div bs) = t' ! (p' div bs)" "p mod bs = p' mod bs"
proof -
  have d: "(x * bs + y mod bs) div bs = x" "(x * bs + y mod bs) mod bs = y mod bs" for x y
    using assms(1) by simp_all
  have e: "t ! (p div bs) * bs + p mod bs = t' ! (p' div bs) * bs + p' mod bs"
    using assms(2) by (simp add: slot_at_def)
  show "t ! (p div bs) = t' ! (p' div bs)" "p mod bs = p' mod bs"
    using arg_cong [OF e, of "\<lambda>z. z div bs"] arg_cong [OF e, of "\<lambda>z. z mod bs"]
    unfolding d by simp_all
qed

lemma written_slot_private:
  assumes inv: "bm_inv (F + mset (q_table p) + mset (q_table q)) m"
    and "i div bm_block_size m < length (q_table p)" "j div bm_block_size m < length (q_table q)"
    and "c_by_block (bm_cache m) (q_table p ! (i div bm_block_size m)) = None"
  shows "slot_at (bm_block_size m) (q_table p) i \<noteq> slot_at (bm_block_size m) (q_table q) j"
proof
  assume "slot_at (bm_block_size m) (q_table p) i = slot_at (bm_block_size m) (q_table q) j"
  moreover have "0 < bm_block_size m" using inv by (simp add: bm_inv_def)
  ultimately have eq: "q_table p ! (i div bm_block_size m) = q_table q ! (j div bm_block_size m)"
    using slot_at_inj(1) by blast
  have c: "F + mset (q_table q) + mset (q_table p) = F + mset (q_table p) + mset (q_table q)" by simp
  have "bm_inv (F + mset (q_table q) + mset (q_table p)) m" using inv by (subst c)
  then have "q_table p ! (i div bm_block_size m) \<notin># F + mset (q_table q)"
    using uncached_elsewhere(1) assms(2,4) by blast
  then show False using eq assms(3) by simp
qed

end
