(* ===== verification/Wait_Queue.thy ===== *)
theory Wait_Queue
  imports Engine_Types "HOL-Library.Product_Lexorder" "HOL-Library.List_Lexorder" "HOL-Library.Char_ord"
begin

text \<open>
  The admission queue, class \<open>_WaitQueue\<close> of \<open>src/turboserve/engine/core/scheduler.py\<close>:
  a FIFO, or self-clocked weighted fair queueing between tenants.

  A queue holds sequence ids (the code's object references) and is told the tenant of an id
  where the code reads \<open>seq.tenant_id\<close>. \<open>_queues\<close> is an association list in the dict's
  insertion order. Virtual times are \<open>rat\<close>: floating-point rounding is not modelled.

  The locale \<open>admission_queue\<close> is what the scheduler relies on: the queue's contents as a
  list, \<open>peek\<close> showing the head that \<open>pop\<close> takes, \<open>push\<close> and \<open>remove\<close>.
\<close>

section \<open>Python's \<open>min(xs, key=...)\<close>\<close>

fun min_from :: "('a \<Rightarrow> 'k::linorder) \<Rightarrow> 'a \<Rightarrow> 'a list \<Rightarrow> 'a" where
  "min_from key x [] = x"
| "min_from key x (y # ys) = min_from key (if key y < key x then y else x) ys"

fun py_min :: "('a \<Rightarrow> 'k::linorder) \<Rightarrow> 'a list \<Rightarrow> 'a option" where
  "py_min key [] = None"
| "py_min key (x # xs) = Some (min_from key x xs)"

lemma min_from_least:
  "min_from key x xs \<in> set (x # xs) \<and> (\<forall>y \<in> set (x # xs). key (min_from key x xs) \<le> key y)"
proof (induction xs arbitrary: x)
  case Nil
  then show ?case by simp
next
  case (Cons y ys)
  let ?z = "if key y < key x then y else x"
  have "min_from key ?z ys \<in> set (?z # ys)" "\<forall>w \<in> set (?z # ys). key (min_from key ?z ys) \<le> key w"
    using Cons [of ?z] by auto
  then show ?case by (auto split: if_splits intro: order_trans less_imp_le)
qed

lemma py_min_least: "py_min key xs = Some m \<Longrightarrow> m \<in> set xs \<and> (\<forall>y \<in> set xs. key m \<le> key y)"
  by (cases xs) (use min_from_least in fastforce)+

lemma py_min_None [simp]: "py_min key xs = None \<longleftrightarrow> xs = []"
  by (cases xs) auto

section \<open>The queue\<close>

record wait_queue =
  w_fair :: bool
  w_weights :: "(string \<times> rat) list"
  w_fifo :: "nat list"
  w_queues :: "(string \<times> nat list) list"
  w_vtime :: "string \<rightharpoonup> rat"
  w_now :: rat

definition wq_init :: "bool \<Rightarrow> (string \<times> rat) list \<Rightarrow> wait_queue" where
  "wq_init fair weights = \<lparr>w_fair = fair, w_weights = weights, w_fifo = [], w_queues = [],
     w_vtime = Map.empty, w_now = 0\<rparr>"

definition weight_of :: "string \<Rightarrow> wait_queue \<Rightarrow> rat" where
  "weight_of tenant w = (case map_of (w_weights w) tenant of None \<Rightarrow> 1 | Some x \<Rightarrow> x)"

definition vtime_of :: "string \<Rightarrow> wait_queue \<Rightarrow> rat" where
  "vtime_of tenant w = (case w_vtime w tenant of None \<Rightarrow> 0 | Some v \<Rightarrow> v)"

text \<open>In-place change of the deque stored under a key, and deletion of a key.\<close>

definition dict_map :: "'k \<Rightarrow> ('v \<Rightarrow> 'v) \<Rightarrow> ('k \<times> 'v) list \<Rightarrow> ('k \<times> 'v) list" where
  "dict_map k f = map (\<lambda>(k', v). if k' = k then (k', f v) else (k', v))"

definition dict_del :: "'k \<Rightarrow> ('k \<times> 'v) list \<Rightarrow> ('k \<times> 'v) list" where
  "dict_del k = filter (\<lambda>(k', v). k' \<noteq> k)"

definition wq_push :: "nat \<Rightarrow> string \<Rightarrow> wait_queue \<Rightarrow> wait_queue" where
  "wq_push x tenant w =
     (if \<not> w_fair w then w\<lparr>w_fifo := w_fifo w @ [x]\<rparr>
      else case map_of (w_queues w) tenant of
        None \<Rightarrow> w\<lparr>w_queues := w_queues w @ [(tenant, [x])],
                  w_vtime := (w_vtime w)(tenant \<mapsto> max (vtime_of tenant w) (w_now w))\<rparr>
      | Some _ \<Rightarrow> w\<lparr>w_queues := dict_map tenant (\<lambda>xs. xs @ [x]) (w_queues w)\<rparr>)"

definition next_tenant :: "wait_queue \<Rightarrow> string option" where
  "next_tenant w = py_min (\<lambda>t. (vtime_of t w, t)) (map fst (w_queues w))"

definition wq_peek :: "wait_queue \<Rightarrow> nat option" where
  "wq_peek w =
     (if \<not> w_fair w then (case w_fifo w of [] \<Rightarrow> None | x # _ \<Rightarrow> Some x)
      else case next_tenant w of
        None \<Rightarrow> None
      | Some t \<Rightarrow> (case map_of (w_queues w) t of
            Some (x # _) \<Rightarrow> Some x | _ \<Rightarrow> None))"

definition wq_pop :: "wait_queue \<Rightarrow> py_error + (nat \<times> wait_queue)" where
  "wq_pop w =
     (if \<not> w_fair w then
        (case w_fifo w of [] \<Rightarrow> Inl IndexError | x # xs \<Rightarrow> Inr (x, w\<lparr>w_fifo := xs\<rparr>))
      else case next_tenant w of
        None \<Rightarrow> Inl IndexError
      | Some t \<Rightarrow> (case map_of (w_queues w) t of
            None \<Rightarrow> Inl KeyError
          | Some [] \<Rightarrow> Inl IndexError
          | Some (x # xs) \<Rightarrow>
              (case w_vtime w t of
                 None \<Rightarrow> Inl KeyError
               | Some v \<Rightarrow>
                   let v' = v + 1 / weight_of t w in
                   Inr (x, w\<lparr>w_vtime := (w_vtime w)(t \<mapsto> v'), w_now := v',
                     w_queues := (if xs = [] then dict_del t (w_queues w)
                                  else dict_map t (\<lambda>_. xs) (w_queues w))\<rparr>))))"

definition wq_remove :: "nat \<Rightarrow> string \<Rightarrow> wait_queue \<Rightarrow> bool \<times> wait_queue" where
  "wq_remove x tenant w =
     (if \<not> w_fair w then
        (if x \<notin> set (w_fifo w) then (False, w) else (True, w\<lparr>w_fifo := remove1 x (w_fifo w)\<rparr>))
      else case map_of (w_queues w) tenant of
        None \<Rightarrow> (False, w)
      | Some xs \<Rightarrow>
          if x \<notin> set xs then (False, w)
          else (True, w\<lparr>w_queues := (if remove1 x xs = [] then dict_del tenant (w_queues w)
                                     else dict_map tenant (\<lambda>_. remove1 x xs) (w_queues w))\<rparr>))"

definition wq_clear :: "wait_queue \<Rightarrow> wait_queue" where
  "wq_clear w = w\<lparr>w_fifo := [], w_queues := [], w_vtime := Map.empty, w_now := 0\<rparr>"

definition wq_items :: "wait_queue \<Rightarrow> nat list" where
  "wq_items w = (if \<not> w_fair w then w_fifo w else concat (map snd (w_queues w)))"

definition wq_len :: "wait_queue \<Rightarrow> nat" where
  "wq_len w = (if \<not> w_fair w then length (w_fifo w)
               else sum_list (map (\<lambda>(_, xs). length xs) (w_queues w)))"

section \<open>Invariant\<close>

definition wq_inv :: "(nat \<Rightarrow> string) \<Rightarrow> wait_queue \<Rightarrow> bool" where
  "wq_inv ten w \<longleftrightarrow> (if \<not> w_fair w then w_queues w = []
     else w_fifo w = [] \<and> distinct (map fst (w_queues w))
       \<and> (\<forall>(t, xs) \<in> set (w_queues w). xs \<noteq> [] \<and> w_vtime w t \<noteq> None \<and> (\<forall>x \<in> set xs. ten x = t)))"

lemma map_of_dict_del: "map_of (dict_del k xs) j = (if j = k then None else map_of xs j)"
  by (induction xs) (auto simp: dict_del_def)

lemma map_of_dict_map: "map_of (dict_map k f xs) j = (if j = k then map_option f (map_of xs j) else map_of xs j)"
  by (induction xs) (auto simp: dict_map_def)

lemma keys_dict_map [simp]: "map fst (dict_map k f xs) = map fst xs"
  by (induction xs) (auto simp: dict_map_def)

lemma keys_dict_del: "map fst (dict_del k xs) = filter (\<lambda>k'. k' \<noteq> k) (map fst xs)"
  by (induction xs) (auto simp: dict_del_def)

lemma set_dict_del: "set (dict_del k xs) = {(k', v) \<in> set xs. k' \<noteq> k}"
  by (auto simp: dict_del_def)

lemma set_dict_map: "set (dict_map k f xs) = (\<lambda>(k', v). if k' = k then (k', f v) else (k', v)) ` set xs"
  by (simp add: dict_map_def)

lemma dict_absent:
  "t \<notin> fst ` set qs \<Longrightarrow> dict_del t qs = qs \<and> dict_map t f qs = qs"
  by (induction qs) (auto simp: dict_del_def dict_map_def)

lemma dict_del_all: "\<forall>(t, v) \<in> set qs. P t v \<Longrightarrow> \<forall>(t, v) \<in> set (dict_del k qs). P t v"
  by (auto simp: set_dict_del)

lemma dict_map_all:
  "\<forall>(t, v) \<in> set qs. P t v \<Longrightarrow> (\<And>v. (k, v) \<in> set qs \<Longrightarrow> P k v \<Longrightarrow> P k (f v)) \<Longrightarrow>
   \<forall>(t, v) \<in> set (dict_map k f qs). P t v"
  by (auto simp: set_dict_map split: if_split_asm)

text \<open>Replacing or deleting one tenant's deque keeps the fair queue well formed.\<close>

definition fair_ok :: "(nat \<Rightarrow> string) \<Rightarrow> (string \<rightharpoonup> rat) \<Rightarrow> (string \<times> nat list) list \<Rightarrow> bool" where
  "fair_ok ten vt qs \<longleftrightarrow> distinct (map fst qs)
     \<and> (\<forall>(t, xs) \<in> set qs. xs \<noteq> [] \<and> vt t \<noteq> None \<and> (\<forall>x \<in> set xs. ten x = t))"

lemma wq_inv_fair: "w_fair w \<Longrightarrow> wq_inv ten w \<longleftrightarrow> w_fifo w = [] \<and> fair_ok ten (w_vtime w) (w_queues w)"
  by (simp add: wq_inv_def fair_ok_def)

lemma fair_ok_shrink:
  assumes "fair_ok ten vt qs" "(t, xs) \<in> set qs" "set ys \<subseteq> set xs" "dom vt \<subseteq> dom vt'"
  shows "fair_ok ten vt' (if ys = [] then dict_del t qs else dict_map t (\<lambda>_. ys) qs)"
proof -
  have a: "\<forall>(t, xs) \<in> set qs. xs \<noteq> [] \<and> vt' t \<noteq> None \<and> (\<forall>x \<in> set xs. ten x = t)"
    using assms(1,4) by (fastforce simp: fair_ok_def)
  have y: "\<forall>x \<in> set ys. ten x = t" using a assms(2,3) by blast
  show ?thesis
  proof (cases "ys = []")
    case True
    then show ?thesis using dict_del_all [OF a] assms(1) by (simp add: fair_ok_def keys_dict_del)
  next
    case False
    have "\<forall>(t, xs) \<in> set (dict_map t (\<lambda>_. ys) qs). xs \<noteq> [] \<and> vt' t \<noteq> None \<and> (\<forall>x \<in> set xs. ten x = t)"
      using False y by (intro dict_map_all [OF a]) auto
    then show ?thesis using False assms(1) by (simp add: fair_ok_def)
  qed
qed

definition bag :: "(string \<times> nat list) list \<Rightarrow> nat multiset" where
  "bag qs = mset (concat (map snd qs))"

lemma dict_split:
  "distinct (map fst qs) \<Longrightarrow> map_of qs t = Some xs \<Longrightarrow>
   bag qs = bag (dict_del t qs) + mset xs \<and> bag (dict_map t f qs) = bag (dict_del t qs) + mset (f xs)"
proof (induction qs)
  case Nil
  then show ?case by simp
next
  case (Cons kv qs)
  obtain k v where kv: "kv = (k, v)" by (cases kv)
  show ?case
  proof (cases "k = t")
    case True
    then have "t \<notin> fst ` set qs" "xs = v" using Cons.prems kv by auto
    then show ?thesis
      using dict_absent [of t qs f] True kv by (simp add: bag_def dict_del_def dict_map_def)
  next
    case False
    then have "bag qs = bag (dict_del t qs) + mset xs \<and> bag (dict_map t f qs) = bag (dict_del t qs) + mset (f xs)"
      using Cons kv by auto
    then show ?thesis using False kv by (simp add: bag_def dict_del_def dict_map_def)
  qed
qed

lemma wq_items_bag: "w_fair w \<Longrightarrow> mset (wq_items w) = bag (w_queues w)"
  by (simp add: wq_items_def bag_def)

lemma next_tenant_head:
  assumes "wq_inv ten w" "w_fair w" "next_tenant w = Some t"
  shows "\<exists>x xs v. map_of (w_queues w) t = Some (x # xs) \<and> w_vtime w t = Some v"
proof -
  have "t \<in> set (map fst (w_queues w))" using assms(3) py_min_least unfolding next_tenant_def by metis
  then obtain xs where "(t, xs) \<in> set (w_queues w)" by auto
  moreover have "distinct (map fst (w_queues w))" using assms by (simp add: wq_inv_def)
  ultimately have m: "map_of (w_queues w) t = Some xs" by (simp add: map_of_is_SomeI)
  have "xs \<noteq> [] \<and> w_vtime w t \<noteq> None"
    using \<open>(t, xs) \<in> set (w_queues w)\<close> assms by (auto simp: wq_inv_def)
  then show ?thesis using m by (cases xs) auto
qed

lemma next_tenant_None: "next_tenant w = None \<longleftrightarrow> w_queues w = []"
  by (simp add: next_tenant_def)

section \<open>The interface the scheduler relies on\<close>

locale admission_queue =
  fixes items :: "'q \<Rightarrow> nat list"
    and push :: "nat \<Rightarrow> string \<Rightarrow> 'q \<Rightarrow> 'q"
    and peek :: "'q \<Rightarrow> nat option"
    and pop :: "'q \<Rightarrow> py_error + (nat \<times> 'q)"
    and remove :: "nat \<Rightarrow> string \<Rightarrow> 'q \<Rightarrow> bool \<times> 'q"
    and inv :: "(nat \<Rightarrow> string) \<Rightarrow> 'q \<Rightarrow> bool"
  assumes push_inv: "inv ten w \<Longrightarrow> ten x = t \<Longrightarrow> inv ten (push x t w)"
    and push_items: "inv ten w \<Longrightarrow> mset (items (push x t w)) = add_mset x (mset (items w))"
    and peek_None: "inv ten w \<Longrightarrow> peek w = None \<longleftrightarrow> items w = []"
    and peek_pop: "inv ten w \<Longrightarrow> peek w = Some x \<Longrightarrow>
      \<exists>w'. pop w = Inr (x, w') \<and> inv ten w' \<and> mset (items w) = add_mset x (mset (items w'))"
    and pop_empty: "inv ten w \<Longrightarrow> items w = [] \<Longrightarrow> pop w = Inl IndexError"
    and remove_inv: "inv ten w \<Longrightarrow> inv ten (snd (remove x (ten x) w))"
    and remove_items: "inv ten w \<Longrightarrow>
      mset (items (snd (remove x (ten x) w))) = mset (items w) - {#x#}
      \<and> (fst (remove x (ten x) w) \<longleftrightarrow> x \<in> set (items w))"
begin

text \<open>Admitting one after another hands out every queued item exactly once, then raises.\<close>

fun drain :: "nat \<Rightarrow> 'q \<Rightarrow> py_error + (nat list \<times> 'q)" where
  "drain 0 w = Inr ([], w)"
| "drain (Suc n) w = rbind (pop w) (\<lambda>(x, w'). rbind (drain n w') (\<lambda>(xs, w''). Inr (x # xs, w'')))"

lemma drain_all:
  "inv ten w \<Longrightarrow> \<exists>xs w'. drain (length (items w)) w = Inr (xs, w') \<and> mset xs = mset (items w)
     \<and> items w' = [] \<and> inv ten w'"
proof (induction "length (items w)" arbitrary: w)
  case 0
  then show ?case by auto
next
  case (Suc n)
  then obtain x where "peek w = Some x" using peek_None by fastforce
  then obtain w1 where w1: "pop w = Inr (x, w1)" "inv ten w1" "mset (items w) = add_mset x (mset (items w1))"
    using peek_pop Suc.prems by blast
  have "length (items w) = Suc (length (items w1))"
    using arg_cong [OF w1(3), of size] by simp
  then have n: "n = length (items w1)" using Suc.hyps(2) by simp
  then obtain xs w2 where "drain n w1 = Inr (xs, w2)" "mset xs = mset (items w1)" "items w2 = []" "inv ten w2"
    using Suc.hyps(1) [OF n w1(2)] by auto
  then show ?case using w1 Suc.hyps(2) by (simp flip: Suc.hyps(2))
qed

lemma remove_absent: "inv ten w \<Longrightarrow> x \<notin> set (items w) \<Longrightarrow> \<not> fst (remove x (ten x) w)"
  using remove_items by blast

end

lemma wq_push_inv: "wq_inv ten w \<Longrightarrow> ten x = t \<Longrightarrow> wq_inv ten (wq_push x t w)"
  by (fastforce simp: wq_inv_def wq_push_def set_dict_map map_of_eq_None_iff split: option.splits if_splits)

lemma wq_push_items: "wq_inv ten w \<Longrightarrow> mset (wq_items (wq_push x t w)) = add_mset x (mset (wq_items w))"
proof (cases "w_fair w")
  case False
  then show ?thesis by (simp add: wq_push_def wq_items_def)
next
  case True
  assume inv: "wq_inv ten w"
  show ?thesis
  proof (cases "map_of (w_queues w) t")
    case None
    then show ?thesis using True by (simp add: wq_push_def wq_items_def)
  next
    case (Some xs)
    have "distinct (map fst (w_queues w))" using inv True by (simp add: wq_inv_def)
    from dict_split [OF this Some, of "\<lambda>xs. xs @ [x]"] show ?thesis
      using True Some by (simp add: wq_push_def wq_items_bag)
  qed
qed

lemma wq_pop_fair:
  assumes inv: "wq_inv ten w" and fair: "w_fair w" and t: "next_tenant w = Some t"
  shows "\<exists>x xs v w'. map_of (w_queues w) t = Some (x # xs) \<and> w_vtime w t = Some v
     \<and> wq_peek w = Some x \<and> wq_pop w = Inr (x, w') \<and> wq_inv ten w'
     \<and> mset (wq_items w) = add_mset x (mset (wq_items w'))
     \<and> w_vtime w' = (w_vtime w)(t \<mapsto> v + 1 / weight_of t w) \<and> w_weights w' = w_weights w \<and> w_fair w'"
proof -
  obtain x xs v where h: "map_of (w_queues w) t = Some (x # xs)" "w_vtime w t = Some v"
    using next_tenant_head [OF assms] by blast
  let ?qs = "if xs = [] then dict_del t (w_queues w) else dict_map t (\<lambda>_. xs) (w_queues w)"
  let ?w = "w\<lparr>w_vtime := (w_vtime w)(t \<mapsto> v + 1 / weight_of t w), w_now := v + 1 / weight_of t w,
              w_queues := ?qs\<rparr>"
  have d: "distinct (map fst (w_queues w))" using inv fair by (simp add: wq_inv_def)
  have mem: "(t, x # xs) \<in> set (w_queues w)" using h(1) by (rule map_of_SomeD)
  have "fair_ok ten (w_vtime w) (w_queues w)" "w_fifo w = []" using inv fair by (simp_all add: wq_inv_fair)
  moreover from this(1) have "fair_ok ten ((w_vtime w)(t \<mapsto> v + 1 / weight_of t w)) ?qs"
    by (rule fair_ok_shrink [OF _ mem]) auto
  ultimately have "wq_inv ten ?w" using fair by (simp add: wq_inv_fair)
  moreover have "wq_pop w = Inr (x, ?w)" using fair t h by (simp add: wq_pop_def Let_def)
  moreover have "wq_peek w = Some x" using fair t h by (simp add: wq_peek_def)
  moreover have "mset (wq_items w) = add_mset x (mset (wq_items ?w))"
    using dict_split [OF d h(1), of "\<lambda>_. xs"] fair by (simp add: wq_items_bag)
  ultimately show ?thesis using h fair by (intro exI [of _ x] exI [of _ xs] exI [of _ v] exI [of _ ?w]) simp
qed

lemma wq_remove_ok:
  assumes inv: "wq_inv ten w"
  shows "wq_inv ten (snd (wq_remove x (ten x) w))"
    "mset (wq_items (snd (wq_remove x (ten x) w))) = mset (wq_items w) - {#x#}"
    "fst (wq_remove x (ten x) w) \<longleftrightarrow> x \<in> set (wq_items w)"
proof -
  have "wq_inv ten (snd (wq_remove x (ten x) w))
    \<and> mset (wq_items (snd (wq_remove x (ten x) w))) = mset (wq_items w) - {#x#}
    \<and> (fst (wq_remove x (ten x) w) \<longleftrightarrow> x \<in> set (wq_items w))"
  proof (cases "w_fair w")
    case False
    then show ?thesis using inv by (auto simp: wq_inv_def wq_remove_def wq_items_def diff_single_trivial)
  next
    case True
    have d: "distinct (map fst (w_queues w))" using inv True by (simp add: wq_inv_def)
    have home: "x \<in> set xs \<Longrightarrow> (t, xs) \<in> set (w_queues w) \<Longrightarrow> t = ten x" for t xs
      using inv True by (auto simp: wq_inv_def)
    have items: "x \<in> set (wq_items w) \<longleftrightarrow> (\<exists>t xs. (t, xs) \<in> set (w_queues w) \<and> x \<in> set xs)"
      using True by (auto simp: wq_items_def) force+
    have mem: "x \<in> set (wq_items w) \<longleftrightarrow> (\<exists>xs. map_of (w_queues w) (ten x) = Some xs \<and> x \<in> set xs)"
      unfolding items using home map_of_eq_Some_iff [OF d] by blast
    show ?thesis
    proof (cases "x \<in> set (wq_items w)")
      case False
      then have "wq_remove x (ten x) w = (False, w)"
        using True mem by (auto simp: wq_remove_def split: option.splits)
      then show ?thesis using inv False by (simp add: diff_single_trivial)
    next
      case in_queue: True
      then obtain xs where xs: "map_of (w_queues w) (ten x) = Some xs" "x \<in> set xs" using mem by blast
      let ?qs = "if remove1 x xs = [] then dict_del (ten x) (w_queues w)
                 else dict_map (ten x) (\<lambda>_. remove1 x xs) (w_queues w)"
      have r: "wq_remove x (ten x) w = (True, w\<lparr>w_queues := ?qs\<rparr>)"
        using True xs by (simp add: wq_remove_def)
      have pos: "(ten x, xs) \<in> set (w_queues w)" using xs(1) by (rule map_of_SomeD)
      have "fair_ok ten (w_vtime w) (w_queues w)" "w_fifo w = []" using inv True by (simp_all add: wq_inv_fair)
      moreover from this(1) have "fair_ok ten (w_vtime w) ?qs"
        by (rule fair_ok_shrink [OF _ pos set_remove1_subset]) simp
      ultimately have "wq_inv ten (w\<lparr>w_queues := ?qs\<rparr>)" using True by (simp add: wq_inv_fair)
      moreover have "mset (wq_items (w\<lparr>w_queues := ?qs\<rparr>)) = mset (wq_items w) - {#x#}"
      proof -
        have "bag ?qs = bag (dict_del (ten x) (w_queues w)) + mset (remove1 x xs)"
          using dict_split [OF d xs(1), of "\<lambda>_. remove1 x xs"] by (simp del: mset_remove1)
        moreover have "bag (w_queues w) = bag (dict_del (ten x) (w_queues w)) + mset xs"
          using dict_split [OF d xs(1), of id] by simp
        moreover have "mset (remove1 x xs) = mset xs - {#x#}" "x \<in># mset xs" using xs(2) by simp_all
        ultimately show ?thesis using True by (simp only: wq_items_bag wait_queue.select_convs
            wait_queue.simps) (simp add: wq_items_bag)
      qed
      ultimately show ?thesis using r in_queue by simp
    qed
  qed
  then show "wq_inv ten (snd (wq_remove x (ten x) w))"
    "mset (wq_items (snd (wq_remove x (ten x) w))) = mset (wq_items w) - {#x#}"
    "fst (wq_remove x (ten x) w) \<longleftrightarrow> x \<in> set (wq_items w)" by blast+
qed

lemma wq_items_empty: "wq_inv ten w \<Longrightarrow> w_fair w \<Longrightarrow> wq_items w = [] \<longleftrightarrow> w_queues w = []"
  by (cases "w_queues w") (auto simp: wq_items_def wq_inv_def)

interpretation wq: admission_queue wq_items wq_push wq_peek wq_pop wq_remove wq_inv
proof (unfold_locales, goal_cases)
  case (1 ten w x t) then show ?case by (rule wq_push_inv)
next
  case (2 ten w x t) then show ?case by (rule wq_push_items)
next
  case (3 ten w)
  show ?case
  proof (cases "w_fair w")
    case False
    then show ?thesis by (simp add: wq_peek_def wq_items_def split: list.splits)
  next
    case True
    then show ?thesis
    proof (cases "next_tenant w")
      case None
      then show ?thesis using True next_tenant_None [of w] wq_items_empty [OF 3] by (simp add: wq_peek_def)
    next
      case (Some t)
      then have "w_queues w \<noteq> []" using next_tenant_None [of w] by simp
      then show ?thesis using wq_pop_fair [OF 3 True Some] wq_items_empty [OF 3 True] by auto
    qed
  qed
next
  case (4 ten w x)
  show ?case
  proof (cases "w_fair w")
    case False
    then show ?thesis using 4 by (auto simp: wq_peek_def wq_pop_def wq_items_def wq_inv_def split: list.splits)
  next
    case True
    then obtain t where "next_tenant w = Some t" using 4(2) by (auto simp: wq_peek_def split: option.splits)
    then show ?thesis using wq_pop_fair [OF 4(1) True] 4(2) by fastforce
  qed
next
  case (5 ten w)
  show ?case
  proof (cases "w_fair w")
    case False
    then show ?thesis using 5 by (simp add: wq_pop_def wq_items_def)
  next
    case True
    then have "next_tenant w = None" using 5 wq_items_empty [of ten w] next_tenant_None [of w] by simp
    then show ?thesis using True by (simp add: wq_pop_def)
  qed
next
  case (6 ten w x) then show ?case by (rule wq_remove_ok)
next
  case (7 ten w x) then show ?case using wq_remove_ok by blast
qed

section \<open>Weighted fairness\<close>

text \<open>
  Over any run of queue operations during which a tenant stays backlogged, its virtual time
  is what it was plus its number of admissions over its weight. The gap between two
  backlogged tenants then never exceeds its initial value or one service of the leader.
\<close>

datatype wq_op = Push nat string | Pop | Remove nat string

fun wq_do :: "wq_op \<Rightarrow> wait_queue \<Rightarrow> py_error + wait_queue" where
  "wq_do (Push x t) w = Inr (wq_push x t w)"
| "wq_do Pop w = rbind (wq_pop w) (\<lambda>(_, w'). Inr w')"
| "wq_do (Remove x t) w = Inr (snd (wq_remove x t w))"

definition backlogged :: "string \<Rightarrow> wait_queue \<Rightarrow> bool" where
  "backlogged t w \<longleftrightarrow> t \<in> fst ` set (w_queues w)"

text \<open>A run in which both tenants are backlogged before every operation, and how many of its
  pops admitted each of the two.\<close>

fun fair_run :: "string \<Rightarrow> string \<Rightarrow> wq_op list \<Rightarrow> wait_queue \<Rightarrow> (nat \<times> nat \<times> wait_queue) option" where
  "fair_run a b [] w = Some (0, 0, w)"
| "fair_run a b (opn # ops) w =
     (if \<not> backlogged a w \<or> \<not> backlogged b w then None
      else case wq_do opn w of
        Inl _ \<Rightarrow> None
      | Inr w' \<Rightarrow>
          (case fair_run a b ops w' of
             None \<Rightarrow> None
           | Some (i, j, w'') \<Rightarrow>
               let ia = (if opn = Pop \<and> next_tenant w = Some a then 1 else 0);
                   jb = (if opn = Pop \<and> next_tenant w = Some b then 1 else 0)
               in Some (i + ia, j + jb, w'')))"

lemma wq_remove_fields:
  "w_vtime (snd (wq_remove x s w)) = w_vtime w" "w_weights (snd (wq_remove x s w)) = w_weights w"
  "w_fair (snd (wq_remove x s w)) = w_fair w"
  by (auto simp: wq_remove_def split: option.split)

lemma wq_do_vtime:
  assumes inv: "wq_inv ten w" and fair: "w_fair w" and run: "wq_do opn w = Inr w'"
    and b: "backlogged t w"
  shows "w_fair w' \<and> w_weights w' = w_weights w
     \<and> vtime_of t w' = vtime_of t w + (if opn = Pop \<and> next_tenant w = Some t then 1 / weight_of t w else 0)"
proof (cases opn)
  case (Push x s)
  show ?thesis
  proof (cases "map_of (w_queues w) s")
    case None
    then have "t \<noteq> s" using b by (auto simp: backlogged_def map_of_eq_None_iff)
    then show ?thesis using run fair Push None by (auto simp: wq_push_def vtime_of_def)
  next
    case (Some xs)
    then show ?thesis using run fair Push by (auto simp: wq_push_def vtime_of_def)
  qed
next
  case Pop
  obtain s where s: "next_tenant w = Some s"
    using b next_tenant_None [of w] by (cases "next_tenant w") (auto simp: backlogged_def)
  obtain v w1 x where "wq_pop w = Inr (x, w1)" "w_vtime w1 = (w_vtime w)(s \<mapsto> v + 1 / weight_of s w)"
      "w_weights w1 = w_weights w" "w_fair w1" "w_vtime w s = Some v"
    using wq_pop_fair [OF inv fair s] by blast
  then show ?thesis using run Pop s by (auto simp: vtime_of_def)
next
  case (Remove x s)
  then show ?thesis
    using run fair wq_remove_fields [of x s w] by (auto simp: vtime_of_def)
qed

definition valid_op :: "(nat \<Rightarrow> string) \<Rightarrow> wq_op \<Rightarrow> bool" where
  "valid_op ten opn \<longleftrightarrow> (case opn of Push x t \<Rightarrow> ten x = t | Pop \<Rightarrow> True | Remove x t \<Rightarrow> ten x = t)"

lemma wq_do_inv: "wq_inv ten w \<Longrightarrow> valid_op ten opn \<Longrightarrow> wq_do opn w = Inr w' \<Longrightarrow> wq_inv ten w'"
proof (cases opn)
  case Pop
  assume a: "wq_inv ten w" "valid_op ten opn" "wq_do opn w = Inr w'"
  then obtain x where p: "wq_pop w = Inr (x, w')" using Pop by auto
  have "wq_items w \<noteq> []" using wq.pop_empty [OF a(1)] p by auto
  then obtain y where "wq_peek w = Some y" using wq.peek_None [OF a(1)] by fastforce
  then show ?thesis using wq.peek_pop [OF a(1)] p by fastforce
next
  case (Push x t)
  assume "wq_inv ten w" "valid_op ten opn" "wq_do opn w = Inr w'"
  then show ?thesis using Push wq_push_inv by (auto simp: valid_op_def)
next
  case (Remove x t)
  assume "wq_inv ten w" "valid_op ten opn" "wq_do opn w = Inr w'"
  then show ?thesis using Remove wq_remove_ok(1) by (auto simp: valid_op_def)
qed

text \<open>A pop admits a tenant of least virtual time.\<close>

lemma next_tenant_least:
  "next_tenant w = Some s \<Longrightarrow> backlogged t w \<Longrightarrow> vtime_of s w \<le> vtime_of t w"
  unfolding next_tenant_def backlogged_def
  by (drule py_min_least) (auto simp: less_eq_prod_def)

lemma fair_run_gap:
  "wq_inv ten w \<Longrightarrow> w_fair w \<Longrightarrow> list_all (valid_op ten) ops \<Longrightarrow> fair_run a b ops w = Some (i, j, w') \<Longrightarrow>
   a \<noteq> b \<Longrightarrow> 0 < weight_of a w \<Longrightarrow> 0 < weight_of b w \<Longrightarrow>
   vtime_of a w - vtime_of b w \<le> G \<Longrightarrow> 1 / weight_of a w \<le> G \<Longrightarrow>
   vtime_of a w' = vtime_of a w + of_nat i / weight_of a w
   \<and> vtime_of b w' = vtime_of b w + of_nat j / weight_of b w
   \<and> vtime_of a w' - vtime_of b w' \<le> G"
proof (induction ops arbitrary: w i j)
  case Nil
  then show ?case by simp
next
  case (Cons opn ops)
  from Cons.prems(4) obtain w1 where b: "backlogged a w" "backlogged b w" and w1: "wq_do opn w = Inr w1"
    by (auto split: if_splits sum.splits)
  from Cons.prems(4) b w1 obtain i1 j1 where r: "fair_run a b ops w1 = Some (i1, j1, w')"
    and i: "i = i1 + (if opn = Pop \<and> next_tenant w = Some a then 1 else 0)"
    and j: "j = j1 + (if opn = Pop \<and> next_tenant w = Some b then 1 else 0)"
    by (auto simp: Let_def split: option.splits)
  have va: "w_fair w1" "w_weights w1 = w_weights w"
      "vtime_of a w1 = vtime_of a w + (if opn = Pop \<and> next_tenant w = Some a then 1 / weight_of a w else 0)"
    and vb: "vtime_of b w1 = vtime_of b w + (if opn = Pop \<and> next_tenant w = Some b then 1 / weight_of b w else 0)"
    using wq_do_vtime [OF Cons.prems(1,2) w1 b(1)] wq_do_vtime [OF Cons.prems(1,2) w1 b(2)] by blast+
  have wt: "weight_of t w1 = weight_of t w" for t using va(2) by (simp add: weight_of_def)
  have "vtime_of a w1 - vtime_of b w1 \<le> G"
  proof (cases "opn = Pop \<and> next_tenant w = Some a")
    case True
    then have "vtime_of a w \<le> vtime_of b w" using next_tenant_least b(2) by blast
    then show ?thesis using True va(3) vb Cons.prems(5,9) by simp
  next
    case False
    then have "vtime_of a w1 = vtime_of a w" using va(3) by (simp only: if_False add_0_right)
    moreover have "vtime_of b w \<le> vtime_of b w1" using vb Cons.prems(7) by simp
    ultimately have "vtime_of a w1 - vtime_of b w1 \<le> vtime_of a w - vtime_of b w"
      by (simp add: diff_left_mono)
    then show ?thesis using Cons.prems(8) by (rule order_trans)
  qed
  then have "vtime_of a w' = vtime_of a w1 + of_nat i1 / weight_of a w1
     \<and> vtime_of b w' = vtime_of b w1 + of_nat j1 / weight_of b w1 \<and> vtime_of a w' - vtime_of b w' \<le> G"
    using Cons.prems va(1) r wt wq_do_inv [OF Cons.prems(1) _ w1] by (intro Cons.IH) auto
  then show ?case using i j va(3) vb wt by (simp add: add_divide_distrib)
qed

end
