(* ===== verification/Scheduler.thy ===== *)
theory Scheduler
  imports Block_Manager_Growth Wait_Queue
begin

text \<open>
  The continuous-batching scheduler, \<open>ScheduledSeq\<close>, \<open>SchedulerOutput\<close>, \<open>_Budget\<close> and
  \<open>Scheduler\<close> of \<open>src/turboserve/engine/core/scheduler.py\<close>.

  A \<open>Sequence\<close> object is shared by the queues, the request index and the batch under
  construction, and compared by identity. Here it lives once in the store \<open>s_seqs\<close> and a
  reference to it is its \<open>seq_id\<close>, the key the block manager uses for it too; \<open>obj x s\<close> is
  the object behind a reference. \<open>sched\<close> has the scheduler's other fields as they are.

  What one call of \<open>schedule\<close> threads through its helpers (the output, the budget, the two
  id sets and the two item lists) is the record \<open>kstep\<close>. The two \<open>while\<close> loops are
  recursive functions whose termination is proved: \<open>_make_room\<close> shrinks the running list,
  \<open>_schedule_admissions\<close> uses up the sequence budget.
\<close>

section \<open>One sequence's share of a step\<close>

record ssched =
  d_seq :: nat
  d_num_new :: nat
  d_context_len :: nat
  d_token_ids :: "int list"
  d_slots :: "nat list"
  d_block_table :: "nat list"
  d_is_prefill :: bool
  d_is_chunk :: bool
  d_cached :: nat

text \<open>\<open>__post_init__\<close>\<close>

definition sched_item :: "ssched \<Rightarrow> py_error + ssched" where
  "sched_item d =
     rbind (rguard (d_num_new d < 1) ValueError) (\<lambda>_.
     rbind (rguard (length (d_token_ids d) \<noteq> d_num_new d) ValueError) (\<lambda>_.
     rbind (rguard (length (d_slots d) \<noteq> d_num_new d) ValueError) (\<lambda>_.
     rbind (rguard (d_context_len d < d_num_new d) ValueError) (\<lambda>_. Inr d))))"

definition samples_token :: "ssched \<Rightarrow> bool" where
  "samples_token d \<longleftrightarrow> \<not> d_is_chunk d"

definition item_positions :: "ssched \<Rightarrow> nat list" where
  "item_positions d = [d_context_len d - d_num_new d..<d_context_len d]"

section \<open>The description of a step\<close>

record sched_out =
  out_scheduled :: "ssched list"
  out_preempted :: "nat list"
  out_prefill_tokens :: nat
  out_decode_tokens :: nat
  out_prefill_seqs :: nat
  out_decode_seqs :: nat
  out_cached :: nat

definition num_batched_tokens :: "sched_out \<Rightarrow> nat" where
  "num_batched_tokens out = out_prefill_tokens out + out_decode_tokens out"

definition out_is_empty :: "sched_out \<Rightarrow> bool" where
  "out_is_empty out \<longleftrightarrow> out_scheduled out = []"

definition sampled :: "sched_out \<Rightarrow> ssched list" where
  "sampled out = filter samples_token (out_scheduled out)"

fun sample_loop :: "ssched list \<Rightarrow> nat \<Rightarrow> nat list" where
  "sample_loop [] offset = []"
| "sample_loop (d # ds) offset =
     (let offset' = offset + d_num_new d in
      (if samples_token d then [offset' - 1] else []) @ sample_loop ds offset')"

definition sample_indices :: "sched_out \<Rightarrow> nat list" where
  "sample_indices out = sample_loop (out_scheduled out) 0"

definition input_token_ids :: "sched_out \<Rightarrow> int list" where
  "input_token_ids out = concat (map d_token_ids (out_scheduled out))"

definition out_positions :: "sched_out \<Rightarrow> nat list" where
  "out_positions out = concat (map item_positions (out_scheduled out))"

text \<open>\<open>item.lora_id\<close> reads the sequence object; \<open>lora\<close> is that lookup.\<close>

definition token_lora_ids :: "(nat \<Rightarrow> int) \<Rightarrow> sched_out \<Rightarrow> int list" where
  "token_lora_ids lora out =
     concat (map (\<lambda>d. replicate (d_num_new d) (lora (d_seq d))) (out_scheduled out))"

definition build_lora_context :: "(nat \<Rightarrow> int) \<Rightarrow> sched_out \<Rightarrow> lora_context" where
  "build_lora_context lora out = lora_from_slots (token_lora_ids lora out)"

definition build_attn_metadata :: "int \<Rightarrow> nat option \<Rightarrow> sched_out \<Rightarrow> py_error + attn_meta" where
  "build_attn_metadata block_size max_blocks out =
     (let ds = out_scheduled out in
      rbind (rguard (ds = []) ValueError) (\<lambda>_.
      rbind (rguard (block_size < 1) ValueError) (\<lambda>_.
      rbind (rguard (list_ex (\<lambda>d. int (length (d_block_table d)) * block_size < int (d_context_len d)) ds)
               ValueError) (\<lambda>_.
      rbind (pad_block_tables (map (\<lambda>d. map int (d_block_table d)) ds) max_blocks) (\<lambda>tables.
      let q_lens = map (int \<circ> d_num_new) ds; ctxs = map (int \<circ> d_context_len) ds in
      Inr \<lparr>slot_mapping = map int (concat (map d_slots ds)), block_tables = tables,
           context_lens = ctxs, query_start_loc = build_query_start_loc q_lens,
           max_query_len = max_list q_lens, max_context_len = max_list ctxs,
           num_prefill_seqs = int (out_prefill_seqs out),
           num_decode_seqs = int (out_decode_seqs out)\<rparr>)))))"

section \<open>The scheduler object\<close>

record sched =
  s_config :: scheduler_config
  s_bm :: bman
  s_waiting :: wait_queue
  s_preempted :: "nat list"
  s_running :: "nat list"
  s_by_request :: "string \<rightharpoonup> nat"
  s_seqs :: "nat \<rightharpoonup> seqn"
  s_counter :: nat
  s_num_steps :: nat
  s_num_preemptions :: nat
  s_num_finished :: nat
  s_num_admitted :: nat
  s_num_prefill_tokens :: nat
  s_num_decode_tokens :: nat
  s_num_cached_tokens :: nat

definition obj :: "nat \<Rightarrow> sched \<Rightarrow> seqn" where
  "obj x s = the (s_seqs s x)"

definition put :: "nat \<Rightarrow> seqn \<Rightarrow> sched \<Rightarrow> sched" where
  "put x q s = s\<lparr>s_seqs := (s_seqs s)(x \<mapsto> q)\<rparr>"

definition sched_init :: "scheduler_config \<Rightarrow> bman option \<Rightarrow> py_error + sched" where
  "sched_init cfg bm_opt =
     rbind (case bm_opt of
              Some m \<Rightarrow> Inr m
            | None \<Rightarrow> (case cfg_num_blocks cfg of
                None \<Rightarrow> Inl ValueError
              | Some n \<Rightarrow> bm_create (int n) (int (cfg_block_size cfg)) (enable_prefix_caching cfg))) (\<lambda>m.
     rbind (rguard (bm_block_size m \<noteq> cfg_block_size cfg) ValueError) (\<lambda>_.
     Inr \<lparr>s_config = cfg, s_bm = m,
          s_waiting = wq_init (policy cfg = Tenant_Fair) (tenant_weights cfg),
          s_preempted = [], s_running = [], s_by_request = Map.empty, s_seqs = Map.empty,
          s_counter = 0, s_num_steps = 0, s_num_preemptions = 0, s_num_finished = 0,
          s_num_admitted = 0, s_num_prefill_tokens = 0, s_num_decode_tokens = 0,
          s_num_cached_tokens = 0\<rparr>))"

definition num_waiting :: "sched \<Rightarrow> nat" where
  "num_waiting s = wq_len (s_waiting s) + length (s_preempted s)"

definition num_unfinished :: "sched \<Rightarrow> nat" where
  "num_unfinished s = card (dom (s_by_request s))"

definition has_unfinished :: "sched \<Rightarrow> bool" where
  "has_unfinished s \<longleftrightarrow> s_by_request s \<noteq> Map.empty"

definition get_sequence :: "string \<Rightarrow> sched \<Rightarrow> nat option" where
  "get_sequence rid s = s_by_request s rid"

definition waiting_list :: "sched \<Rightarrow> nat list" where
  "waiting_list s = s_preempted s @ wq_items (s_waiting s)"

section \<open>Request lifecycle\<close>

definition add_sequence :: "seqn \<Rightarrow> sched \<Rightarrow> py_error + sched" where
  "add_sequence q s =
     rbind (rguard (s_by_request s (q_request q) \<noteq> None) ValueError) (\<lambda>_.
     rbind (rguard (a_num_blocks (bm_alloc (s_bm s)) < num_blocks_needed (cfg_block_size (s_config s)) q)
              ValueError) (\<lambda>_.
     rbind (rguard (\<not> enable_chunked_prefill (s_config s)
                    \<and> max_num_batched_tokens (s_config s) < num_tokens q) ValueError) (\<lambda>_.
     Inr (put (q_id q) (q\<lparr>q_status := Waiting\<rparr>)
            (s\<lparr>s_by_request := (s_by_request s)(q_request q \<mapsto> q_id q),
               s_waiting := wq_push (q_id q) (q_tenant q) (s_waiting s)\<rparr>)))))"

definition add_request ::
  "string \<Rightarrow> int list \<Rightarrow> sampling option \<Rightarrow> string \<Rightarrow> int \<Rightarrow> int \<Rightarrow> rat \<Rightarrow> sched \<Rightarrow> py_error + (nat \<times> sched)" where
  "add_request rid tokens params tenant prio lora arrival s =
     rbind (rguard (s_by_request s rid \<noteq> None) ValueError) (\<lambda>_.
     rbind (seq_init (s_counter s) rid tokens
              (case params of None \<Rightarrow> sampling_default | Some p \<Rightarrow> p) tenant prio lora) (\<lambda>q.
     rbind (add_sequence (q\<lparr>q_timing := (q_timing q)\<lparr>t_arrival := Some arrival\<rparr>\<rparr>)
              (s\<lparr>s_counter := s_counter s + 1\<rparr>)) (\<lambda>s'. Inr (q_id q, s'))))"

definition sched_detach :: "nat \<Rightarrow> sched \<Rightarrow> sched" where
  "sched_detach x s =
     (let s' = (if x \<in> set (s_running s) then s\<lparr>s_running := remove1 x (s_running s)\<rparr>
                else if x \<in> set (s_preempted s) then s\<lparr>s_preempted := remove1 x (s_preempted s)\<rparr>
                else s\<lparr>s_waiting := snd (wq_remove x (q_tenant (obj x s)) (s_waiting s))\<rparr>)
      in s'\<lparr>s_by_request := (s_by_request s')(q_request (obj x s) := None)\<rparr>)"

definition sched_finish ::
  "digest \<Rightarrow> nat \<Rightarrow> finish_reason \<Rightarrow> rat \<Rightarrow> int option \<Rightarrow> sched \<Rightarrow> py_error + sched" where
  "sched_finish D x reason now stop_token s =
     rbind (bm_free D (seq_finish reason now stop_token (obj x s)) (s_bm s)) (\<lambda>(q, m).
     let s' = sched_detach x (put x q (s\<lparr>s_bm := m\<rparr>))
     in Inr (s'\<lparr>s_num_finished := s_num_finished s' + 1\<rparr>))"

definition sched_abort :: "digest \<Rightarrow> string \<Rightarrow> rat \<Rightarrow> sched \<Rightarrow> py_error + (bool \<times> sched)" where
  "sched_abort D rid now s =
     (case s_by_request s rid of
        None \<Rightarrow> Inr (False, s)
      | Some x \<Rightarrow> rbind (sched_finish D x Abort now None s) (\<lambda>s'. Inr (True, s')))"

definition append_token ::
  "digest \<Rightarrow> nat \<Rightarrow> int \<Rightarrow> int option \<Rightarrow> rat \<Rightarrow> sched \<Rightarrow> py_error + (finish_reason option \<times> sched)" where
  "append_token D x token eos now s =
     rbind (seq_append_token token now (obj x s)) (\<lambda>q.
     case check_stop token eos q of
       None \<Rightarrow> Inr (None, put x q s)
     | Some reason \<Rightarrow>
         rbind (sched_finish D x reason now (if reason = Stop then Some token else None) (put x q s)) (\<lambda>s'.
         Inr (Some reason, s')))"

definition sched_reset :: "sched \<Rightarrow> sched" where
  "sched_reset s = s\<lparr>s_waiting := wq_clear (s_waiting s), s_preempted := [], s_running := [],
     s_by_request := Map.empty, s_bm := bm_reset (s_bm s)\<rparr>"

section \<open>What one step threads through its helpers\<close>

record kstep =
  k_tokens :: int
  k_seqs :: int
  k_ids :: "nat set"
  k_prefills :: "ssched list"
  k_decodes :: "ssched list"
  k_preempted_now :: "nat set"
  k_out_preempted :: "nat list"
  k_cached :: nat

definition exhausted :: "kstep \<Rightarrow> bool" where
  "exhausted k \<longleftrightarrow> k_tokens k \<le> 0 \<or> k_seqs k \<le> 0"

definition emit :: "nat \<Rightarrow> nat \<Rightarrow> nat \<Rightarrow> sched \<times> kstep \<Rightarrow> py_error + (sched \<times> kstep)" where
  "emit x n cached = (\<lambda>(s, k).
     let q = obj x s; start = q_computed q; stop = start + n in
     rbind (append_slots q (int n) (s_bm s)) (\<lambda>(slots, q1, m).
     let is_prefill = start < num_prompt_tokens q1 in
     rbind (tokens_in_range (int start) (int stop) q1) (\<lambda>toks.
     rbind (sched_item \<lparr>d_seq = x, d_num_new = n, d_context_len = stop, d_token_ids = toks,
              d_slots = slots, d_block_table = q_table q1, d_is_prefill = is_prefill,
              d_is_chunk = (is_prefill \<and> stop < num_prompt_tokens q1), d_cached = cached\<rparr>) (\<lambda>item.
     rbind (advance_computed (int n) q1) (\<lambda>(_, q2).
     Inr (put x q2 (s\<lparr>s_bm := m\<rparr>),
          k\<lparr>k_tokens := k_tokens k - int n, k_seqs := k_seqs k - 1, k_ids := insert x (k_ids k),
            k_prefills := (if is_prefill then k_prefills k @ [item] else k_prefills k),
            k_decodes := (if is_prefill then k_decodes k else k_decodes k @ [item])\<rparr>))))))"

section \<open>Preemption\<close>

definition pick_victim :: "nat set \<Rightarrow> nat \<Rightarrow> sched \<Rightarrow> nat option" where
  "pick_victim ids requester s =
     py_min (\<lambda>x. (q_priority (obj x s), - int x))
       (filter (\<lambda>x. x \<noteq> requester \<and> x \<notin> ids \<and> q_status (obj x s) = Running) (s_running s))"

definition sched_preempt :: "digest \<Rightarrow> nat \<Rightarrow> sched \<times> kstep \<Rightarrow> py_error + (sched \<times> kstep)" where
  "sched_preempt D x = (\<lambda>(s, k).
     rbind (bm_preempt D (obj x s) (s_bm s)) (\<lambda>(q, m).
     Inr ((put x q (s\<lparr>s_bm := m\<rparr>))
            \<lparr>s_running := (if x \<in> set (s_running s) then remove1 x (s_running s) else s_running s),
             s_preempted := s_preempted s @ [x], s_num_preemptions := s_num_preemptions s + 1\<rparr>,
          k\<lparr>k_preempted_now := insert x (k_preempted_now k),
            k_out_preempted := k_out_preempted k @ [x]\<rparr>)))"

lemma sched_preempt_shrinks:
  "sched_preempt D v (s, k) = Inr (s', k') \<Longrightarrow> v \<in> set (s_running s) \<Longrightarrow>
   length (s_running s') < length (s_running s)"
  by (auto simp: sched_preempt_def put_def length_remove1)
     (metis Suc_pred length_pos_if_in_set lessI)

lemma pick_victim_in: "pick_victim ids r s = Some v \<Longrightarrow> v \<in> set (s_running s) \<and> v \<noteq> r \<and> v \<notin> ids"
  unfolding pick_victim_def by (drule py_min_least) auto

function make_room :: "digest \<Rightarrow> nat \<Rightarrow> nat \<Rightarrow> sched \<times> kstep \<Rightarrow> py_error + (bool \<times> sched \<times> kstep)" where
  "make_room D x n (s, k) =
     (if can_append (obj x s) n (s_bm s) then Inr (True, s, k)
      else case pick_victim (k_ids k) x s of
        None \<Rightarrow> rbind (sched_preempt D x (s, k)) (\<lambda>(s', k'). Inr (False, s', k'))
      | Some v \<Rightarrow> rbind (sched_preempt D v (s, k)) (\<lambda>sk. make_room D x n sk))"
  by pat_completeness auto
termination
  by (relation "measure (\<lambda>(D, x, n, s, k). length (s_running s))")
     (auto dest!: pick_victim_in intro: sched_preempt_shrinks)

section \<open>The step\<close>

definition publish_running :: "digest \<Rightarrow> sched \<Rightarrow> py_error + sched" where
  "publish_running D s =
     rfold (\<lambda>x s. rbind (publish_computed_blocks D (obj x s) (s_bm s)) (\<lambda>(_, m). Inr (s\<lparr>s_bm := m\<rparr>)))
       (s_running s) s"

text \<open>\<open>_schedule_running\<close>, over a snapshot of the running list.\<close>

fun schedule_running :: "digest \<Rightarrow> nat list \<Rightarrow> sched \<times> kstep \<Rightarrow> py_error + (sched \<times> kstep)" where
  "schedule_running D [] sk = Inr sk"
| "schedule_running D (x # xs) (s, k) =
     (if exhausted k then Inr (s, k)
      else if q_status (obj x s) \<noteq> Running then schedule_running D xs (s, k)
      else let n = num_new_tokens_to_compute (k_tokens k) (obj x s) in
        if n \<le> 0 then schedule_running D xs (s, k)
        else if \<not> enable_chunked_prefill (s_config s) \<and> int n < num_uncomputed (obj x s)
          then schedule_running D xs (s, k)
        else rbind (make_room D x n (s, k)) (\<lambda>(ok, sk).
               if \<not> ok then schedule_running D xs sk
               else rbind (emit x n 0 sk) (schedule_running D xs)))"

definition admit :: "nat \<Rightarrow> rat \<Rightarrow> nat \<Rightarrow> bool \<Rightarrow> nat \<Rightarrow> sched \<times> kstep \<Rightarrow> py_error + (sched \<times> kstep)" where
  "admit x timestamp n from_preempted cached = (\<lambda>(s, k).
     rbind (if from_preempted then Inr (s\<lparr>s_preempted := tl (s_preempted s)\<rparr>)
            else rbind (wq_pop (s_waiting s)) (\<lambda>(_, w). Inr (s\<lparr>s_waiting := w\<rparr>))) (\<lambda>s.
     let q = (obj x s)\<lparr>q_status := Running\<rparr>;
         q' = (if t_first_scheduled (q_timing q) = None
               then q\<lparr>q_timing := (q_timing q)\<lparr>t_first_scheduled := Some timestamp\<rparr>\<rparr> else q)
     in emit x n cached
          ((put x q' s)\<lparr>s_running := s_running s @ [x], s_num_admitted := s_num_admitted s + 1\<rparr>,
           k\<lparr>k_cached := k_cached k + cached\<rparr>)))"

lemma emit_budget: "emit x n c (s, k) = Inr (s', k') \<Longrightarrow> k_seqs k' = k_seqs k - 1"
  by (auto simp: emit_def Let_def)

lemma admit_budget: "admit x t n b c (s, k) = Inr (s', k') \<Longrightarrow> k_seqs k' = k_seqs k - 1"
  by (auto simp: admit_def Let_def dest!: emit_budget split: if_splits)

function schedule_admissions :: "digest \<Rightarrow> rat \<Rightarrow> sched \<times> kstep \<Rightarrow> py_error + (sched \<times> kstep)" where
  "schedule_admissions D timestamp (s, k) =
     (if exhausted k then Inr (s, k)
      else let from_preempted = (s_preempted s \<noteq> []) in
        case (if from_preempted then Some (hd (s_preempted s)) else wq_peek (s_waiting s)) of
          None \<Rightarrow> Inr (s, k)
        | Some x \<Rightarrow>
            if x \<in> k_preempted_now k then Inr (s, k)
            else rbind (can_allocate D (obj x s) (s_bm s)) (\<lambda>ok.
              if \<not> ok then Inr (s, k)
              else rbind (bm_allocate D (obj x s) (s_bm s)) (\<lambda>(cached, q, m).
                let s1 = put x q (s\<lparr>s_bm := m\<rparr>);
                    n = num_new_tokens_to_compute (k_tokens k) q in
                if n \<le> 0 \<or> (\<not> enable_chunked_prefill (s_config s) \<and> int n < num_uncomputed q)
                then rbind (bm_release D q m) (\<lambda>(q', m'). Inr (put x q' (s1\<lparr>s_bm := m'\<rparr>), k))
                else rbind (admit x timestamp n from_preempted cached (s1, k))
                       (schedule_admissions D timestamp))))"
  by pat_completeness auto
termination
  by (relation "measure (\<lambda>(D, t, s, k). nat (k_seqs k))")
     (auto dest!: admit_budget simp: exhausted_def)

definition kstep_init :: "scheduler_config \<Rightarrow> kstep" where
  "kstep_init cfg = \<lparr>k_tokens = int (max_num_batched_tokens cfg), k_seqs = int (max_num_seqs cfg),
     k_ids = {}, k_prefills = [], k_decodes = [], k_preempted_now = {}, k_out_preempted = [],
     k_cached = 0\<rparr>"

definition schedule :: "digest \<Rightarrow> rat \<Rightarrow> sched \<Rightarrow> py_error + (sched_out \<times> sched)" where
  "schedule D timestamp s =
     rbind (publish_running D s) (\<lambda>s.
     rbind (schedule_running D (s_running s) (s, kstep_init (s_config s))) (\<lambda>sk.
     rbind (schedule_admissions D timestamp sk) (\<lambda>(s, k).
     let pt = sum_list (map d_num_new (k_prefills k)); dt = sum_list (map d_num_new (k_decodes k)) in
     Inr (\<lparr>out_scheduled = k_prefills k @ k_decodes k, out_preempted = k_out_preempted k,
           out_prefill_tokens = pt, out_decode_tokens = dt,
           out_prefill_seqs = length (k_prefills k), out_decode_seqs = length (k_decodes k),
           out_cached = k_cached k\<rparr>,
          s\<lparr>s_num_steps := s_num_steps s + 1,
            s_num_prefill_tokens := s_num_prefill_tokens s + pt,
            s_num_decode_tokens := s_num_decode_tokens s + dt,
            s_num_cached_tokens := s_num_cached_tokens s + k_cached k\<rparr>))))"

section \<open>The self check\<close>

definition status_check :: "seq_status \<Rightarrow> bool \<Rightarrow> nat list \<Rightarrow> sched \<Rightarrow> py_error + unit" where
  "status_check st no_blocks xs s =
     rguard (list_ex (\<lambda>x. q_status (obj x s) \<noteq> st \<or> (no_blocks \<and> q_table (obj x s) \<noteq> [])) xs) ValueError"

definition sched_check :: "sched \<Rightarrow> py_error + unit" where
  "sched_check s =
     rbind (bm_check (s_bm s)) (\<lambda>_.
     rbind (status_check Running False (s_running s) s) (\<lambda>_.
     rbind (status_check Preempted True (s_preempted s) s) (\<lambda>_.
     rbind (status_check Waiting False (wq_items (s_waiting s)) s) (\<lambda>_.
     rbind (rguard (card (set (s_running s @ s_preempted s @ wq_items (s_waiting s)))
                    \<noteq> card (dom (s_by_request s))) ValueError) (\<lambda>_.
     rguard (\<exists>r \<in> dom (s_by_request s). num_tokens (obj (the (s_by_request s r)) s)
               < q_computed (obj (the (s_by_request s r)) s)) ValueError)))))"

end
