(* ===== verification/Scheduler_Inv.thy ===== *)
theory Scheduler_Inv
  imports Scheduler
begin

text \<open>
  The scheduler's invariant, stated over the parts of its state an operation touches: block
  manager \<open>m\<close>, store \<open>S\<close>, running list \<open>R\<close>, preempted list \<open>P\<close>, waiting set \<open>W\<close>.
  One lemma per block-manager call lifts the manager's guarantee to all sequences at once.
\<close>

section \<open>References and roles\<close>

type_synonym store = "nat \<rightharpoonup> seqn"

definition refs :: "store \<Rightarrow> nat list \<Rightarrow> nat multiset" where
  "refs S xs = mset (concat (map (\<lambda>x. q_table (the (S x))) xs))"

definition live :: "digest \<Rightarrow> bman \<Rightarrow> store \<Rightarrow> nat \<Rightarrow> bool" where
  "live D m S x \<longleftrightarrow> (\<exists>q. S x = Some q \<and> q_id q = x \<and> seq_sane q \<and> q_status q = Running
     \<and> bm_state m x \<noteq> None \<and> seq_held D m q)"

definition idle :: "seq_status \<Rightarrow> bman \<Rightarrow> store \<Rightarrow> nat \<Rightarrow> bool" where
  "idle st m S x \<longleftrightarrow> (\<exists>q. S x = Some q \<and> q_id q = x \<and> seq_sane q \<and> q_status q = st
     \<and> q_table q = [] \<and> q_computed q = 0 \<and> bm_state m x = None)"

definition core :: "digest \<Rightarrow> bman \<Rightarrow> store \<Rightarrow> nat list \<Rightarrow> nat list \<Rightarrow> nat set \<Rightarrow> bool" where
  "core D m S R P W \<longleftrightarrow> bm_inv (refs S R) m \<and> distinct (R @ P) \<and> W \<inter> set (R @ P) = {}
     \<and> (\<forall>x \<in> set R. live D m S x) \<and> (\<forall>x \<in> set P. idle Preempted m S x)
     \<and> (\<forall>x \<in> W. idle Waiting m S x) \<and> (\<forall>x. bm_state m x \<noteq> None \<longrightarrow> x \<in> set R)"

lemma refs_nil [simp]: "refs S [] = {#}"
  by (simp add: refs_def)

lemma refs_cons [simp]: "refs S (x # xs) = mset (q_table (the (S x))) + refs S xs"
  by (simp add: refs_def)

lemma refs_append [simp]: "refs S (xs @ ys) = refs S xs + refs S ys"
  by (simp add: refs_def)

lemma refs_split: "x \<in> set xs \<Longrightarrow> refs S xs = refs S (remove1 x xs) + mset (q_table (the (S x)))"
  by (induction xs) auto

lemma refs_other: "x \<notin> set xs \<Longrightarrow> refs (S(x := v)) xs = refs S xs"
  by (induction xs) auto

lemma refs_member: "y \<in> set xs \<Longrightarrow> mset (q_table (the (S y))) \<subseteq># refs S xs"
  using refs_split by (metis mset_subset_eq_add_right)

lemma live_frame:
  assumes "live D m S y" "frame F x m m'" "y \<noteq> x" "mset (q_table (the (S y))) \<subseteq># F" "S' y = S y"
  shows "live D m' S' y"
proof -
  obtain q where q: "S y = Some q" "q_id q = y" "seq_sane q" "q_status q = Running"
      "bm_state m y \<noteq> None" "seq_held D m q"
    using assms(1) by (auto simp: live_def)
  have "seq_held D m' q" using seq_held_frame [OF assms(2)] q assms(3,4) by simp
  moreover have "bm_state m' y = bm_state m y" using assms(2,3) by (simp add: frame_def)
  ultimately show ?thesis using q assms(5) by (simp add: live_def)
qed

lemma idle_frame:
  "idle st m S y \<Longrightarrow> frame F x m m' \<Longrightarrow> y \<noteq> x \<Longrightarrow> S' y = S y \<Longrightarrow> idle st m' S' y"
  by (auto simp: idle_def frame_def)

lemma core_apart: "core D m S R P W \<Longrightarrow> x \<in> set R \<Longrightarrow> (y \<in> set P \<longrightarrow> y \<noteq> x) \<and> (y \<in> W \<longrightarrow> y \<noteq> x)"
  by (auto simp: core_def)

text \<open>What an operation on \<open>x\<close> leaves intact.\<close>

lemma core_others:
  assumes c: "core D m S R P W" and f: "frame (refs S (remove1 x R)) x m m'"
    and S': "\<And>y. y \<noteq> x \<Longrightarrow> S' y = S y"
  shows "\<And>y. y \<in> set R \<Longrightarrow> y \<noteq> x \<Longrightarrow> live D m' S' y"
    "\<And>y. y \<in> set P \<Longrightarrow> y \<noteq> x \<Longrightarrow> idle Preempted m' S' y"
    "\<And>y. y \<in> W \<Longrightarrow> y \<noteq> x \<Longrightarrow> idle Waiting m' S' y"
    "\<And>y. bm_state m' y \<noteq> None \<Longrightarrow> y \<noteq> x \<Longrightarrow> y \<in> set R"
proof -
  fix y
  show "y \<in> set R" if "bm_state m' y \<noteq> None" "y \<noteq> x"
    using c f that by (simp add: core_def frame_def)
  show "live D m' S' y" if "y \<in> set R" "y \<noteq> x"
  proof (rule live_frame [OF _ f])
    have "y \<in> set (remove1 x R)" using that by simp
    then show "mset (q_table (the (S y))) \<subseteq># refs S (remove1 x R)" by (rule refs_member)
  qed (use that c S' in \<open>auto simp: core_def\<close>)
  show "idle Preempted m' S' y" if "y \<in> set P" "y \<noteq> x"
  proof -
    have "idle Preempted m S y" using c that(1) by (simp add: core_def)
    then show ?thesis using f that(2) S' [OF that(2)] by (rule idle_frame)
  qed
  show "idle Waiting m' S' y" if "y \<in> W" "y \<noteq> x"
  proof -
    have "idle Waiting m S y" using c that(1) by (simp add: core_def)
    then show ?thesis using f that(2) S' [OF that(2)] by (rule idle_frame)
  qed
qed

lemma refs_rest: "distinct R \<Longrightarrow> refs (S(x := v)) (remove1 x R) = refs S (remove1 x R)"
  by (intro refs_other) (simp add: distinct_remove1_removeAll)

lemma liveE:
  assumes "core D m S R P W" "x \<in> set R"
  obtains q where "S x = Some q" "q_id q = x" "seq_sane q" "q_status q = Running"
    "bm_state m x \<noteq> None" "seq_held D m q" "bm_inv (refs S (remove1 x R) + mset (q_table q)) m"
proof -
  obtain q where q: "S x = Some q" "q_id q = x" "seq_sane q" "q_status q = Running"
      "bm_state m x \<noteq> None" "seq_held D m q"
    using assms by (auto simp: core_def live_def)
  moreover have "bm_inv (refs S (remove1 x R) + mset (q_table q)) m"
    using assms refs_split [OF assms(2), of S] q(1) by (simp add: core_def)
  ultimately show thesis by (rule that)
qed

lemma seq_held_cong:
  assumes "q_id q' = q_id q" "q_table q' = q_table q" "q_computed q' = q_computed q"
    "q_lora q' = q_lora q" "token_ids q' = token_ids q"
  shows "seq_held D m q' = seq_held D m q"
proof -
  have ch: "chain_of D b q' = chain_of D b q" for b using assms by (simp add: chain_of_def fun_eq_iff)
  show ?thesis unfolding seq_held_def ch assms(1-3) ..
qed

section \<open>One lemma per block-manager call\<close>

lemma core_publish:
  assumes c: "core D m S R P W" and x: "x \<in> set R"
  shows "\<exists>n m'. publish_computed_blocks D (the (S x)) m = Inr (n, m') \<and> core D m' S R P W
     \<and> frame (refs S (remove1 x R)) x m m'"
proof -
  from c x obtain q where q: "S x = Some q" "q_id q = x" "seq_sane q" "q_status q = Running"
      "bm_state m x \<noteq> None" "seq_held D m q" "bm_inv (refs S (remove1 x R) + mset (q_table q)) m"
    by (rule liveE)
  obtain n m' where p: "publish_computed_blocks D q m = Inr (n, m')"
      "bm_inv (refs S (remove1 x R) + mset (q_table q)) m'" "seq_held D m' q"
      "frame (refs S (remove1 x R)) x m m'" "bm_state m' x \<noteq> None"
    using publish_ok [OF q(7,6,3)] q(2,5) by auto
  have "live D m' S x" using p q by (simp add: live_def)
  then have "live D m' S y" if "y \<in> set R" for y
    using core_others(1) [OF c p(4), of S] that by (cases "y = x") simp_all
  moreover have "bm_inv (refs S R) m'" using p(2) refs_split [OF x, of S] q(1) by simp
  moreover have "y \<in> set R" if "bm_state m' y \<noteq> None" for y
    using core_others(4) [OF c p(4), of S y] that x by (cases "y = x") simp_all
  ultimately have "core D m' S R P W"
    using c core_others(2,3) [OF c p(4), of S] core_apart [OF c x] unfolding core_def by simp
  then show ?thesis using p q by auto
qed

lemma core_preempt:
  assumes c: "core D m S R P W" and x: "x \<in> set R"
  shows "\<exists>m'. bm_preempt D (the (S x)) m = Inr (reset_for_recompute (the (S x)), m')
     \<and> core D m' (S(x \<mapsto> reset_for_recompute (the (S x)))) (remove1 x R) (P @ [x]) W
     \<and> frame (refs S (remove1 x R)) x m m'"
proof -
  from c x obtain q where q: "S x = Some q" "q_id q = x" "seq_sane q" "q_status q = Running"
      "bm_state m x \<noteq> None" "seq_held D m q" "bm_inv (refs S (remove1 x R) + mset (q_table q)) m"
    by (rule liveE)
  obtain m' where p: "bm_preempt D q m = Inr (reset_for_recompute q, m')"
      "bm_inv (refs S (remove1 x R)) m'" "frame (refs S (remove1 x R)) x m m'" "bm_state m' x = None"
    using preempt_ok [OF q(7,6,3)] q(2) by auto
  let ?S = "S(x \<mapsto> reset_for_recompute q)"
  have "seq_sane (reset_for_recompute q)"
    using q(3,4) reset_for_recompute_wf [of q]
    by (auto simp: seq_sane_def is_finished_def reset_for_recompute_def token_ids_def)
  then have "idle Preempted m' ?S x"
    using q p(4) by (simp add: idle_def reset_for_recompute_def)
  moreover have "refs ?S (remove1 x R) = refs S (remove1 x R)" using c refs_rest by (simp add: core_def)
  moreover have "y \<noteq> x \<and> y \<in> set R" if "bm_state m' y \<noteq> None" for y
    using core_others(4) [OF c p(3), of S y] that p(4) by (cases "y = x") auto
  ultimately have "core D m' ?S (remove1 x R) (P @ [x]) W"
    using c p(2) core_others [OF c p(3), of ?S] x core_apart [OF c x]
    unfolding core_def by (auto simp: distinct_remove1_removeAll distinct_removeAll)
  then show ?thesis using p q by auto
qed

text \<open>Freeing a finished sequence takes it out of the running set.\<close>

lemma core_free:
  assumes c: "core D m S R P W" and x: "x \<in> set R" and q': "q' = seq_finish r now st (the (S x))"
  shows "\<exists>m'. bm_free D q' m = Inr (q'\<lparr>q_table := []\<rparr>, m')
     \<and> core D m' (S(x \<mapsto> q'\<lparr>q_table := []\<rparr>)) (remove1 x R) P W \<and> frame (refs S (remove1 x R)) x m m'"
proof -
  from c x obtain q where q: "S x = Some q" "q_id q = x" "seq_sane q" "q_status q = Running"
      "bm_state m x \<noteq> None" "seq_held D m q" "bm_inv (refs S (remove1 x R) + mset (q_table q)) m"
    by (rule liveE)
  have f: "q_table q' = q_table q" "q_id q' = x" "token_ids q' = token_ids q" "q_lora q' = q_lora q"
      "q_computed q' = q_computed q"
    using q q' by (simp_all add: token_ids_def)
  have sane: "seq_sane q'"
    using q(1,3) q' seq_finish_wf f(3,4) by (simp add: seq_sane_def)
  have held: "seq_held D m q'" using seq_held_cong [of q' q D m] q(2,6) f by simp
  have "bm_inv (refs S (remove1 x R) + mset (q_table q')) m" using q(7) f by simp
  then obtain m' where p: "bm_free D q' m = Inr (q'\<lparr>q_table := []\<rparr>, m')" "bm_inv (refs S (remove1 x R)) m'"
      "frame (refs S (remove1 x R)) x m m'" "bm_state m' x = None"
    using free_ok [OF _ held sane] f(2) by metis
  let ?S = "S(x \<mapsto> q'\<lparr>q_table := []\<rparr>)"
  have "refs ?S (remove1 x R) = refs S (remove1 x R)" using c refs_rest by (simp add: core_def)
  moreover have "y \<noteq> x \<and> y \<in> set R" if "bm_state m' y \<noteq> None" for y
    using core_others(4) [OF c p(3), of S y] that p(4) by (cases "y = x") auto
  ultimately have "core D m' ?S (remove1 x R) P W"
    using c p(2) core_others [OF c p(3), of ?S] x core_apart [OF c x]
    unfolding core_def by (auto simp: distinct_remove1_removeAll distinct_removeAll)
  then show ?thesis using p by blast
qed

text \<open>Freeing a sequence that holds nothing changes nothing.\<close>

lemma core_free_idle:
  assumes c: "core D m S R P W" and x: "x \<in> set P \<union> W" and q': "q' = seq_finish r now st (the (S x))"
  shows "bm_free D q' m = Inr (q', m) \<and> core D m (S(x \<mapsto> q')) R (remove1 x P) (W - {x})"
proof -
  obtain st' where "idle st' m S x" using c x by (auto simp: core_def)
  then obtain q where q: "S x = Some q" "q_id q = x" "q_table q = []" "bm_state m x = None"
    by (auto simp: idle_def)
  have "bm_free D q' m = Inr (q', m)" using q q' by (intro free_again) auto
  moreover
  have nR: "x \<notin> set R" using c x by (auto simp: core_def)
  then have "remove1 x R = R" by (simp add: remove1_idem)
  then have "core D m (S(x \<mapsto> q')) R (remove1 x P) (W - {x})"
    using c core_others [OF c, of x m "S(x \<mapsto> q')"] nR refs_other [OF nR]
    unfolding core_def by (auto simp: distinct_remove1_removeAll distinct_removeAll)
  ultimately show ?thesis by blast
qed

text \<open>Admission: the cached prefix is adopted and the sequence runs.\<close>

lemma held_any_status: "seq_held D m (q\<lparr>q_status := st, q_timing := t\<rparr>) = seq_held D m q"
  by (rule seq_held_cong) (simp_all add: token_ids_def)

definition same_seq :: "seqn \<Rightarrow> seqn \<Rightarrow> bool" where
  "same_seq q q' \<longleftrightarrow> q_id q' = q_id q \<and> q_request q' = q_request q \<and> q_prompt q' = q_prompt q
     \<and> q_output q' = q_output q \<and> q_tenant q' = q_tenant q \<and> q_lora q' = q_lora q
     \<and> q_priority q' = q_priority q \<and> q_sampling q' = q_sampling q
     \<and> q_preemptions q \<le> q_preemptions q'"

lemma same_seq_tokens: "same_seq q q' \<Longrightarrow> token_ids q' = token_ids q \<and> num_tokens q' = num_tokens q"
  by (simp add: same_seq_def token_ids_def num_tokens_def)

lemma same_seq_refl [simp]: "same_seq q q"
  by (simp add: same_seq_def)

lemma same_seq_trans: "same_seq a b \<Longrightarrow> same_seq b c \<Longrightarrow> same_seq a c"
  by (auto simp: same_seq_def)

lemma core_admit:
  assumes c: "core D m S R P W" and x: "x \<in> set P \<union> W"
  shows "\<exists>n q m'. bm_allocate D (the (S x)) m = Inr (n, q, m') \<and> q_computed q = n \<and> n < num_tokens (the (S x))
     \<and> same_seq (the (S x)) q \<and> q_status q = q_status (the (S x))
     \<and> frame (refs S (remove1 x R)) x m m'
     \<and> (\<forall>t. core D m' (S(x \<mapsto> q\<lparr>q_status := Running, q_timing := t\<rparr>)) (R @ [x]) (remove1 x P) (W - {x}))
     \<and> (\<exists>m'' t. bm_release D q m' = Inr ((the (S x))\<lparr>q_timing := t\<rparr>, m'')
          \<and> core D m'' (S(x \<mapsto> (the (S x))\<lparr>q_timing := t\<rparr>)) R P W \<and> frame (refs S (remove1 x R)) x m m'')"
proof -
  obtain st where st: "st = Preempted \<or> st = Waiting" "idle st m S x"
    using c x unfolding core_def by (metis Un_iff)
  then obtain q0 where q0: "S x = Some q0" "q_id q0 = x" "seq_sane q0" "q_status q0 = st" "q_table q0 = []"
      "q_computed q0 = 0" "bm_state m x = None"
    by (auto simp: idle_def)
  have nR: "x \<notin> set R" using c x by (auto simp: core_def)
  then have rR: "remove1 x R = R" by (simp add: remove1_idem)
  have inv: "bm_inv (refs S R) m" using c by (simp add: core_def)
  obtain t m' where a: "bm_allocate D q0 m = Inr (length t * bm_block_size m, admit_prefix (length t * bm_block_size m) t q0, m')"
    and lt: "length t * bm_block_size m < num_tokens q0" and inv': "bm_inv (refs S R + mset t) m'"
    and held: "seq_held D m' (admit_prefix (length t * bm_block_size m) t q0)"
    and fr: "frame (refs S R) (q_id q0) m m'" and bs: "bm_state m' (q_id q0) \<noteq> None"
    using allocate_ok [OF inv q0(3,5), of D] by (elim exE conjE) (rule that; assumption)
  let ?n = "length t * bm_block_size m" and ?q = "admit_prefix (length t * bm_block_size m) t q0"
  have fr': "frame (refs S (remove1 x R)) x m m'" using fr q0(2) rR by simp
  have same: "same_seq q0 ?q" by (simp add: same_seq_def admit_prefix_def)
  have sane: "seq_sane ?q"
    using q0(3) lt by (simp add: seq_sane_def seq_wf_def)
  have run: "core D m' (S(x \<mapsto> ?q\<lparr>q_status := Running, q_timing := tm\<rparr>)) (R @ [x]) (remove1 x P) (W - {x})" for tm
  proof -
    let ?q' = "?q\<lparr>q_status := Running, q_timing := tm\<rparr>" and ?S = "S(x \<mapsto> ?q\<lparr>q_status := Running, q_timing := tm\<rparr>)"
    have "seq_held D m' ?q'" using held held_any_status by blast
    moreover have "q_reason ?q = None" using sane st(1) q0(3,4) by (auto simp: seq_sane_def seq_wf_def)
    then have "seq_sane ?q'"
      using sane by (simp add: seq_sane_def seq_wf_def token_ids_def num_tokens_def)
    ultimately have "live D m' ?S x" using q0(2) bs by (simp add: live_def)
    moreover have "refs ?S (R @ [x]) = refs S R + mset t" using nR by (simp add: refs_other)
    moreover have "y \<in> set (R @ [x])" if "bm_state m' y \<noteq> None" for y
      using core_others(4) [OF c fr', of S y] that by auto
    ultimately show ?thesis
      using c inv' core_others [OF c fr', of ?S] nR x
      unfolding core_def by (auto simp: distinct_remove1_removeAll distinct_removeAll)
  qed
  have "bm_inv (refs S R + mset (q_table ?q)) m'" using inv' by simp
  then obtain m'' where r: "bm_release D ?q m' = Inr (?q\<lparr>q_table := [], q_computed := 0,
       q_timing := (q_timing ?q)\<lparr>num_cached_prompt_tokens := 0\<rparr>\<rparr>, m'')" "bm_inv (refs S R) m''"
      "frame (refs S R) x m' m''" "bm_state m'' x = None"
    using release_ok [OF _ held sane] q0(2) by fastforce
  let ?t = "(q_timing q0)\<lparr>num_cached_prompt_tokens := 0\<rparr>"
  let ?S = "S(x \<mapsto> q0\<lparr>q_timing := ?t\<rparr>)"
  have eq: "?q\<lparr>q_table := [], q_computed := 0, q_timing := (q_timing ?q)\<lparr>num_cached_prompt_tokens := 0\<rparr>\<rparr>
      = q0\<lparr>q_timing := ?t\<rparr>"
    using q0(5,6) by (cases q0) (simp add: admit_prefix_def)
  have fr'': "frame (refs S (remove1 x R)) x m m''"
    using frame_trans fr' r(3) rR by metis
  have "idle st m'' ?S x"
    using q0 r(4) by (simp add: idle_def seq_sane_def seq_wf_def num_tokens_def token_ids_def)
  have oth: "live D m'' ?S y" if "y \<in> set R" for y
  proof -
    have "y \<noteq> x" using that nR by blast
    then show ?thesis using core_others(1) [OF c fr'', of ?S] that by simp
  qed
  have idl: "idle st m'' ?S x" by fact
  have pre: "idle Preempted m'' ?S y" if "y \<in> set P" for y
  proof (cases "y = x")
    case True
    then have "st = Preempted" using c that q0 by (auto simp: core_def idle_def)
    then show ?thesis using idl True by simp
  next
    case False
    then show ?thesis using core_others(2) [OF c fr'', of ?S] that by simp
  qed
  have wai: "idle Waiting m'' ?S y" if "y \<in> W" for y
  proof (cases "y = x")
    case True
    then have "st = Waiting" using c that q0 by (auto simp: core_def idle_def)
    then show ?thesis using idl True by simp
  next
    case False
    then show ?thesis using core_others(3) [OF c fr'', of ?S] that by simp
  qed
  have "refs ?S R = refs S R" using nR by (simp add: refs_other)
  moreover have "y \<in> set R" if "bm_state m'' y \<noteq> None" for y
    using core_others(4) [OF c fr'', of S y] that r(4) by (cases "y = x") auto
  ultimately have c'': "core D m'' ?S R P W"
    using c r(2) oth pre wai unfolding core_def by simp
  have S: "the (S x) = q0" using q0(1) by simp
  have rel: "bm_release D ?q m' = Inr (q0\<lparr>q_timing := ?t\<rparr>, m'')" using r(1) eq by (simp only:)
  show ?thesis
    unfolding S
  proof (rule exI [of _ ?n], rule exI [of _ ?q], rule exI [of _ m'], intro conjI allI)
    show "bm_allocate D q0 m = Inr (?n, ?q, m')" by (rule a)
    show "?n < num_tokens q0" by (rule lt)
    show "same_seq q0 ?q" by (rule same)
    show "frame (refs S (remove1 x R)) x m m'" by (rule fr')
    show "core D m' (S(x \<mapsto> ?q\<lparr>q_status := Running, q_timing := t\<rparr>)) (R @ [x]) (remove1 x P) (W - {x})" for t
      by (rule run)
    show "\<exists>m'' t. bm_release D ?q m' = Inr (q0\<lparr>q_timing := t\<rparr>, m'')
          \<and> core D m'' (S(x \<mapsto> q0\<lparr>q_timing := t\<rparr>)) R P W \<and> frame (refs S (remove1 x R)) x m m''"
      using rel c'' fr'' by (intro exI [of _ m''] exI [of _ ?t] conjI)
  qed simp_all
qed

end
