(* ===== verification/Scheduler_Step.thy ===== *)
theory Scheduler_Step
  imports Scheduler_Inv
begin

text \<open>
  One call of \<open>schedule\<close>: it returns, it keeps the scheduler's invariant, and the batch it
  describes is safe to run. \<open>item_ok\<close> is what a scheduled item promises about the pool;
  every later preemption, admission and emission of the same step keeps it for the items
  already in the batch.
\<close>

section \<open>What a scheduled item promises\<close>

definition item_start :: "ssched \<Rightarrow> nat" where
  "item_start d = d_context_len d - d_num_new d"

definition item_ok :: "bman \<Rightarrow> store \<Rightarrow> ssched \<Rightarrow> bool" where
  "item_ok m S d \<longleftrightarrow>
     (let q = the (S (d_seq d)); bs = bm_block_size m; t = d_block_table d in
      1 \<le> d_num_new d \<and> d_num_new d \<le> d_context_len d
      \<and> d_context_len d = q_computed q \<and> q_computed q \<le> num_tokens q
      \<and> t = q_table q \<and> d_context_len d \<le> length t * bs
      \<and> d_slots d = map (slot_at bs t) [item_start d..<d_context_len d]
      \<and> d_token_ids d = take (d_num_new d) (drop (item_start d) (token_ids q))
      \<and> (\<forall>i < length t. item_start d div bs \<le> i \<longrightarrow> c_by_block (bm_cache m) (t ! i) = None)
      \<and> (d_is_prefill d \<longleftrightarrow> item_start d < num_prompt_tokens q)
      \<and> (d_is_chunk d \<longleftrightarrow> d_is_prefill d \<and> d_context_len d < num_prompt_tokens q))"

lemma item_frame:
  assumes ok: "item_ok m S d" and f: "frame F x m m'" and "d_seq d \<noteq> x"
    and sub: "mset (q_table (the (S (d_seq d)))) \<subseteq># F" and S': "S' (d_seq d) = S (d_seq d)"
  shows "item_ok m' S' d"
proof -
  have t: "d_block_table d = q_table (the (S (d_seq d)))" using ok by (simp add: item_ok_def Let_def)
  have "d_block_table d ! i \<in># F" if "i < length (d_block_table d)" for i
    using sub that unfolding t by (meson mset_subset_eqD nth_mem_mset)
  then have "c_by_block (bm_cache m') (d_block_table d ! i) = c_by_block (bm_cache m) (d_block_table d ! i)"
    if "i < length (d_block_table d)" for i
    using f that by (simp add: frame_def)
  then have cb: "i < length (q_table (the (S (d_seq d)))) \<Longrightarrow>
      c_by_block (bm_cache m') (q_table (the (S (d_seq d))) ! i) = c_by_block (bm_cache m) (q_table (the (S (d_seq d))) ! i)" for i
    unfolding t .
  have "bm_block_size m' = bm_block_size m" using f by (simp add: frame_def)
  then show ?thesis using ok S' cb by (auto simp: item_ok_def Let_def)
qed

section \<open>What a step keeps\<close>

text \<open>Nothing is lost, and no request changes its identity.\<close>

definition everyone :: "sched \<Rightarrow> nat set" where
  "everyone s = set (s_running s) \<union> set (s_preempted s) \<union> set (wq_items (s_waiting s))"

definition tenant_of :: "sched \<Rightarrow> nat \<Rightarrow> string" where
  "tenant_of s x = q_tenant (obj x s)"

definition queue_ok :: "sched \<Rightarrow> bool" where
  "queue_ok s \<longleftrightarrow> wq_inv (tenant_of s) (s_waiting s) \<and> distinct (wq_items (s_waiting s))"

definition world :: "sched \<Rightarrow> sched \<Rightarrow> bool" where
  "world s s' \<longleftrightarrow> s_config s' = s_config s \<and> s_by_request s' = s_by_request s
     \<and> s_counter s' = s_counter s \<and> everyone s' = everyone s
     \<and> (\<forall>x. same_seq (obj x s) (obj x s'))
     \<and> bm_block_size (s_bm s') = bm_block_size (s_bm s)
     \<and> a_num_blocks (bm_alloc (s_bm s')) = a_num_blocks (bm_alloc (s_bm s))
     \<and> s_num_finished s' = s_num_finished s"

lemma world_refl [simp]: "world s s"
  by (simp add: world_def)

lemma world_trans: "world s s' \<Longrightarrow> world s' s'' \<Longrightarrow> world s s''"
  by (auto simp: world_def intro: same_seq_trans)

lemma world_tenant: "world s s' \<Longrightarrow> tenant_of s' = tenant_of s"
  by (simp add: world_def tenant_of_def same_seq_def fun_eq_iff)

abbreviation score :: "digest \<Rightarrow> sched \<Rightarrow> bool" where
  "score D s \<equiv> core D (s_bm s) (s_seqs s) (s_running s) (s_preempted s) (set (wq_items (s_waiting s)))"

abbreviation items :: "kstep \<Rightarrow> ssched list" where
  "items k \<equiv> k_prefills k @ k_decodes k"

definition kinv :: "digest \<Rightarrow> nat \<Rightarrow> nat \<Rightarrow> sched \<Rightarrow> kstep \<Rightarrow> bool" where
  "kinv D T Q s k \<longleftrightarrow> score D s \<and> queue_ok s
     \<and> (\<forall>d \<in> set (items k). item_ok (s_bm s) (s_seqs s) d \<and> d_seq d \<in> set (s_running s))
     \<and> distinct (map d_seq (items k)) \<and> k_ids k = d_seq ` set (items k)
     \<and> int (sum_list (map d_num_new (items k))) + k_tokens k = int T \<and> 0 \<le> k_tokens k
     \<and> int (length (items k)) + k_seqs k = int Q \<and> 0 \<le> k_seqs k
     \<and> (\<forall>d \<in> set (k_prefills k). d_is_prefill d) \<and> (\<forall>d \<in> set (k_decodes k). \<not> d_is_prefill d)
     \<and> k_preempted_now k = set (k_out_preempted k) \<and> set (k_out_preempted k) \<subseteq> set (s_preempted s)"

lemma items_frame:
  assumes ok: "\<forall>d \<in> set (items k). item_ok m S d \<and> d_seq d \<in> set R"
    and f: "frame (refs S (remove1 x R)) x m m'" and x: "x \<notin> d_seq ` set (items k)"
    and S': "\<And>y. y \<noteq> x \<Longrightarrow> S' y = S y"
  shows "\<forall>d \<in> set (items k). item_ok m' S' d \<and> d_seq d \<in> set (remove1 x R)"
proof
  fix d assume d: "d \<in> set (items k)"
  have ne: "d_seq d \<noteq> x" using d x by blast
  then have mem: "d_seq d \<in> set (remove1 x R)" using ok d by simp
  have "item_ok m S d" using ok d by blast
  then have "item_ok m' S' d"
    using f ne refs_member [OF mem, of S] S' [OF ne] by (rule item_frame)
  then show "item_ok m' S' d \<and> d_seq d \<in> set (remove1 x R)" using mem by blast
qed

lemma set_remove1_mem: "y \<in> set (remove1 x xs) \<Longrightarrow> y \<in> set xs"
  using set_remove1_subset by fast

lemma obj_put [simp]: "obj y (put x q s) = (if y = x then q else obj y s)"
  by (simp add: obj_def put_def)

lemma put_fields [simp]:
  "s_bm (put x q s) = s_bm s" "s_running (put x q s) = s_running s" "s_preempted (put x q s) = s_preempted s"
  "s_waiting (put x q s) = s_waiting s" "s_config (put x q s) = s_config s"
  "s_by_request (put x q s) = s_by_request s" "s_seqs (put x q s) = (s_seqs s)(x \<mapsto> q)"
  "s_counter (put x q s) = s_counter s" "s_num_finished (put x q s) = s_num_finished s"
  by (simp_all add: put_def)

lemma obj_updates [simp]:
  "obj x (s\<lparr>s_bm := m\<rparr>) = obj x s" "obj x (s\<lparr>s_running := r\<rparr>) = obj x s"
  "obj x (s\<lparr>s_preempted := r\<rparr>) = obj x s" "obj x (s\<lparr>s_waiting := w\<rparr>) = obj x s"
  "obj x (s\<lparr>s_num_admitted := n\<rparr>) = obj x s" "obj x (s\<lparr>s_num_preemptions := n\<rparr>) = obj x s"
  "obj x (s\<lparr>s_num_finished := n\<rparr>) = obj x s" "obj x (s\<lparr>s_by_request := br\<rparr>) = obj x s"
  by (simp_all add: obj_def)

text \<open>A running sequence is replaced by one that is as good, with the pool it needs.\<close>

lemma core_replace:
  assumes c: "core D m S R P W" and x: "x \<in> set R" and fr: "frame (refs S (remove1 x R)) x m m'"
    and inv: "bm_inv (refs S (remove1 x R) + mset (q_table q)) m'" and st: "bm_state m' x \<noteq> None"
    and q: "q_id q = x" "seq_sane q" "q_status q = Running" "seq_held D m' q"
  shows "core D m' (S(x \<mapsto> q)) R P W"
proof -
  let ?S = "S(x \<mapsto> q)"
  have "live D m' ?S x" using q st by (simp add: live_def)
  then have "live D m' ?S y" if "y \<in> set R" for y
    using core_others(1) [OF c fr, of ?S] that by (cases "y = x") simp_all
  moreover have "refs ?S R = refs S (remove1 x R) + mset (q_table q)"
    using refs_split [OF x, of ?S] c refs_rest [of R S x] by (simp add: core_def)
  moreover have "y \<in> set R" if "bm_state m' y \<noteq> None" for y
    using core_others(4) [OF c fr, of "S" y] that x by (cases "y = x") simp_all
  ultimately show ?thesis
    using c inv core_others(2,3) [OF c fr, of ?S] core_apart [OF c x] unfolding core_def by simp
qed

section \<open>Emission\<close>

lemma core_append:
  assumes c: "core D m S R P W" and x: "x \<in> set R" and can: "can_append (the (S x)) n m" and n: "1 \<le> n"
  shows "\<exists>t m'. let q = the (S x); q1 = q\<lparr>q_table := t\<rparr>; q2 = q1\<lparr>q_computed := q_computed q + n\<rparr>; bs = bm_block_size m in
      append_slots q (int n) m = Inr (map (slot_at bs t) [q_computed q..<q_computed q + n], q1, m')
      \<and> q_computed q + n \<le> num_tokens q
      \<and> tokens_in_range (int (q_computed q)) (int (q_computed q + n)) q1
          = Inr (take n (drop (q_computed q) (token_ids q)))
      \<and> advance_computed (int n) q1 = Inr (q_computed q + n, q2)
      \<and> core D m' (S(x \<mapsto> q2)) R P W \<and> frame (refs S (remove1 x R)) x m m'
      \<and> q_computed q + n \<le> length t * bs
      \<and> (\<forall>i < length t. q_computed q div bs \<le> i \<longrightarrow> c_by_block (bm_cache m') (t ! i) = None)"
proof -
  from c x obtain q' where q: "S x = Some q'" "q_id q' = x" "seq_sane q'" "q_status q' = Running"
      "bm_state m x \<noteq> None" "seq_held D m q'" "bm_inv (refs S (remove1 x R) + mset (q_table q')) m"
    by (rule liveE)
  have qq: "the (S x) = q'" using q(1) by simp
  have bs: "0 < bm_block_size m" using q(7) by (simp add: bm_inv_def)
  have can': "can_append q' n m" using can q(1) by simp
  have st: "bm_state m (q_id q') \<noteq> None" using q(2,5) by simp
  obtain fresh m' where a: "append_slots q' (int n) m
        = Inr (map (slot_at (bm_block_size m) (q_table q' @ fresh)) [q_computed q'..<q_computed q' + n],
               q'\<lparr>q_table := q_table q' @ fresh\<rparr>, m')"
    and inv: "bm_inv (refs S (remove1 x R) + mset (q_table q' @ fresh)) m'"
    and fr: "frame (refs S (remove1 x R)) (q_id q') m m'"
    and held: "seq_held D m' (q'\<lparr>q_table := q_table q' @ fresh, q_computed := q_computed q' + n\<rparr>)"
    and bst: "bm_state m' = bm_state m"
    and len: "length (q_table q' @ fresh) = max (length (q_table q')) (ceil_div (q_computed q' + n) (bm_block_size m))"
    and unc: "\<forall>i < length (q_table q' @ fresh). q_computed q' div bm_block_size m \<le> i \<longrightarrow>
          c_by_block (bm_cache m') ((q_table q' @ fresh) ! i) = None"
    using append_ok [OF q(7,6,3) st can'] by (elim exE conjE) (rule that; assumption)
  let ?t = "q_table q' @ fresh"
  let ?q1 = "q'\<lparr>q_table := ?t\<rparr>" and ?q2 = "q'\<lparr>q_table := ?t, q_computed := q_computed q' + n\<rparr>"
  have stop: "q_computed q' + n \<le> num_tokens q'"
    using can' by (auto simp: can_append_def Let_def split: if_splits)
  have toks: "tokens_in_range (int (q_computed q')) (int (q_computed q' + n)) ?q1
      = Inr (take n (drop (q_computed q') (token_ids q')))"
    using tokens_in_range_nat [of "q_computed q'" "q_computed q' + n" ?q1] stop
    by (simp add: num_tokens_def token_ids_def del: of_nat_add)
  have adv: "advance_computed (int n) ?q1 = Inr (q_computed q' + n, ?q2)"
    using advance_computed_eq [of ?q1 n] stop by (simp add: num_tokens_def)
  have cover: "q_computed q' + n \<le> length ?t * bm_block_size m"
    using ceil_div_covers [OF bs, of "q_computed q' + n"] len by (metis le_trans max.cobounded2 mult_le_mono1)
  have fr': "frame (refs S (remove1 x R)) x m m'" using fr q(2) by simp
  let ?S = "S(x \<mapsto> ?q2)"
  have "seq_sane ?q2" using q(3) stop by (simp add: seq_sane_def seq_wf_def num_tokens_def token_ids_def)
  then have "core D m' ?S R P W"
    by (intro core_replace [OF c x fr']) (use q inv held bst in simp_all)
  then show ?thesis
    unfolding qq Let_def using a stop toks adv fr' cover unc by (intro exI [of _ ?t] exI [of _ m']) simp
qed

lemma emit_ok:
  assumes k: "kinv D T Q s k" and x: "x \<in> set (s_running s)" "x \<notin> k_ids k"
    and can: "can_append (obj x s) n (s_bm s)" and n: "1 \<le> n" "int n \<le> k_tokens k" and sq: "1 \<le> k_seqs k"
  shows "\<exists>s' k'. emit x n c (s, k) = Inr (s', k') \<and> kinv D T Q s' k' \<and> world s s'
     \<and> s_running s' = s_running s \<and> s_preempted s' = s_preempted s \<and> s_waiting s' = s_waiting s
     \<and> k_ids k' = insert x (k_ids k) \<and> k_preempted_now k' = k_preempted_now k"
proof -
  let ?q = "obj x s" and ?m = "s_bm s" and ?S = "s_seqs s" and ?R = "s_running s"
  let ?bs = "bm_block_size (s_bm s)"
  have sc: "score D s" using k by (simp add: kinv_def)
  obtain t m' where app: "append_slots ?q (int n) ?m
        = Inr (map (slot_at ?bs t) [q_computed ?q..<q_computed ?q + n], ?q\<lparr>q_table := t\<rparr>, m')"
    and stop: "q_computed ?q + n \<le> num_tokens ?q"
    and toks: "tokens_in_range (int (q_computed ?q)) (int (q_computed ?q + n)) (?q\<lparr>q_table := t\<rparr>)
          = Inr (take n (drop (q_computed ?q) (token_ids ?q)))"
    and adv: "advance_computed (int n) (?q\<lparr>q_table := t\<rparr>)
          = Inr (q_computed ?q + n, ?q\<lparr>q_table := t, q_computed := q_computed ?q + n\<rparr>)"
    and c': "core D m' (?S(x \<mapsto> ?q\<lparr>q_table := t, q_computed := q_computed ?q + n\<rparr>)) ?R (s_preempted s)
               (set (wq_items (s_waiting s)))"
    and fr: "frame (refs ?S (remove1 x ?R)) x ?m m'"
    and cover: "q_computed ?q + n \<le> length t * ?bs"
    and unc: "\<forall>i < length t. q_computed ?q div ?bs \<le> i \<longrightarrow> c_by_block (bm_cache m') (t ! i) = None"
    using core_append [OF sc x(1) can [unfolded obj_def] n(1), unfolded Let_def, folded obj_def] by (elim exE conjE) (rule that; assumption)
  let ?q2 = "?q\<lparr>q_table := t, q_computed := q_computed ?q + n\<rparr>"
  let ?pre = "q_computed ?q < num_prompt_tokens ?q"
  let ?d = "\<lparr>d_seq = x, d_num_new = n, d_context_len = q_computed ?q + n,
      d_token_ids = take n (drop (q_computed ?q) (token_ids ?q)),
      d_slots = map (slot_at ?bs t) [q_computed ?q..<q_computed ?q + n], d_block_table = t,
      d_is_prefill = ?pre, d_is_chunk = (?pre \<and> q_computed ?q + n < num_prompt_tokens ?q), d_cached = c\<rparr>"
  have len: "length (take n (drop (q_computed ?q) (token_ids ?q))) = n"
    using stop by (simp add: num_tokens_token_ids)
  then have item: "sched_item ?d = Inr ?d" using n(1) by (simp add: sched_item_def)
  let ?s = "put x ?q2 (s\<lparr>s_bm := m'\<rparr>)"
  let ?k = "k\<lparr>k_tokens := k_tokens k - int n, k_seqs := k_seqs k - 1, k_ids := insert x (k_ids k),
            k_prefills := (if ?pre then k_prefills k @ [?d] else k_prefills k),
            k_decodes := (if ?pre then k_decodes k else k_decodes k @ [?d])\<rparr>"
  have npt: "num_prompt_tokens (?q\<lparr>q_table := t\<rparr>) = num_prompt_tokens ?q" by (simp add: num_prompt_tokens_def)
  have run: "emit x n c (s, k) = Inr (?s, ?k)"
    unfolding emit_def Let_def split_conv app rbind.simps npt toks by (simp add: item adv)
  have bs': "bm_block_size m' = ?bs" using fr by (simp add: frame_def)
  have ok: "item_ok m' (s_seqs ?s) ?d"
  proof -
    have f: "num_tokens ?q2 = num_tokens ?q" "token_ids ?q2 = token_ids ?q"
      "num_prompt_tokens ?q2 = num_prompt_tokens ?q"
      by (simp_all add: num_tokens_def token_ids_def num_prompt_tokens_def)
    show ?thesis
      unfolding item_ok_def Let_def item_start_def bs' using n(1) stop cover unc by (simp add: f)
  qed
  have items: "\<forall>d \<in> set (items k). item_ok ?m ?S d \<and> d_seq d \<in> set ?R"
    and ids: "x \<notin> d_seq ` set (items k)"
    using k x(2) unfolding kinv_def by blast+
  have old: "\<forall>d \<in> set (items k). item_ok m' (s_seqs ?s) d \<and> d_seq d \<in> set (remove1 x ?R)"
    by (rule items_frame [OF items fr ids]) simp
  have old': "item_ok m' (s_seqs ?s) d \<and> d_seq d \<in> set ?R" if "d \<in> set (items k)" for d
    using bspec [OF old that] set_remove1_mem [of "d_seq d" x ?R] by (elim conjE) (intro conjI)
  have ks: "set (items ?k) = insert ?d (set (items k))" by auto
  have dist: "distinct (map d_seq (items ?k))"
    using k x(2) by (auto simp: kinv_def)
  have same: "same_seq ?q ?q2" by (simp add: same_seq_def)
  have w: "world s ?s"
    using bs' frame_sizes [OF fr] same by (simp add: world_def everyone_def)
  have "queue_ok ?s"
    using k world_tenant [OF w] by (simp add: kinv_def queue_ok_def)
  moreover have "item_ok m' (s_seqs ?s) d \<and> d_seq d \<in> set (s_running ?s)" if "d \<in> set (items ?k)" for d
    using that ok old' x(1) unfolding ks by auto
  moreover have "k_ids ?k = d_seq ` set (items ?k)" unfolding ks using k by (simp add: kinv_def)
  moreover have "int (sum_list (map d_num_new (items ?k))) = int (sum_list (map d_num_new (items k))) + int n"
    "int (length (items ?k)) = int (length (items k)) + 1" by auto
  ultimately have "kinv D T Q ?s ?k"
    using k c' dist n(2) sq unfolding kinv_def by auto
  then show ?thesis using run w by auto
qed

end
