(* ===== verification/Scheduler_Loops.thy ===== *)
theory Scheduler_Loops
  imports Scheduler_Step
begin

text \<open>
  The loops of \<open>schedule\<close>. Each lemma has the same shape: from \<open>kinv\<close>, the loop returns, keeps
  \<open>kinv\<close>, and relates the states before and after by \<open>world\<close>.
\<close>

section \<open>Preemption and making room\<close>

text \<open>What preemption leaves alone in the step's bookkeeping.\<close>

definition same_batch :: "kstep \<Rightarrow> kstep \<Rightarrow> bool" where
  "same_batch k k' \<longleftrightarrow> k_tokens k' = k_tokens k \<and> k_seqs k' = k_seqs k \<and> k_ids k' = k_ids k
     \<and> k_prefills k' = k_prefills k \<and> k_decodes k' = k_decodes k"

lemma same_batch_refl [simp]: "same_batch k k"
  by (simp add: same_batch_def)

lemma same_batch_trans: "same_batch a b \<Longrightarrow> same_batch b c \<Longrightarrow> same_batch a c"
  by (simp add: same_batch_def)

lemma preempt_step:
  assumes k: "kinv D T Q s k" and x: "x \<in> set (s_running s)" "x \<notin> k_ids k"
  shows "\<exists>s' k'. sched_preempt D x (s, k) = Inr (s', k') \<and> kinv D T Q s' k' \<and> world s s'
     \<and> s_running s' = remove1 x (s_running s) \<and> same_batch k k'
     \<and> (\<forall>y. y \<noteq> x \<longrightarrow> obj y s' = obj y s)"
proof -
  let ?m = "s_bm s" and ?S = "s_seqs s" and ?R = "s_running s" and ?q = "reset_for_recompute (obj x s)"
  have sc: "score D s" using k by (simp add: kinv_def)
  obtain m' where p: "bm_preempt D (obj x s) ?m = Inr (?q, m')"
    and c': "core D m' (?S(x \<mapsto> ?q)) (remove1 x ?R) (s_preempted s @ [x]) (set (wq_items (s_waiting s)))"
    and fr: "frame (refs ?S (remove1 x ?R)) x ?m m'"
    using core_preempt [OF sc x(1), folded obj_def] by (elim exE conjE) (rule that; assumption)
  let ?s = "(put x ?q (s\<lparr>s_bm := m'\<rparr>))\<lparr>s_running := remove1 x ?R, s_preempted := s_preempted s @ [x],
      s_num_preemptions := s_num_preemptions s + 1\<rparr>"
  let ?k = "k\<lparr>k_preempted_now := insert x (k_preempted_now k), k_out_preempted := k_out_preempted k @ [x]\<rparr>"
  have run: "sched_preempt D x (s, k) = Inr (?s, ?k)"
    unfolding sched_preempt_def split_conv p rbind.simps using x(1) by simp
  have obj': "obj y ?s = (if y = x then ?q else obj y s)" for y by (simp add: obj_def put_def)
  have same: "same_seq (obj x s) ?q" by (simp add: same_seq_def reset_for_recompute_def)
  have w: "world s ?s"
    unfolding world_def obj' using frame_sizes [OF fr] same x(1) sc
    by (auto simp: everyone_def put_def core_def)
  have items: "\<forall>d \<in> set (items k). item_ok ?m ?S d \<and> d_seq d \<in> set ?R"
    and ids: "x \<notin> d_seq ` set (items k)"
    using k x(2) unfolding kinv_def by blast+
  have "\<forall>d \<in> set (items k). item_ok m' (?S(x \<mapsto> ?q)) d \<and> d_seq d \<in> set (remove1 x ?R)"
    by (rule items_frame [OF items fr ids]) simp
  moreover have "queue_ok ?s"
    using k world_tenant [OF w] by (simp add: kinv_def queue_ok_def put_def)
  ultimately have "kinv D T Q ?s ?k"
    using k c' unfolding kinv_def by (auto simp: put_def)
  then show ?thesis using run w obj' by (intro exI [of _ ?s] exI [of _ ?k]) (simp add: same_batch_def)
qed

lemma running_status: "score D s \<Longrightarrow> x \<in> everyone s \<Longrightarrow> q_status (obj x s) = Running \<longleftrightarrow> x \<in> set (s_running s)"
  by (auto simp: core_def everyone_def live_def idle_def obj_def)

lemma running_sane: "score D s \<Longrightarrow> x \<in> set (s_running s) \<Longrightarrow> seq_sane (obj x s)"
  by (auto simp: core_def live_def obj_def)

lemma make_room_ok:
  "kinv D T Q s k \<Longrightarrow> x \<in> set (s_running s) \<Longrightarrow> x \<notin> k_ids k \<Longrightarrow>
   \<exists>ok s' k'. make_room D x n (s, k) = Inr (ok, s', k') \<and> kinv D T Q s' k' \<and> world s s'
     \<and> same_batch k k'
     \<and> (ok \<longrightarrow> x \<in> set (s_running s') \<and> obj x s' = obj x s \<and> can_append (obj x s') n (s_bm s'))"
proof (induction "length (s_running s)" arbitrary: s k rule: less_induct)
  case less
  show ?case
  proof (cases "can_append (obj x s) n (s_bm s)")
    case True
    then show ?thesis using less.prems by (intro exI [of _ True] exI [of _ s] exI [of _ k]) simp
  next
    case False
    show ?thesis
    proof (cases "pick_victim (k_ids k) x s")
      case None
      obtain s' k' where p: "sched_preempt D x (s, k) = Inr (s', k')" "kinv D T Q s' k'" "world s s'" "same_batch k k'"
        using preempt_step [OF less.prems] by blast
      have "make_room D x n (s, k) = Inr (False, s', k')" using False None p(1) by simp
      then show ?thesis using p(2-4) by blast
    next
      case (Some v)
      note v = pick_victim_in [OF Some]
      obtain s1 k1 where p: "sched_preempt D v (s, k) = Inr (s1, k1)" "kinv D T Q s1 k1" "world s s1"
        "s_running s1 = remove1 v (s_running s)" "same_batch k k1" "\<forall>y. y \<noteq> v \<longrightarrow> obj y s1 = obj y s"
        using preempt_step [OF less.prems(1)] v by blast
      have lt: "length (s_running s1) < length (s_running s)"
        using sched_preempt_shrinks [OF p(1)] v by blast
      have x1: "x \<in> set (s_running s1)" "x \<notin> k_ids k1" "obj x s1 = obj x s"
        using p(4-6) v less.prems(2,3) by (auto simp: same_batch_def)
      obtain ok s' k' where r: "make_room D x n (s1, k1) = Inr (ok, s', k')" "kinv D T Q s' k'" "world s1 s'"
        "same_batch k1 k'" "ok \<longrightarrow> x \<in> set (s_running s') \<and> obj x s' = obj x s1 \<and> can_append (obj x s') n (s_bm s')"
        using less.hyps [OF lt p(2) x1(1,2)] by blast
      have "make_room D x n (s, k) = Inr (ok, s', k')" using False Some p(1) r(1) by simp
      moreover have "world s s'" "same_batch k k'"
        using world_trans [OF p(3) r(3)] same_batch_trans [OF p(5) r(4)] by blast+
      ultimately show ?thesis using r(2,5) x1(3) by auto
    qed
  qed
qed

declare make_room.simps [simp del]

section \<open>Running sequences\<close>

lemma schedule_running_ok:
  "kinv D T Q s k \<Longrightarrow> distinct xs \<Longrightarrow> set xs \<inter> k_ids k = {} \<Longrightarrow> set xs \<subseteq> everyone s \<Longrightarrow>
   \<exists>s' k'. schedule_running D xs (s, k) = Inr (s', k') \<and> kinv D T Q s' k' \<and> world s s'"
proof (induction xs arbitrary: s k)
  case Nil
  then show ?case by auto
next
  case (Cons x xs)
  let ?q = "obj x s" and ?n = "num_new_tokens_to_compute (k_tokens k) (obj x s)"
  have skip: "\<exists>s' k'. schedule_running D xs (s, k) = Inr (s', k') \<and> kinv D T Q s' k' \<and> world s s'"
    using Cons by simp
  show ?case
  proof (cases "exhausted k")
    case True
    then have "schedule_running D (x # xs) (s, k) = Inr (s, k)" by simp
    then show ?thesis using Cons.prems(1) world_refl by blast
  next
    case budget: False
    show ?thesis
    proof (cases "q_status ?q \<noteq> Running \<or> ?n \<le> 0 \<or> (\<not> enable_chunked_prefill (s_config s) \<and> int ?n < num_uncomputed ?q)")
      case True
      then have "schedule_running D (x # xs) (s, k) = schedule_running D xs (s, k)"
        using budget by (auto simp: Let_def)
      then show ?thesis using skip by simp
    next
      case False
      have sc: "score D s" using Cons.prems(1) by (simp add: kinv_def)
      have x: "x \<in> set (s_running s)" "x \<notin> k_ids k"
        using running_status [OF sc] False Cons.prems(3,4) by auto
      have "q_computed ?q \<le> num_tokens ?q"
        using running_sane [OF sc x(1)] by (simp add: seq_sane_def seq_wf_def)
      note nb = num_new_tokens_bounds(1) [OF this, of "k_tokens k"]
      have n1: "1 \<le> ?n" "int ?n \<le> k_tokens k" using False nb budget by (auto simp: exhausted_def)
      obtain ok s1 k1 where r: "make_room D x ?n (s, k) = Inr (ok, s1, k1)" "kinv D T Q s1 k1" "world s s1"
        "same_batch k k1" "ok \<longrightarrow> x \<in> set (s_running s1) \<and> obj x s1 = obj x s \<and> can_append (obj x s1) ?n (s_bm s1)"
        using make_room_ok [OF Cons.prems(1) x] by blast
      have ev1: "set xs \<subseteq> everyone s1" using Cons.prems(4) r(3) by (simp add: world_def)
      show ?thesis
      proof (cases ok)
        case False
        have "set xs \<inter> k_ids k1 = {}" using Cons.prems(3) r(4) by (auto simp: same_batch_def)
        then obtain s' k' where "schedule_running D xs (s1, k1) = Inr (s', k')" "kinv D T Q s' k'" "world s1 s'"
          using Cons.IH [OF r(2)] Cons.prems(2) ev1 by auto
        moreover have "schedule_running D (x # xs) (s, k) = schedule_running D xs (s1, k1)"
          using r(1) False budget \<open>\<not> (q_status ?q \<noteq> Running \<or> _ \<or> _)\<close> by (auto simp: Let_def)
        ultimately show ?thesis using world_trans [OF r(3)] by auto
      next
        case True
        have can: "x \<in> set (s_running s1)" "can_append (obj x s1) ?n (s_bm s1)" using r(5) True by blast+
        have b1: "x \<notin> k_ids k1" "int ?n \<le> k_tokens k1" "1 \<le> k_seqs k1"
          using r(4) x(2) n1 budget by (auto simp: same_batch_def exhausted_def)
        obtain s2 k2 where e: "emit x ?n 0 (s1, k1) = Inr (s2, k2)" "kinv D T Q s2 k2" "world s1 s2"
          "k_ids k2 = insert x (k_ids k1)"
          using emit_ok [OF r(2) can(1) b1(1) can(2) n1(1) b1(2,3)] by blast
        have "set xs \<inter> k_ids k2 = {}" "set xs \<subseteq> everyone s2"
          using Cons.prems(2,3) r(4) e(3,4) ev1 by (auto simp: same_batch_def world_def)
        then obtain s' k' where "schedule_running D xs (s2, k2) = Inr (s', k')" "kinv D T Q s' k'" "world s2 s'"
          using Cons.IH [OF e(2)] Cons.prems(2) by auto
        moreover have "schedule_running D (x # xs) (s, k) = schedule_running D xs (s2, k2)"
          using r(1) True e(1) budget False by (auto simp: Let_def)
        ultimately show ?thesis using world_trans [OF r(3)] world_trans [OF e(3)] by auto
      qed
    qed
  qed
qed

section \<open>Admissions\<close>

text \<open>Taking the head off the queue it came from.\<close>

definition take_head :: "nat \<Rightarrow> bool \<Rightarrow> sched \<Rightarrow> py_error + sched" where
  "take_head x from_preempted s =
     (if from_preempted then Inr (s\<lparr>s_preempted := tl (s_preempted s)\<rparr>)
      else rbind (wq_pop (s_waiting s)) (\<lambda>(_, w). Inr (s\<lparr>s_waiting := w\<rparr>)))"

definition mark_running :: "rat \<Rightarrow> seqn \<Rightarrow> seqn" where
  "mark_running timestamp q0 =
     (let q = q0\<lparr>q_status := Running\<rparr> in
      if t_first_scheduled (q_timing q) = None
      then q\<lparr>q_timing := (q_timing q)\<lparr>t_first_scheduled := Some timestamp\<rparr>\<rparr> else q)"

lemma admit_eq:
  "admit x ts n b c (s, k) = rbind (take_head x b s) (\<lambda>s1.
     emit x n c ((put x (mark_running ts (obj x s1)) s1)
        \<lparr>s_running := s_running s1 @ [x], s_num_admitted := s_num_admitted s1 + 1\<rparr>,
      k\<lparr>k_cached := k_cached k + c\<rparr>))"
  by (simp add: admit_def take_head_def mark_running_def Let_def cong: rbind_cong)

lemma mark_running_form: "\<exists>t. mark_running ts q = q\<lparr>q_status := Running, q_timing := t\<rparr>"
proof (cases "t_first_scheduled (q_timing q) = None")
  case True
  then show ?thesis by (auto simp: mark_running_def)
next
  case False
  then have "mark_running ts q = q\<lparr>q_status := Running, q_timing := q_timing q\<rparr>"
    by (cases q) (simp add: mark_running_def Let_def)
  then show ?thesis by blast
qed

lemma mark_running_fields:
  "same_seq q (mark_running ts q)" "q_table (mark_running ts q) = q_table q"
  "q_computed (mark_running ts q) = q_computed q" "token_ids (mark_running ts q) = token_ids q"
  using mark_running_form [of ts q] by (auto simp: same_seq_def token_ids_def)

definition head_of :: "sched \<Rightarrow> nat option" where
  "head_of s = (if s_preempted s \<noteq> [] then Some (hd (s_preempted s)) else wq_peek (s_waiting s))"

lemma take_head_ok:
  assumes q: "queue_ok s" and h: "head_of s = Some x" and dj: "set (s_preempted s) \<inter> set (wq_items (s_waiting s)) = {}"
    and dp: "distinct (s_preempted s)"
  shows "\<exists>s1. take_head x (s_preempted s \<noteq> []) s = Inr s1 \<and> queue_ok s1
     \<and> s_preempted s1 = remove1 x (s_preempted s)
     \<and> set (wq_items (s_waiting s1)) = set (wq_items (s_waiting s)) - {x}
     \<and> s1 = s\<lparr>s_preempted := s_preempted s1, s_waiting := s_waiting s1\<rparr>
     \<and> x \<in> set (s_preempted s) \<union> set (wq_items (s_waiting s))"
proof (cases "s_preempted s")
  case (Cons y ys)
  then have "x = y" using h by (simp add: head_of_def)
  moreover have "x \<notin> set (wq_items (s_waiting s))" using dj Cons \<open>x = y\<close> by auto
  moreover have "tenant_of (s\<lparr>s_preempted := ys\<rparr>) = tenant_of s" by (simp add: tenant_of_def fun_eq_iff)
  ultimately show ?thesis using Cons q
    by (intro exI [of _ "s\<lparr>s_preempted := ys\<rparr>"]) (simp add: take_head_def queue_ok_def)
next
  case Nil
  then have p: "wq_peek (s_waiting s) = Some x" using h by (simp add: head_of_def)
  have inv: "wq_inv (tenant_of s) (s_waiting s)" and d: "distinct (wq_items (s_waiting s))"
    using q by (simp_all add: queue_ok_def)
  obtain w where w: "wq_pop (s_waiting s) = Inr (x, w)" "wq_inv (tenant_of s) w"
      "mset (wq_items (s_waiting s)) = add_mset x (mset (wq_items w))"
    using wq.peek_pop [OF inv p] by blast
  have "mset (wq_items (s_waiting s)) = mset (x # wq_items w)" using w(3) by simp
  then have "distinct (x # wq_items w)" "set (wq_items (s_waiting s)) = insert x (set (wq_items w))"
    using d mset_eq_imp_distinct_iff mset_eq_setD by (metis, metis list.simps(15))
  moreover have "tenant_of (s\<lparr>s_waiting := w\<rparr>) = tenant_of s" by (simp add: tenant_of_def fun_eq_iff)
  ultimately show ?thesis using Nil w
    by (intro exI [of _ "s\<lparr>s_waiting := w\<rparr>"]) (simp add: take_head_def queue_ok_def)
qed

text \<open>One admission that goes through.\<close>

lemma can_append_after_admission:
  assumes "num_blocks_needed (bm_block_size m) q \<le> length (q_table q) + num_allocatable (bm_alloc m)"
    and "q_computed q + n \<le> num_tokens q"
  shows "can_append q n m"
proof -
  have "ceil_div (q_computed q + n) (bm_block_size m) \<le> num_blocks_needed (bm_block_size m) q"
    unfolding num_blocks_needed_def by (rule ceil_div_mono [OF assms(2)])
  then show ?thesis using assms by (simp add: can_append_def Let_def)
qed

lemma kinv_other:
  assumes k: "kinv D T Q s k" and c': "core D m' S' R' P' W'"
    and s': "s_bm s' = m'" "s_seqs s' = S'" "s_running s' = R'" "s_preempted s' = P'"
      "set (wq_items (s_waiting s')) = W'"
    and q: "queue_ok s'" and fr: "frame (refs (s_seqs s) (remove1 x (s_running s))) x (s_bm s) m'"
    and x: "x \<notin> k_ids k" and S': "\<And>y. y \<noteq> x \<Longrightarrow> S' y = s_seqs s y"
    and R': "set (s_running s) \<subseteq> set R'" and P': "set (k_out_preempted k) \<subseteq> set P'"
    and k': "k_prefills k' = k_prefills k" "k_decodes k' = k_decodes k" "k_ids k' = k_ids k"
      "k_tokens k' = k_tokens k" "k_seqs k' = k_seqs k" "k_preempted_now k' = k_preempted_now k"
      "k_out_preempted k' = k_out_preempted k"
  shows "kinv D T Q s' k'"
proof -
  have items: "\<forall>d \<in> set (items k). item_ok (s_bm s) (s_seqs s) d \<and> d_seq d \<in> set (s_running s)"
    and ids: "x \<notin> d_seq ` set (items k)"
    using k x unfolding kinv_def by blast+
  have old: "\<forall>d \<in> set (items k). item_ok m' S' d \<and> d_seq d \<in> set (remove1 x (s_running s))"
    by (rule items_frame [OF items fr ids S'])
  have "item_ok m' S' d \<and> d_seq d \<in> set R'" if "d \<in> set (items k)" for d
    using bspec [OF old that] set_remove1_mem [of "d_seq d" x "s_running s"] R' by blast
  then show ?thesis
    using k c' q P' unfolding kinv_def s' k' by (simp add: ball_Un)
qed

text \<open>What the admission of \<open>x\<close> hands to \<open>emit\<close>.\<close>

definition admitted :: "digest \<Rightarrow> nat \<Rightarrow> nat \<Rightarrow> nat \<Rightarrow> rat \<Rightarrow> seqn \<Rightarrow> bman \<Rightarrow> nat \<Rightarrow> sched \<times> kstep \<Rightarrow> sched \<times> kstep \<Rightarrow> bool" where
  "admitted D T Q x ts q m n = (\<lambda>(s, k) (s3, k3). kinv D T Q s3 k3 \<and> world s s3 \<and> s_bm s3 = m
     \<and> s_running s3 = s_running s @ [x] \<and> (\<forall>y. obj y s3 = (if y = x then mark_running ts q else obj y s))
     \<and> can_append (obj x s3) n (s_bm s3) \<and> x \<notin> k_ids k3 \<and> 1 \<le> n \<and> int n \<le> k_tokens k3 \<and> 1 \<le> k_seqs k3
     \<and> k_ids k3 = k_ids k \<and> k_prefills k3 = k_prefills k \<and> k_decodes k3 = k_decodes k)"

lemma admission_ready:
  assumes k: "kinv D T Q s k" and h: "head_of s = Some x" and pn: "x \<notin> k_preempted_now k"
    and budget: "\<not> exhausted k" and yes: "can_allocate D (obj x s) (s_bm s) = Inr True"
  shows "\<exists>cached q m. bm_allocate D (obj x s) (s_bm s) = Inr (cached, q, m)
     \<and> x \<in> everyone s \<and> x \<notin> set (s_running s)
     \<and> (let s1 = put x q (s\<lparr>s_bm := m\<rparr>); n = num_new_tokens_to_compute (k_tokens k) q in
        (if n \<le> 0 \<or> (\<not> enable_chunked_prefill (s_config s) \<and> int n < num_uncomputed q)
         then \<exists>t m'. bm_release D q m = Inr ((obj x s)\<lparr>q_timing := t\<rparr>, m')
                \<and> kinv D T Q (put x ((obj x s)\<lparr>q_timing := t\<rparr>) (s1\<lparr>s_bm := m'\<rparr>)) k
                \<and> world s (put x ((obj x s)\<lparr>q_timing := t\<rparr>) (s1\<lparr>s_bm := m'\<rparr>))
         else \<exists>s3 k3. admit x ts n (s_preempted s \<noteq> []) cached (s1, k) = emit x n cached (s3, k3)
                \<and> admitted D T Q x ts q m n (s, k) (s3, k3)))"
proof -
  let ?m = "s_bm s" and ?S = "s_seqs s" and ?R = "s_running s" and ?P = "s_preempted s"
  let ?W = "set (wq_items (s_waiting s))"
  have sc: "core D ?m ?S ?R ?P ?W" and qok: "queue_ok s" using k by (simp_all add: kinv_def)
  have dj: "set ?P \<inter> ?W = {}" "distinct ?P" using sc by (auto simp: core_def)
  obtain s0 where th: "take_head x (?P \<noteq> []) s = Inr s0" "s_preempted s0 = remove1 x ?P"
    "set (wq_items (s_waiting s0)) = ?W - {x}" and x: "x \<in> set ?P \<union> ?W"
    using take_head_ok [OF qok h dj] by blast
  have nR: "x \<notin> set ?R" using sc x by (auto simp: core_def)
  have xe: "x \<in> everyone s" using x by (simp add: everyone_def)
  have nk: "x \<notin> k_ids k" using k nR by (auto simp: kinv_def)
  obtain n0 q m where a: "bm_allocate D (obj x s) ?m = Inr (n0, q, m)" and qc: "q_computed q = n0"
    and lt: "n0 < num_tokens (obj x s)"
    and same: "same_seq (obj x s) q" and fr: "frame (refs ?S (remove1 x ?R)) x ?m m"
    and run: "\<forall>t. core D m (?S(x \<mapsto> q\<lparr>q_status := Running, q_timing := t\<rparr>)) (?R @ [x]) (remove1 x ?P) (?W - {x})"
    and rel: "\<exists>m'' t. bm_release D q m = Inr ((obj x s)\<lparr>q_timing := t\<rparr>, m'')
          \<and> core D m'' (?S(x \<mapsto> (obj x s)\<lparr>q_timing := t\<rparr>)) ?R ?P ?W \<and> frame (refs ?S (remove1 x ?R)) x ?m m''"
    using core_admit [OF sc x, folded obj_def] by (elim exE conjE) (rule that, assumption+, blast)
  let ?s1 = "put x q (s\<lparr>s_bm := m\<rparr>)" and ?n = "num_new_tokens_to_compute (k_tokens k) q"
  have le: "q_computed q \<le> num_tokens q" using qc lt same_seq_tokens [OF same] by simp
  have op: "set (k_out_preempted k) \<subseteq> set ?P" and opx: "x \<notin> set (k_out_preempted k)"
    using k pn by (auto simp: kinv_def)
  show ?thesis
  proof (cases "?n \<le> 0 \<or> (\<not> enable_chunked_prefill (s_config s) \<and> int ?n < num_uncomputed q)")
    case True
    obtain m'' t where r: "bm_release D q m = Inr ((obj x s)\<lparr>q_timing := t\<rparr>, m'')"
      "core D m'' (?S(x \<mapsto> (obj x s)\<lparr>q_timing := t\<rparr>)) ?R ?P ?W" "frame (refs ?S (remove1 x ?R)) x ?m m''"
      using rel by blast
    let ?s' = "put x ((obj x s)\<lparr>q_timing := t\<rparr>) (?s1\<lparr>s_bm := m''\<rparr>)"
    have w: "world s ?s'"
      using frame_sizes [OF r(3)] by (simp add: world_def everyone_def same_seq_def)
    have "queue_ok ?s'" using qok world_tenant [OF w] by (simp add: queue_ok_def)
    then have "kinv D T Q ?s' k"
      by (intro kinv_other [OF k r(2) _ _ _ _ _ _ r(3) nk]) (use op in \<open>simp_all\<close>)
    then have "\<exists>t m'. bm_release D q m = Inr ((obj x s)\<lparr>q_timing := t\<rparr>, m')
                \<and> kinv D T Q (put x ((obj x s)\<lparr>q_timing := t\<rparr>) (?s1\<lparr>s_bm := m'\<rparr>)) k
                \<and> world s (put x ((obj x s)\<lparr>q_timing := t\<rparr>) (?s1\<lparr>s_bm := m'\<rparr>))" using r(1) w by blast
    then show ?thesis using a True xe nR by (intro exI [of _ n0] exI [of _ q] exI [of _ m]) (simp add: Let_def)
  next
    case False
    have "obj x s = the (?S x)" by (simp add: obj_def)
    have sane: "seq_sane (obj x s)" and empty: "q_table (obj x s) = []"
      using sc x by (auto simp: core_def idle_def obj_def)
    have inv: "bm_inv (refs ?S ?R) ?m" using sc by (simp add: core_def)
    have room: "num_blocks_needed (bm_block_size ?m) (obj x s) \<le> length (q_table q) + num_allocatable (bm_alloc m)"
      using can_allocate_room [OF inv sane empty yes a] .
    let ?q = "mark_running ts q"
    let ?w = "s_waiting s0"
    have "tenant_of ?s1 = tenant_of s"
      by (rule ext) (use same in \<open>simp add: tenant_of_def same_seq_def\<close>)
    then have qok1: "queue_ok ?s1" using qok by (simp add: queue_ok_def)
    have h1: "head_of ?s1 = Some x" using h by (auto simp: head_of_def split: if_splits)
    obtain s2 where t2: "take_head x (?P \<noteq> []) ?s1 = Inr s2" "queue_ok s2" "s_preempted s2 = remove1 x ?P"
      "set (wq_items (s_waiting s2)) = ?W - {x}"
      "s2 = ?s1\<lparr>s_preempted := s_preempted s2, s_waiting := s_waiting s2\<rparr>"
      using take_head_ok [OF qok1 h1] dj by auto
    let ?s3 = "(put x ?q s2)\<lparr>s_running := s_running s2 @ [x], s_num_admitted := s_num_admitted s2 + 1\<rparr>"
    let ?k3 = "k\<lparr>k_cached := k_cached k + n0\<rparr>"
    have f2: "s_bm s2 = m" "s_seqs s2 = ?S(x \<mapsto> q)" "s_running s2 = ?R" "s_config s2 = s_config s"
      "s_by_request s2 = s_by_request s" "s_counter s2 = s_counter s" "s_num_finished s2 = s_num_finished s"
      by (subst t2(5); simp)+
    have o2: "obj y s2 = (if y = x then q else obj y s)" for y by (simp add: obj_def f2(2))
    have o3: "obj y ?s3 = (if y = x then ?q else obj y s)" for y by (simp add: o2)
    have same3: "same_seq (obj x s) ?q" using same_seq_trans [OF same mark_running_fields(1)] .
    have w3: "world s ?s3"
      unfolding world_def o3 using frame_sizes [OF fr] same3 x t2(3,4) dj
      by (auto simp: everyone_def f2)
    have "tenant_of ?s3 = tenant_of s2"
      by (rule ext) (use mark_running_fields(1) [of q ts] in \<open>simp add: tenant_of_def same_seq_def o2\<close>)
    then have q3: "queue_ok ?s3" using t2(2) by (simp add: queue_ok_def)
    obtain t where qt: "?q = q\<lparr>q_status := Running, q_timing := t\<rparr>" using mark_running_form by blast
    have c3: "core D m (?S(x \<mapsto> ?q)) (?R @ [x]) (remove1 x ?P) (?W - {x})" using run qt by simp
    have op3: "set (k_out_preempted k) \<subseteq> set (remove1 x ?P)"
      using op opx dj(2) by auto
    have k3: "kinv D T Q ?s3 ?k3"
      by (rule kinv_other [OF k c3 _ _ _ _ _ q3 fr nk]) (use t2(3,4) op3 in \<open>auto simp: f2\<close>)
    have stop: "q_computed ?q + ?n \<le> num_tokens ?q"
      using num_new_tokens_bounds(2) [OF le] same_seq_tokens [OF mark_running_fields(1) [of q ts]] mark_running_fields(3)
      by simp
    have can: "can_append ?q ?n m"
    proof (rule can_append_after_admission [OF _ stop])
      have "num_tokens ?q = num_tokens (obj x s)" using same_seq_tokens [OF same3] by simp
      then show "num_blocks_needed (bm_block_size m) ?q \<le> length (q_table ?q) + num_allocatable (bm_alloc m)"
        using room mark_running_fields(2) frame_sizes [OF fr] by (simp add: num_blocks_needed_def)
    qed
    have nn: "1 \<le> ?n" "int ?n \<le> k_tokens ?k3" "1 \<le> k_seqs ?k3"
      using False num_new_tokens_bounds(1) [OF le, of "k_tokens k"] budget by (auto simp: exhausted_def)
    have x3: "x \<in> set (s_running ?s3)" "x \<notin> k_ids ?k3" using nk by simp_all
    have can3: "can_append (obj x ?s3) ?n (s_bm ?s3)" using can o3 f2(1) by simp
    have "admit x ts ?n (?P \<noteq> []) n0 (?s1, k) = emit x ?n n0 (?s3, ?k3)"
      unfolding admit_eq t2(1) rbind.simps using o2 by simp
    moreover have "admitted D T Q x ts q m ?n (s, k) (?s3, ?k3)"
      unfolding admitted_def split_conv using k3 w3 can3 x3(2) nn o3 f2(1,3) by simp
    ultimately have "\<exists>s3 k3. admit x ts ?n (?P \<noteq> []) n0 (?s1, k) = emit x ?n n0 (s3, k3)
        \<and> admitted D T Q x ts q m ?n (s, k) (s3, k3)"
      by blast
    then show ?thesis
      unfolding Let_def
      by (intro exI [of _ n0] exI [of _ q] exI [of _ m] conjI a xe nR) (simp only: False if_False)
  qed
qed

lemma admission_ok:
  assumes "kinv D T Q s k" "head_of s = Some x" "x \<notin> k_preempted_now k" "\<not> exhausted k"
    and "can_allocate D (obj x s) (s_bm s) = Inr True"
  shows "\<exists>cached q m. bm_allocate D (obj x s) (s_bm s) = Inr (cached, q, m)
     \<and> (let s1 = put x q (s\<lparr>s_bm := m\<rparr>); n = num_new_tokens_to_compute (k_tokens k) q in
        (if n \<le> 0 \<or> (\<not> enable_chunked_prefill (s_config s) \<and> int n < num_uncomputed q)
         then \<exists>q' m'. bm_release D q m = Inr (q', m') \<and> kinv D T Q (put x q' (s1\<lparr>s_bm := m'\<rparr>)) k
                \<and> world s (put x q' (s1\<lparr>s_bm := m'\<rparr>))
         else \<exists>s' k'. admit x ts n (s_preempted s \<noteq> []) cached (s1, k) = Inr (s', k')
                \<and> kinv D T Q s' k' \<and> world s s'))"
proof -
  obtain cached q m where a: "bm_allocate D (obj x s) (s_bm s) = Inr (cached, q, m)"
    and post: "let s1 = put x q (s\<lparr>s_bm := m\<rparr>); n = num_new_tokens_to_compute (k_tokens k) q in
        (if n \<le> 0 \<or> (\<not> enable_chunked_prefill (s_config s) \<and> int n < num_uncomputed q)
         then \<exists>t m'. bm_release D q m = Inr ((obj x s)\<lparr>q_timing := t\<rparr>, m')
                \<and> kinv D T Q (put x ((obj x s)\<lparr>q_timing := t\<rparr>) (s1\<lparr>s_bm := m'\<rparr>)) k
                \<and> world s (put x ((obj x s)\<lparr>q_timing := t\<rparr>) (s1\<lparr>s_bm := m'\<rparr>))
         else \<exists>s3 k3. admit x ts n (s_preempted s \<noteq> []) cached (s1, k) = emit x n cached (s3, k3)
                \<and> admitted D T Q x ts q m n (s, k) (s3, k3))"
    using admission_ready [OF assms, of ts] by blast
  let ?s1 = "put x q (s\<lparr>s_bm := m\<rparr>)" and ?n = "num_new_tokens_to_compute (k_tokens k) q"
  show ?thesis
  proof (cases "?n \<le> 0 \<or> (\<not> enable_chunked_prefill (s_config s) \<and> int ?n < num_uncomputed q)")
    case True
    then show ?thesis using a post unfolding Let_def by (intro exI conjI) auto
  next
    case False
    then obtain s3 k3 where e: "admit x ts ?n (s_preempted s \<noteq> []) cached (?s1, k) = emit x ?n cached (s3, k3)"
      and ad: "admitted D T Q x ts q m ?n (s, k) (s3, k3)"
      using post unfolding Let_def by auto
    note p = ad [unfolded admitted_def split_conv]
    have r: "kinv D T Q s3 k3" "x \<in> set (s_running s3)" "x \<notin> k_ids k3" "can_append (obj x s3) ?n (s_bm s3)"
      "1 \<le> ?n" "int ?n \<le> k_tokens k3" "1 \<le> k_seqs k3" and w: "world s s3"
      using p by (blast, fastforce, blast, blast, blast, blast, blast, blast)
    obtain s' k' where "emit x ?n cached (s3, k3) = Inr (s', k')" "kinv D T Q s' k'" "world s3 s'"
      using emit_ok [OF r] by blast
    then have "\<exists>s' k'. admit x ts ?n (s_preempted s \<noteq> []) cached (?s1, k) = Inr (s', k') \<and> kinv D T Q s' k' \<and> world s s'"
      using e world_trans [OF w] by auto
    then show ?thesis
      unfolding Let_def
      by (intro exI [of _ cached] exI [of _ q] exI [of _ m] conjI a) (simp only: False if_False)
  qed
qed

declare schedule_admissions.simps [simp del]

lemma schedule_admissions_ok:
  "kinv D T Q s k \<Longrightarrow>
   \<exists>s' k'. schedule_admissions D ts (s, k) = Inr (s', k') \<and> kinv D T Q s' k' \<and> world s s'
     \<and> k_seqs k' \<le> k_seqs k"
proof (induction "nat (k_seqs k)" arbitrary: s k rule: less_induct)
  case less
  have stop: ?case if "schedule_admissions D ts (s, k) = Inr (s, k)"
    using that less.prems world_refl by (intro exI [of _ s] exI [of _ k]) simp
  have hd: "(if s_preempted s \<noteq> [] then Some (hd (s_preempted s)) else wq_peek (s_waiting s)) = head_of s"
    by (simp add: head_of_def)
  show ?case
  proof (cases "exhausted k")
    case True
    then show ?thesis by (intro stop) (simp add: schedule_admissions.simps [of D ts s k])
  next
    case budget: False
    show ?thesis
    proof (cases "head_of s")
      case None
      then show ?thesis using budget by (intro stop) (simp add: hd Let_def schedule_admissions.simps [of D ts s k])
    next
      case (Some x)
      have sc: "score D s" and qok: "queue_ok s" using less.prems by (simp_all add: kinv_def)
      have "set (s_preempted s) \<inter> set (wq_items (s_waiting s)) = {}" "distinct (s_preempted s)"
        using sc by (auto simp: core_def)
      then have x: "x \<in> set (s_preempted s) \<union> set (wq_items (s_waiting s))"
        using take_head_ok [OF qok Some] by blast
      show ?thesis
      proof (cases "x \<in> k_preempted_now k")
        case True
        then show ?thesis using budget Some by (intro stop) (simp add: hd Let_def schedule_admissions.simps [of D ts s k])
      next
        case pn: False
        have sane: "seq_sane (obj x s)"
          using sc x by (auto simp: core_def idle_def obj_def)
        have "bm_inv (refs (s_seqs s) (s_running s)) (s_bm s)" using sc by (simp add: core_def)
        then obtain ok where ok: "can_allocate D (obj x s) (s_bm s) = Inr ok"
          using can_allocate_answers sane by blast
        show ?thesis
        proof (cases ok)
          case False
          then show ?thesis using budget Some pn ok by (intro stop) (simp add: hd Let_def schedule_admissions.simps [of D ts s k])
        next
          case True
          then have yes: "can_allocate D (obj x s) (s_bm s) = Inr True" using ok by simp
          obtain cached q m where a: "bm_allocate D (obj x s) (s_bm s) = Inr (cached, q, m)"
            and post: "let s1 = put x q (s\<lparr>s_bm := m\<rparr>); n = num_new_tokens_to_compute (k_tokens k) q in
              (if n \<le> 0 \<or> (\<not> enable_chunked_prefill (s_config s) \<and> int n < num_uncomputed q)
               then \<exists>q' m'. bm_release D q m = Inr (q', m') \<and> kinv D T Q (put x q' (s1\<lparr>s_bm := m'\<rparr>)) k
                      \<and> world s (put x q' (s1\<lparr>s_bm := m'\<rparr>))
               else \<exists>s' k'. admit x ts n (s_preempted s \<noteq> []) cached (s1, k) = Inr (s', k')
                      \<and> kinv D T Q s' k' \<and> world s s')"
            using admission_ok [OF less.prems Some pn budget yes] by blast
          let ?s1 = "put x q (s\<lparr>s_bm := m\<rparr>)" and ?n = "num_new_tokens_to_compute (k_tokens k) q"
          show ?thesis
          proof (cases "?n \<le> 0 \<or> (\<not> enable_chunked_prefill (s_config s) \<and> int ?n < num_uncomputed q)")
            case True
            then obtain q' m' where r: "bm_release D q m = Inr (q', m')"
              "kinv D T Q (put x q' (?s1\<lparr>s_bm := m'\<rparr>)) k" "world s (put x q' (?s1\<lparr>s_bm := m'\<rparr>))"
              using post unfolding Let_def by auto
            have "schedule_admissions D ts (s, k) = Inr (put x q' (?s1\<lparr>s_bm := m'\<rparr>), k)"
              by (subst schedule_admissions.simps) (use budget Some pn yes a r(1) True in \<open>simp add: hd Let_def\<close>)
            then show ?thesis using r(2,3) by (intro exI [of _ "put x q' (?s1\<lparr>s_bm := m'\<rparr>)"] exI [of _ k]) simp
          next
            case False
            then obtain s2 k2 where e: "admit x ts ?n (s_preempted s \<noteq> []) cached (?s1, k) = Inr (s2, k2)"
              "kinv D T Q s2 k2" "world s s2"
              using post unfolding Let_def by auto
            have "nat (k_seqs k2) < nat (k_seqs k)"
              using admit_budget [OF e(1)] budget by (auto simp: exhausted_def)
            then obtain s' k' where r: "schedule_admissions D ts (s2, k2) = Inr (s', k')" "kinv D T Q s' k'" "world s2 s'"
              "k_seqs k' \<le> k_seqs k2"
              using less.hyps [OF _ e(2)] by blast
            have "schedule_admissions D ts (s, k) = schedule_admissions D ts (s2, k2)"
              by (subst schedule_admissions.simps) (use budget Some pn yes a e(1) False in \<open>auto simp: hd Let_def\<close>)
            then show ?thesis using r world_trans [OF e(3) r(3)] admit_budget [OF e(1)] by auto
          qed
        qed
      qed
    qed
  qed
qed

end
