(* ===== verification/Scheduler_Safe.thy ===== *)
theory Scheduler_Safe
  imports Scheduler_Loops
begin

text \<open>
  The scheduler's invariant \<open>sched_inv\<close> and what every public operation does to it:
  \<open>add_request\<close>, \<open>schedule\<close>, \<open>append_token\<close>, \<open>finish\<close>, \<open>abort\<close>, \<open>reset\<close>. The last sections
  are about the batch that \<open>schedule\<close> returns.
\<close>

section \<open>The invariant\<close>

definition sched_inv :: "digest \<Rightarrow> sched \<Rightarrow> bool" where
  "sched_inv D s \<longleftrightarrow> score D s \<and> queue_ok s \<and> bm_block_size (s_bm s) = cfg_block_size (s_config s)
     \<and> (\<forall>r x. s_by_request s r = Some x \<longleftrightarrow> x \<in> everyone s \<and> q_request (obj x s) = r)
     \<and> (\<forall>x \<in> everyone s. x < s_counter s)"

lemma sched_inv_world:
  assumes "sched_inv D s" "world s s'" "score D s'" "queue_ok s'"
  shows "sched_inv D s'"
proof -
  have "q_request (obj x s') = q_request (obj x s)" for x
    using assms(2) by (simp add: world_def same_seq_def)
  then show ?thesis using assms by (simp add: sched_inv_def world_def)
qed

section \<open>A step returns\<close>

lemma publish_list_ok:
  "score D s \<Longrightarrow> set xs \<subseteq> set (s_running s) \<Longrightarrow>
   \<exists>m. rfold (\<lambda>x s. rbind (publish_computed_blocks D (obj x s) (s_bm s)) (\<lambda>(_, m). Inr (s\<lparr>s_bm := m\<rparr>))) xs s
        = Inr (s\<lparr>s_bm := m\<rparr>) \<and> score D (s\<lparr>s_bm := m\<rparr>) \<and> bm_block_size m = bm_block_size (s_bm s)
     \<and> a_num_blocks (bm_alloc m) = a_num_blocks (bm_alloc (s_bm s))"
proof (induction xs arbitrary: s)
  case Nil
  then show ?case by (intro exI [of _ "s_bm s"]) simp
next
  case (Cons x xs)
  then have x: "x \<in> set (s_running s)" by simp
  obtain n m where p: "publish_computed_blocks D (obj x s) (s_bm s) = Inr (n, m)"
    "core D m (s_seqs s) (s_running s) (s_preempted s) (set (wq_items (s_waiting s)))"
    "frame (refs (s_seqs s) (remove1 x (s_running s))) x (s_bm s) m"
    using core_publish [OF Cons.prems(1) x] by (auto simp: obj_def)
  have "score D (s\<lparr>s_bm := m\<rparr>)" using p(2) by simp
  from Cons.IH [OF this] Cons.prems(2) show ?case
    using p(1) frame_sizes [OF p(3)] by auto
qed

lemma publish_running_ok:
  assumes "score D s" "queue_ok s"
  shows "\<exists>s'. publish_running D s = Inr s' \<and> score D s' \<and> queue_ok s' \<and> world s s'
     \<and> s_running s' = s_running s"
proof -
  obtain m where m: "publish_running D s = Inr (s\<lparr>s_bm := m\<rparr>)" "score D (s\<lparr>s_bm := m\<rparr>)"
    "bm_block_size m = bm_block_size (s_bm s)" "a_num_blocks (bm_alloc m) = a_num_blocks (bm_alloc (s_bm s))"
    using publish_list_ok [OF assms(1) order_refl] unfolding publish_running_def by blast
  have w: "world s (s\<lparr>s_bm := m\<rparr>)" using m(3,4) by (simp add: world_def everyone_def)
  have "queue_ok (s\<lparr>s_bm := m\<rparr>)" using assms(2) world_tenant [OF w] by (simp add: queue_ok_def)
  then show ?thesis using m w by (intro exI [of _ "s\<lparr>s_bm := m\<rparr>"]) simp
qed

text \<open>What \<open>schedule\<close> reports, in terms of the step record it ended with.\<close>

definition step_out :: "kstep \<Rightarrow> sched_out" where
  "step_out k = \<lparr>out_scheduled = items k, out_preempted = k_out_preempted k,
     out_prefill_tokens = sum_list (map d_num_new (k_prefills k)),
     out_decode_tokens = sum_list (map d_num_new (k_decodes k)),
     out_prefill_seqs = length (k_prefills k), out_decode_seqs = length (k_decodes k),
     out_cached = k_cached k\<rparr>"

definition count_step :: "kstep \<Rightarrow> sched \<Rightarrow> sched" where
  "count_step k s = s\<lparr>s_num_steps := s_num_steps s + 1,
     s_num_prefill_tokens := s_num_prefill_tokens s + sum_list (map d_num_new (k_prefills k)),
     s_num_decode_tokens := s_num_decode_tokens s + sum_list (map d_num_new (k_decodes k)),
     s_num_cached_tokens := s_num_cached_tokens s + k_cached k\<rparr>"

lemma schedule_runs:
  assumes inv: "sched_inv D s"
  shows "\<exists>s2 k. schedule D ts s = Inr (step_out k, count_step k s2) \<and> world s s2
     \<and> kinv D (max_num_batched_tokens (s_config s)) (max_num_seqs (s_config s)) s2 k"
proof -
  let ?T = "max_num_batched_tokens (s_config s)" and ?Q = "max_num_seqs (s_config s)"
  obtain s0 where p: "publish_running D s = Inr s0" "score D s0" "queue_ok s0" "world s s0"
      "s_running s0 = s_running s"
    using publish_running_ok inv unfolding sched_inv_def by blast
  have cfg: "s_config s0 = s_config s" using p(4) by (simp add: world_def)
  have k0: "kinv D ?T ?Q s0 (kstep_init (s_config s0))"
    using p(2,3) cfg by (simp add: kinv_def kstep_init_def)
  have "distinct (s_running s0)" using p(2) by (simp add: core_def)
  moreover have "set (s_running s0) \<subseteq> everyone s0" by (auto simp: everyone_def)
  moreover have "set (s_running s0) \<inter> k_ids (kstep_init (s_config s0)) = {}" by (simp add: kstep_init_def)
  ultimately obtain s1 k1 where r: "schedule_running D (s_running s0) (s0, kstep_init (s_config s0)) = Inr (s1, k1)"
      "kinv D ?T ?Q s1 k1" "world s0 s1"
    using schedule_running_ok [OF k0] by blast
  obtain s2 k2 where a: "schedule_admissions D ts (s1, k1) = Inr (s2, k2)" "kinv D ?T ?Q s2 k2" "world s1 s2"
    using schedule_admissions_ok [OF r(2)] by blast
  have "schedule D ts s = Inr (step_out k2, count_step k2 s2)"
    using p(1) r(1) a(1) by (simp add: schedule_def Let_def step_out_def count_step_def)
  then show ?thesis using a(2) world_trans [OF p(4)] world_trans [OF r(3) a(3)] by blast
qed

lemma count_step_fields [simp]:
  "s_bm (count_step k s) = s_bm s" "s_seqs (count_step k s) = s_seqs s"
  "s_running (count_step k s) = s_running s" "s_preempted (count_step k s) = s_preempted s"
  "s_waiting (count_step k s) = s_waiting s" "s_config (count_step k s) = s_config s"
  "s_by_request (count_step k s) = s_by_request s" "s_counter (count_step k s) = s_counter s"
  "s_num_finished (count_step k s) = s_num_finished s"
  "obj x (count_step k s) = obj x s" "everyone (count_step k s) = everyone s"
  by (simp_all add: count_step_def obj_def everyone_def)

lemma tenant_of_count [simp]: "tenant_of (count_step k s) = tenant_of s"
  by (rule ext) (simp add: tenant_of_def)

lemma queue_ok_count [simp]: "queue_ok (count_step k s) = queue_ok s"
  by (simp add: queue_ok_def)

text \<open>The batch \<open>schedule\<close> hands to the runtime.\<close>

definition batch_ok :: "sched \<Rightarrow> sched_out \<Rightarrow> bool" where
  "batch_ok s out \<longleftrightarrow>
     (\<forall>d \<in> set (out_scheduled out). item_ok (s_bm s) (s_seqs s) d \<and> d_seq d \<in> set (s_running s))
     \<and> distinct (map d_seq (out_scheduled out))
     \<and> num_batched_tokens out = sum_list (map d_num_new (out_scheduled out))
     \<and> num_batched_tokens out \<le> max_num_batched_tokens (s_config s)
     \<and> length (out_scheduled out) \<le> max_num_seqs (s_config s)
     \<and> out_prefill_seqs out + out_decode_seqs out = length (out_scheduled out)
     \<and> (\<forall>i < length (out_scheduled out). d_is_prefill (out_scheduled out ! i) \<longleftrightarrow> i < out_prefill_seqs out)
     \<and> set (out_preempted out) \<subseteq> set (s_preempted s)"

lemma schedule_ok:
  assumes inv: "sched_inv D s"
  shows "\<exists>out s'. schedule D ts s = Inr (out, s') \<and> sched_inv D s' \<and> world s s' \<and> batch_ok s' out"
proof -
  obtain s2 k where r: "schedule D ts s = Inr (step_out k, count_step k s2)" and w: "world s s2"
    and k: "kinv D (max_num_batched_tokens (s_config s)) (max_num_seqs (s_config s)) s2 k"
    using schedule_runs [OF inv] by blast
  have w': "world s (count_step k s2)" using w by (simp add: world_def)
  have "sched_inv D (count_step k s2)"
    using sched_inv_world [OF inv w'] k by (simp add: kinv_def)
  moreover have cfg: "s_config s2 = s_config s" using w by (simp add: world_def)
  moreover have "d_is_prefill (items k ! i) \<longleftrightarrow> i < length (k_prefills k)" if "i < length (items k)" for i
    using k that by (cases "i < length (k_prefills k)") (auto simp: kinv_def nth_append)
  ultimately have "batch_ok (count_step k s2) (step_out k)"
    using k unfolding batch_ok_def step_out_def num_batched_tokens_def kinv_def
    by auto
  then show ?thesis using r w' \<open>sched_inv D (count_step k s2)\<close> by blast
qed

section \<open>Requests come and go\<close>

lemma wq_inv_tenants:
  assumes "wq_inv ten w" "\<And>x. x \<in> set (wq_items w) \<Longrightarrow> ten' x = ten x"
  shows "wq_inv ten' w"
proof (cases "w_fair w")
  case False
  then show ?thesis using assms(1) by (simp add: wq_inv_def)
next
  case True
  have "x \<in> set (wq_items w)" if "(t, xs) \<in> set (w_queues w)" "x \<in> set xs" for t xs x
    using that True by (force simp: wq_items_def)
  then show ?thesis
    using assms True by (fastforce simp: wq_inv_def)
qed

lemma add_sequence_ok:
  assumes inv: "sched_inv D s" and new: "q_id q = x" "x \<notin> everyone s" "x < s_counter s"
    and q: "seq_sane q" "q_table q = []" "q_computed q = 0" "q_reason q = None"
    and run: "add_sequence q s = Inr s'"
  shows "sched_inv D s' \<and> everyone s' = insert x (everyone s) \<and> s_by_request s' (q_request q) = Some x
     \<and> obj x s' = q\<lparr>q_status := Waiting\<rparr> \<and> (\<forall>y. y \<noteq> x \<longrightarrow> obj y s' = obj y s)"
proof -
  let ?q = "q\<lparr>q_status := Waiting\<rparr>" and ?S = "(s_seqs s)(x \<mapsto> q\<lparr>q_status := Waiting\<rparr>)"
  let ?w = "wq_push x (q_tenant q) (s_waiting s)"
  have s': "s' = put x ?q (s\<lparr>s_by_request := (s_by_request s)(q_request q \<mapsto> x), s_waiting := ?w\<rparr>)"
    and fresh: "s_by_request s (q_request q) = None"
    using run new(1) by (auto simp: add_sequence_def)
  have sc: "score D s" and qok: "queue_ok s" using inv by (simp_all add: sched_inv_def)
  have nx: "x \<notin> set (s_running s)" "x \<notin> set (s_preempted s)" "x \<notin> set (wq_items (s_waiting s))"
    using new(2) by (auto simp: everyone_def)
  have "tenant_of s' y = tenant_of s y" if "y \<in> set (wq_items (s_waiting s))" for y
  proof -
    have "y \<noteq> x" using that nx(3) by blast
    then show ?thesis by (simp add: s' tenant_of_def)
  qed
  then have ten: "wq_inv (tenant_of s') (s_waiting s)"
    using qok wq_inv_tenants [of "tenant_of s" "s_waiting s"] by (simp add: queue_ok_def)
  have tx: "tenant_of s' x = q_tenant q" by (simp add: s' tenant_of_def)
  have items: "mset (wq_items ?w) = add_mset x (mset (wq_items (s_waiting s)))"
    by (rule wq.push_items [OF ten])
  then have "mset (wq_items ?w) = mset (x # wq_items (s_waiting s))" by simp
  then have it: "set (wq_items ?w) = insert x (set (wq_items (s_waiting s)))" "distinct (wq_items ?w)"
    using nx(3) qok mset_eq_setD mset_eq_imp_distinct_iff unfolding queue_ok_def by (metis list.simps(15), metis distinct.simps(2))
  have qok': "queue_ok s'"
    using wq.push_inv [OF ten tx] it(2) by (simp add: queue_ok_def s')
  have same: "frame (refs (s_seqs s) (remove1 x (s_running s))) x (s_bm s) (s_bm s)" by simp
  have st: "bm_state (s_bm s) x = None" using sc nx(1) by (auto simp: core_def)
  have "idle Waiting (s_bm s) ?S x"
    using q new(1) st by (auto simp: idle_def seq_sane_def seq_wf_def num_tokens_def token_ids_def)
  then have "idle Waiting (s_bm s) ?S y" if "y \<in> set (wq_items ?w)" for y
    using core_others(3) [OF sc same, of ?S y] that it(1) by (cases "y = x") auto
  moreover have "live D (s_bm s) ?S y" if "y \<in> set (s_running s)" for y
    using core_others(1) [OF sc same, of ?S y] that nx(1) by (cases "y = x") auto
  moreover have "idle Preempted (s_bm s) ?S y" if "y \<in> set (s_preempted s)" for y
    using core_others(2) [OF sc same, of ?S y] that nx(2) by (cases "y = x") auto
  moreover have "set (wq_items ?w) \<inter> set (s_running s @ s_preempted s) = {}"
    using sc nx unfolding it(1) by (auto simp: core_def)
  moreover have "bm_inv (refs ?S (s_running s)) (s_bm s)" using sc refs_other [OF nx(1)] by (simp add: core_def)
  ultimately have "core D (s_bm s) ?S (s_running s) (s_preempted s) (set (wq_items ?w))"
    using sc by (simp add: core_def)
  then have "score D s'" by (simp add: s')
  moreover have ev: "everyone s' = insert x (everyone s)" by (auto simp: s' everyone_def it(1))
  moreover have "s_by_request s' r = Some y \<longleftrightarrow> y \<in> everyone s' \<and> q_request (obj y s') = r" for r y
  proof -
    have br: "s_by_request s r = Some y \<longleftrightarrow> y \<in> everyone s \<and> q_request (obj y s) = r" for r y
      using inv unfolding sched_inv_def by blast
    then have "\<not> (y \<in> everyone s \<and> q_request (obj y s) = q_request q)" for y
      using fresh by (metis option.distinct(1))
    then show ?thesis using br [of r y] new(2) unfolding ev by (auto simp: s')
  qed
  ultimately have "sched_inv D s'"
    using inv qok' new(3) by (simp add: sched_inv_def s')
  then show ?thesis using ev by (simp add: s')
qed

lemma add_request_ok:
  assumes inv: "sched_inv D s" and enc: "encodable lora tokens"
    and run: "add_request rid tokens params tenant prio lora arrival s = Inr (x, s')"
  shows "sched_inv D s' \<and> everyone s' = insert x (everyone s) \<and> x \<notin> everyone s
     \<and> s_by_request s' rid = Some x \<and> q_status (obj x s') = Waiting \<and> token_ids (obj x s') = tokens
     \<and> (\<forall>y. y \<noteq> x \<longrightarrow> obj y s' = obj y s)"
proof -
  obtain q where q: "seq_init (s_counter s) rid tokens
        (case params of None \<Rightarrow> sampling_default | Some p \<Rightarrow> p) tenant prio lora = Inr q"
    and a: "add_sequence (q\<lparr>q_timing := (q_timing q)\<lparr>t_arrival := Some arrival\<rparr>\<rparr>)
              (s\<lparr>s_counter := s_counter s + 1\<rparr>) = Inr s'" and x: "x = q_id q"
    using run by (auto simp: add_request_def)
  let ?s = "s\<lparr>s_counter := s_counter s + 1\<rparr>"
  let ?q = "q\<lparr>q_timing := (q_timing q)\<lparr>t_arrival := Some arrival\<rparr>\<rparr>"
  note qi = seq_init_wf [OF q]
  have obj': "obj y ?s = obj y s" for y by (simp add: obj_def)
  have "tenant_of ?s = tenant_of s" by (rule ext) (simp add: tenant_of_def obj_def)
  moreover have ev: "everyone ?s = everyone s" by (simp add: everyone_def)
  ultimately have inv': "sched_inv D ?s"
    using inv unfolding sched_inv_def queue_ok_def obj' by (auto simp: less_SucI)
  have xn: "x = s_counter s" using x qi by simp
  then have nx: "x \<notin> everyone s" using inv by (auto simp: sched_inv_def)
  have "q_reason q = None" using q by (auto simp: seq_init_def split: if_splits)
  moreover have "seq_sane ?q"
    using qi enc calculation by (auto simp add: seq_sane_def seq_wf_def num_tokens_def token_ids_def)
  ultimately have "sched_inv D s' \<and> everyone s' = insert x (everyone ?s) \<and> s_by_request s' (q_request ?q) = Some x
     \<and> obj x s' = ?q\<lparr>q_status := Waiting\<rparr> \<and> (\<forall>y. y \<noteq> x \<longrightarrow> obj y s' = obj y ?s)"
    using add_sequence_ok [OF inv' _ _ _ _ _ _ _ a, of x] qi x xn nx ev by simp
  then show ?thesis using qi nx ev obj' by (auto simp add: token_ids_def)
qed

text \<open>When a request is turned down.\<close>

lemma add_request_accepts:
  "returns (add_request rid tokens params tenant prio lora arrival s) \<longleftrightarrow>
     s_by_request s rid = None \<and> tokens \<noteq> [] \<and> no_lora \<le> lora
     \<and> ceil_div (length tokens) (cfg_block_size (s_config s)) \<le> a_num_blocks (bm_alloc (s_bm s))
     \<and> (enable_chunked_prefill (s_config s) \<or> length tokens \<le> max_num_batched_tokens (s_config s))"
  by (auto simp: returns_def add_request_def add_sequence_def seq_init_def num_blocks_needed_def num_tokens_def)

lemma core_finish:
  assumes sc: "score D s" and qok: "queue_ok s" and x: "x \<in> everyone s"
    and q_def: "q = seq_finish r now st (obj x s)"
  shows "\<exists>q' m s'. bm_free D q (s_bm s) = Inr (q', m) \<and> q' = q\<lparr>q_table := []\<rparr>
     \<and> sched_detach x (put x q' (s\<lparr>s_bm := m\<rparr>)) = s' \<and> score D s' \<and> queue_ok s'
     \<and> everyone s' = everyone s - {x} \<and> obj x s' = q' \<and> (\<forall>y. y \<noteq> x \<longrightarrow> obj y s' = obj y s)
     \<and> s_by_request s' = (s_by_request s)(q_request (obj x s) := None)
     \<and> bm_block_size m = bm_block_size (s_bm s)
     \<and> s_config s' = s_config s \<and> s_counter s' = s_counter s \<and> s_bm s' = m
     \<and> a_num_blocks (bm_alloc m) = a_num_blocks (bm_alloc (s_bm s))"
proof (cases "x \<in> set (s_running s)")
  case True
  obtain m where f: "bm_free D q (s_bm s) = Inr (q\<lparr>q_table := []\<rparr>, m)"
    and c: "core D m ((s_seqs s)(x \<mapsto> q\<lparr>q_table := []\<rparr>)) (remove1 x (s_running s)) (s_preempted s)
              (set (wq_items (s_waiting s)))"
    and fr: "frame (refs (s_seqs s) (remove1 x (s_running s))) x (s_bm s) m"
    using core_free [OF sc True, of q r now st] by (auto simp: q_def obj_def)
  let ?q = "q\<lparr>q_table := []\<rparr>"
  let ?s = "sched_detach x (put x ?q (s\<lparr>s_bm := m\<rparr>))"
  have fl: "s_bm ?s = m" "s_seqs ?s = (s_seqs s)(x \<mapsto> ?q)" "s_running ?s = remove1 x (s_running s)"
    "s_preempted ?s = s_preempted s" "s_waiting ?s = s_waiting s" "s_config ?s = s_config s"
    "s_counter ?s = s_counter s" "s_by_request ?s = (s_by_request s)(q_request (obj x s) := None)"
    using True by (simp_all add: sched_detach_def Let_def q_def)
  have o: "obj y ?s = (if y = x then ?q else obj y s)" for y unfolding obj_def fl(2) by simp
  have "tenant_of ?s = tenant_of s" by (rule ext) (simp only: tenant_of_def o, simp add: q_def)
  then have "queue_ok ?s" using qok by (simp add: queue_ok_def fl)
  moreover have "everyone ?s = everyone s - {x}"
    using sc True by (auto simp: everyone_def fl core_def)
  moreover have "bm_block_size m = bm_block_size (s_bm s)" "a_num_blocks (bm_alloc m) = a_num_blocks (bm_alloc (s_bm s))"
    using frame_sizes [OF fr] by simp_all
  ultimately show ?thesis using f c fl o by (intro exI [of _ ?q] exI [of _ m] exI [of _ ?s]) simp
next
  case False
  have xp: "x \<in> set (s_preempted s) \<union> set (wq_items (s_waiting s))" using x False by (auto simp: everyone_def)
  have f: "bm_free D q (s_bm s) = Inr (q, s_bm s)"
    and c: "core D (s_bm s) ((s_seqs s)(x \<mapsto> q)) (s_running s) (remove1 x (s_preempted s))
             (set (wq_items (s_waiting s)) - {x})"
    using core_free_idle [OF sc xp, of q r now st] by (auto simp: q_def obj_def)
  have tb: "q\<lparr>q_table := []\<rparr> = q"
  proof -
    have "q_table (obj x s) = []" using sc xp by (auto simp: core_def idle_def obj_def)
    then have "q_table q = []" by (simp add: q_def)
    then show ?thesis by (cases q) simp
  qed
  let ?s = "sched_detach x (put x q (s\<lparr>s_bm := s_bm s\<rparr>))"
  let ?w = "if x \<in> set (s_preempted s) then s_waiting s else snd (wq_remove x (q_tenant q) (s_waiting s))"
  have fl: "s_bm ?s = s_bm s" "s_seqs ?s = (s_seqs s)(x \<mapsto> q)" "s_running ?s = s_running s"
    "s_preempted ?s = remove1 x (s_preempted s)" "s_waiting ?s = ?w" "s_config ?s = s_config s"
    "s_counter ?s = s_counter s" "s_by_request ?s = (s_by_request s)(q_request (obj x s) := None)"
    using False by (simp_all add: sched_detach_def Let_def q_def remove1_idem)
  have o: "obj y ?s = (if y = x then q else obj y s)" for y unfolding obj_def fl(2) by simp
  have ten: "tenant_of ?s = tenant_of s" by (rule ext) (simp only: tenant_of_def o, simp add: q_def)
  have qt: "q_tenant q = tenant_of s x" by (simp add: tenant_of_def q_def)
  have inv: "wq_inv (tenant_of s) (s_waiting s)" and d: "distinct (wq_items (s_waiting s))"
    using qok by (simp_all add: queue_ok_def)
  have w: "wq_inv (tenant_of s) ?w \<and> distinct (wq_items ?w) \<and> set (wq_items ?w) = set (wq_items (s_waiting s)) - {x}"
  proof (cases "x \<in> set (s_preempted s)")
    case True
    then have "x \<notin> set (wq_items (s_waiting s))" using sc by (auto simp: core_def)
    then show ?thesis using True inv d by simp
  next
    case False
    let ?w' = "snd (wq_remove x (tenant_of s x) (s_waiting s))"
    have i: "mset (wq_items ?w') = mset (wq_items (s_waiting s)) - {#x#}"
      using wq.remove_items [OF inv] by blast
    then have "mset (wq_items ?w') = mset (remove1 x (wq_items (s_waiting s)))" by simp
    then have "distinct (wq_items ?w')" "set (wq_items ?w') = set (remove1 x (wq_items (s_waiting s)))"
      using d mset_eq_imp_distinct_iff mset_eq_setD distinct_remove1 by (metis, metis)
    then show ?thesis using False wq.remove_inv [OF inv] d qt by simp
  qed
  then have "queue_ok ?s" unfolding queue_ok_def ten fl(5) by blast
  moreover have "everyone ?s = everyone s - {x}"
    using w False sc unfolding everyone_def fl by (auto simp: core_def)
  moreover have "score D ?s" unfolding fl using w c by simp
  ultimately show ?thesis
    using f fl o tb by (intro exI [of _ q] exI [of _ "s_bm s"] exI [of _ ?s]) simp
qed

lemma finish_ok:
  assumes inv: "sched_inv D s" and x: "x \<in> everyone s"
  shows "\<exists>s'. sched_finish D x r now st s = Inr s' \<and> sched_inv D s' \<and> everyone s' = everyone s - {x}
     \<and> obj x s' = (seq_finish r now st (obj x s))\<lparr>q_table := []\<rparr> \<and> (\<forall>y. y \<noteq> x \<longrightarrow> obj y s' = obj y s)
     \<and> s_by_request s' = (s_by_request s)(q_request (obj x s) := None) \<and> s_num_finished s' = s_num_finished s + 1
     \<and> s_config s' = s_config s \<and> s_counter s' = s_counter s
     \<and> a_num_blocks (bm_alloc (s_bm s')) = a_num_blocks (bm_alloc (s_bm s))"
proof -
  have sc: "score D s" and qok: "queue_ok s" using inv by (simp_all add: sched_inv_def)
  let ?q = "seq_finish r now st (obj x s)"
  obtain q' m s' where f: "bm_free D ?q (s_bm s) = Inr (q', m)" and q': "q' = ?q\<lparr>q_table := []\<rparr>"
    and d: "sched_detach x (put x q' (s\<lparr>s_bm := m\<rparr>)) = s'" and c: "score D s'" and qo: "queue_ok s'"
    and ev: "everyone s' = everyone s - {x}" and ox: "obj x s' = q'" and o: "\<forall>y. y \<noteq> x \<longrightarrow> obj y s' = obj y s"
    and br: "s_by_request s' = (s_by_request s)(q_request (obj x s) := None)"
    and sz: "bm_block_size m = bm_block_size (s_bm s)" "s_config s' = s_config s" "s_counter s' = s_counter s"
      "s_bm s' = m" "a_num_blocks (bm_alloc m) = a_num_blocks (bm_alloc (s_bm s))"
    using core_finish [OF sc qok x refl, of r now st] by (elim exE conjE) (rule that; assumption)
  let ?s = "s'\<lparr>s_num_finished := s_num_finished s' + 1\<rparr>"
  have nf: "s_num_finished s' = s_num_finished s"
    unfolding d [symmetric] by (simp add: sched_detach_def Let_def)
  have run: "sched_finish D x r now st s = Inr ?s" using f d by (simp add: sched_finish_def Let_def)
  have ob: "obj y ?s = obj y s'" for y by simp
  have ten: "tenant_of ?s = tenant_of s'" by (rule ext) (simp add: tenant_of_def)
  have ev': "everyone ?s = everyone s'" by (simp add: everyone_def)
  have brs: "s_by_request s rr = Some y \<longleftrightarrow> y \<in> everyone s \<and> q_request (obj y s) = rr" for rr y
    using inv by (simp add: sched_inv_def)
  have "s_by_request ?s rr = Some y \<longleftrightarrow> y \<in> everyone ?s \<and> q_request (obj y ?s) = rr" for rr y
  proof (cases "rr = q_request (obj x s)")
    case True
    then have "y = x" if "y \<in> everyone s" "q_request (obj y s) = rr"
      using brs [of rr y] brs [of rr x] that x by simp
    then show ?thesis using True br o unfolding ev' ev ob by auto
  next
    case False
    then show ?thesis using br brs [of rr y] o unfolding ev' ev ob by auto
  qed
  then have "sched_inv D ?s"
    using inv c qo sz ev unfolding sched_inv_def queue_ok_def ten ev' by simp
  then show ?thesis using run ev' ev ox q' o br sz nf by (intro exI [of _ ?s]) simp
qed

lemma abort_ok:
  assumes inv: "sched_inv D s"
  shows "\<exists>hit s'. sched_abort D rid now s = Inr (hit, s') \<and> sched_inv D s' \<and> s_by_request s' rid = None
     \<and> (hit \<longleftrightarrow> s_by_request s rid \<noteq> None)"
proof (cases "s_by_request s rid")
  case None
  then have "sched_abort D rid now s = Inr (False, s)" by (simp add: sched_abort_def)
  then show ?thesis using inv None by blast
next
  case (Some x)
  then have x: "x \<in> everyone s" "q_request (obj x s) = rid" using inv by (auto simp: sched_inv_def)
  obtain s' where "sched_finish D x Abort now None s = Inr s'" "sched_inv D s'"
      "s_by_request s' = (s_by_request s)(q_request (obj x s) := None)"
    using finish_ok [OF inv x(1)] by blast
  then have "sched_abort D rid now s = Inr (True, s')" "s_by_request s' rid = None"
    using Some x(2) by (simp_all add: sched_abort_def)
  then show ?thesis using Some \<open>sched_inv D s'\<close> by blast
qed

lemma sched_inv_replace:
  assumes inv: "sched_inv D s" and x: "x \<in> set (s_running s)"
    and fr: "frame (refs (s_seqs s) (remove1 x (s_running s))) x (s_bm s) m"
    and bm: "bm_inv (refs (s_seqs s) (remove1 x (s_running s)) + mset (q_table q)) m" and st: "bm_state m x \<noteq> None"
    and q: "q_id q = x" "seq_sane q" "q_status q = Running" "seq_held D m q"
    and same: "q_request q = q_request (obj x s)" "q_tenant q = q_tenant (obj x s)"
  shows "sched_inv D (put x q (s\<lparr>s_bm := m\<rparr>))"
proof -
  let ?s = "put x q (s\<lparr>s_bm := m\<rparr>)"
  have "score D s" using inv by (simp add: sched_inv_def)
  from core_replace [OF this x fr bm st q] have "score D ?s" by simp
  moreover have "tenant_of ?s = tenant_of s" by (rule ext) (use same in \<open>simp add: tenant_of_def\<close>)
  moreover have "q_request (obj y ?s) = q_request (obj y s)" for y using same by simp
  moreover have "bm_block_size m = bm_block_size (s_bm s)" using fr by (simp add: frame_def)
  moreover have "everyone ?s = everyone s" by (simp add: everyone_def)
  ultimately show ?thesis using inv by (simp add: sched_inv_def queue_ok_def)
qed

text \<open>The record of a request that has left may change freely.\<close>

lemma sched_inv_put_gone:
  assumes inv: "sched_inv D s" and x: "x \<notin> everyone s"
  shows "sched_inv D (put x q s)"
proof -
  let ?s = "put x q s"
  have sc: "score D s" using inv by (simp add: sched_inv_def)
  have eq: "s_seqs ?s y = s_seqs s y" if "y \<in> everyone s" for y using that x by auto
  have r: "set (s_running s) \<subseteq> everyone s" "set (s_preempted s) \<subseteq> everyone s" "set (wq_items (s_waiting s)) \<subseteq> everyone s"
    by (auto simp: everyone_def)
  have "x \<notin> set (s_running s)" using x r by blast
  then have "refs (s_seqs ?s) (s_running s) = refs (s_seqs s) (s_running s)" by (simp add: refs_other)
  moreover have "live D m (s_seqs ?s) y = live D m (s_seqs s) y" "idle st m (s_seqs ?s) y = idle st m (s_seqs s) y"
    if "y \<in> everyone s" for m st y using eq [OF that] by (simp_all add: live_def idle_def del: put_fields)
  ultimately have "score D ?s" using sc r unfolding core_def by (auto simp del: put_fields(7) simp: subset_iff)
  moreover have "wq_inv (tenant_of ?s) (s_waiting s)"
    by (rule wq_inv_tenants [of "tenant_of s"]) (use inv x in \<open>auto simp: sched_inv_def queue_ok_def tenant_of_def everyone_def\<close>)
  moreover have "everyone ?s = everyone s" by (simp add: everyone_def)
  moreover have "(y \<in> everyone s \<and> q_request (obj y ?s) = r) = (y \<in> everyone s \<and> q_request (obj y s) = r)" for y r
    using x by auto
  ultimately show ?thesis using inv unfolding sched_inv_def queue_ok_def put_fields by simp
qed

text \<open>A sampled token: published hashes of the sequence stay valid because its prefix does.\<close>

lemma seq_held_token:
  assumes held: "seq_held D m q" and c: "q_computed q \<le> num_tokens q"
    and q': "q_id q' = q_id q" "q_table q' = q_table q" "q_computed q' = q_computed q" "q_lora q' = q_lora q"
      "token_ids q' = token_ids q @ ts"
  shows "seq_held D m q'"
proof (cases "bm_state m (q_id q)")
  case None
  then show ?thesis using held q' by (simp add: seq_held_def)
next
  case (Some st)
  let ?bs = "bm_block_size m"
  have h: "sb_published st * ?bs \<le> q_computed q"
    and unp: "\<And>i. i < length (q_table q) \<Longrightarrow> sb_published st \<le> i \<Longrightarrow> c_by_block (bm_cache m) (q_table q ! i) = None"
    using held Some by (auto elim: seq_heldE)
  have ch: "chain_of D ?bs q' i = chain_of D ?bs q i" if "i < sb_published st" for i
  proof -
    have "Suc i * ?bs \<le> sb_published st * ?bs" using that by (intro mult_le_mono1) simp
    then have "Suc i * ?bs \<le> length (token_ids q)" using h c by (simp add: num_tokens_token_ids)
    then show ?thesis unfolding chain_of_def q' by (rule prefix_hash_append)
  qed
  then have "map (chain_of D ?bs q') [0..<sb_published st] = map (chain_of D ?bs q) [0..<sb_published st]"
    by simp
  moreover have "e_hash e = chain_of D ?bs q' i"
    if i: "i < length (q_table q)" "c_by_block (bm_cache m) (q_table q ! i) = Some e" for i e
  proof -
    have "i < sb_published st" using unp [OF i(1)] i(2) by (metis not_le_imp_less option.distinct(1))
    then show ?thesis using ch held Some i by (simp add: seq_held_def)
  qed
  ultimately show ?thesis using held Some q' by (simp add: seq_held_def)
qed

lemma seq_append_token_fields:
  "seq_append_token t now q = Inr q' \<Longrightarrow> token_ids q' = token_ids q @ [t] \<and> q_table q' = q_table q
     \<and> q_computed q' = q_computed q \<and> q_status q' = q_status q \<and> q_lora q' = q_lora q \<and> q_id q' = q_id q
     \<and> q_request q' = q_request q \<and> q_tenant q' = q_tenant q \<and> q_reason q' = q_reason q
     \<and> q_prompt q' = q_prompt q \<and> q_output q' = q_output q @ [t]"
  by (auto simp: seq_append_token_def token_ids_def Let_def split: if_splits)

lemma put_token_ok:
  assumes inv: "sched_inv D s" and x: "x \<in> set (s_running s)" and t: "fits64 t"
    and a: "seq_append_token t now (obj x s) = Inr q"
  shows "sched_inv D (put x q s)"
proof -
  have sc: "score D s" using inv by (simp add: sched_inv_def)
  obtain q0 where q0: "s_seqs s x = Some q0" "q_id q0 = x" "seq_sane q0" "q_status q0 = Running"
      "bm_state (s_bm s) x \<noteq> None" "seq_held D (s_bm s) q0"
    using sc x by (auto simp: core_def live_def)
  have o: "obj x s = q0" using q0(1) by (simp add: obj_def)
  note f = seq_append_token_fields [OF a [unfolded o]]
  have c: "q_computed q0 \<le> num_tokens q0" using q0(3) by (simp add: seq_sane_def seq_wf_def)
  have "seq_held D (s_bm s) q" by (rule seq_held_token [OF q0(6) c, of q "[t]"]) (use f in simp_all)
  moreover have "seq_sane q"
    using q0(3) f t seq_append_token_wf [OF _ a [unfolded o]]
    by (auto simp: seq_sane_def encodable_def)
  moreover have "bm_inv (refs (s_seqs s) (remove1 x (s_running s)) + mset (q_table q)) (s_bm s)"
    using sc refs_split [OF x, of "s_seqs s"] q0(1) f by (simp add: core_def)
  ultimately have "sched_inv D (put x q (s\<lparr>s_bm := s_bm s\<rparr>))"
    by (intro sched_inv_replace [OF inv x]) (use q0 f o in simp_all)
  then show ?thesis by simp
qed

lemma append_token_ok:
  assumes inv: "sched_inv D s" and x: "x \<in> set (s_running s)" and t: "fits64 t"
  shows "\<exists>reason s'. append_token D x t eos now s = Inr (reason, s') \<and> sched_inv D s'
     \<and> (reason = None \<longrightarrow> everyone s' = everyone s \<and> token_ids (obj x s') = token_ids (obj x s) @ [t])
     \<and> (reason \<noteq> None \<longrightarrow> everyone s' = everyone s - {x} \<and> q_status (obj x s') = Finished
          \<and> q_output (obj x s') = q_output (obj x s) @ [t])"
proof -
  have sc: "score D s" using inv by (simp add: sched_inv_def)
  have xe: "x \<in> everyone s" using x by (simp add: everyone_def)
  have "\<not> is_finished (obj x s)" using running_status [OF sc xe] x by (simp add: is_finished_def)
  then obtain q where a: "seq_append_token t now (obj x s) = Inr q" using seq_append_token_eq by blast
  note f = seq_append_token_fields [OF a]
  have inv': "sched_inv D (put x q s)" by (rule put_token_ok [OF inv x t a])
  have ev: "everyone (put x q s) = everyone s" by (simp add: everyone_def)
  show ?thesis
  proof (cases "check_stop t eos q")
    case None
    then have "append_token D x t eos now s = Inr (None, put x q s)" using a by (simp add: append_token_def)
    then show ?thesis using inv' ev f by auto
  next
    case (Some r)
    let ?st = "if r = Stop then Some t else None"
    have "x \<in> everyone (put x q s)" using xe ev by simp
    then obtain s' where s': "sched_finish D x r now ?st (put x q s) = Inr s'" "sched_inv D s'"
      "everyone s' = everyone (put x q s) - {x}"
      "obj x s' = (seq_finish r now ?st (obj x (put x q s)))\<lparr>q_table := []\<rparr>"
      using finish_ok [OF inv'] by blast
    have "append_token D x t eos now s = Inr (Some r, s')" using a Some s'(1) by (simp add: append_token_def)
    then show ?thesis using s' ev f by (intro exI [of _ "Some r"] exI [of _ s']) simp
  qed
qed

lemma reset_ok:
  assumes inv: "sched_inv D s"
  shows "sched_inv D (sched_reset s)" "everyone (sched_reset s) = {}"
    "num_allocatable (bm_alloc (s_bm (sched_reset s))) = a_num_blocks (bm_alloc (s_bm s))"
proof -
  have "bm_inv (refs (s_seqs s) (s_running s)) (s_bm s)" using inv by (simp add: sched_inv_def core_def)
  note r = bm_reset_inv [OF this]
  show ev: "everyone (sched_reset s) = {}"
    by (simp add: everyone_def sched_reset_def wq_clear_def wq_items_def)
  have "wq_inv ten (wq_clear (s_waiting s))" "wq_items (wq_clear (s_waiting s)) = []" for ten
    by (simp_all add: wq_inv_def wq_clear_def wq_items_def)
  then show "sched_inv D (sched_reset s)"
    using r inv ev by (simp add: sched_inv_def core_def queue_ok_def sched_reset_def bm_reset_def)
  show "num_allocatable (bm_alloc (s_bm (sched_reset s))) = a_num_blocks (bm_alloc (s_bm s))"
    by (simp add: num_allocatable_def sched_reset_def bm_reset_def alloc_reset_def)
qed

end
