(* ===== verification/Scheduler_Batch.thy ===== *)
theory Scheduler_Batch
  imports Scheduler_Safe
begin

text \<open>
  What the invariant and \<open>batch_ok\<close> mean for the runtime: the batch writes every KV slot at
  most once, only into blocks that nobody else can see, the index helpers agree with the
  packed layout, and the attention metadata built from the batch passes its validator.
\<close>

section \<open>KV slots\<close>

lemma batch_item:
  assumes inv: "sched_inv D s" and b: "batch_ok s out" and d: "d \<in> set (out_scheduled out)"
  shows "item_ok (s_bm s) (s_seqs s) d" "d_seq d \<in> set (s_running s)"
    "d_block_table d = q_table (obj (d_seq d) s)"
    "refs (s_seqs s) (s_running s) = refs (s_seqs s) (remove1 (d_seq d) (s_running s)) + mset (d_block_table d)"
    "bm_inv (refs (s_seqs s) (s_running s)) (s_bm s)" "0 < bm_block_size (s_bm s)"
proof -
  show i: "item_ok (s_bm s) (s_seqs s) d" and r: "d_seq d \<in> set (s_running s)"
    using b d by (auto simp: batch_ok_def)
  show t: "d_block_table d = q_table (obj (d_seq d) s)" using i by (simp add: item_ok_def Let_def obj_def)
  show "refs (s_seqs s) (s_running s) = refs (s_seqs s) (remove1 (d_seq d) (s_running s)) + mset (d_block_table d)"
    using refs_split [OF r] t by (simp add: obj_def)
  show "bm_inv (refs (s_seqs s) (s_running s)) (s_bm s)" using inv by (simp add: sched_inv_def core_def)
  then show "0 < bm_block_size (s_bm s)" by (simp add: bm_inv_def)
qed

lemma item_facts:
  assumes "item_ok m S d"
  shows "1 \<le> d_num_new d" "d_num_new d \<le> d_context_len d" "d_context_len d = q_computed (the (S (d_seq d)))"
    "q_computed (the (S (d_seq d))) \<le> num_tokens (the (S (d_seq d)))"
    "d_token_ids d = take (d_num_new d) (drop (item_start d) (token_ids (the (S (d_seq d)))))"
    "item_positions d = [item_start d..<item_start d + d_num_new d]"
    "d_is_prefill d \<longleftrightarrow> item_start d < num_prompt_tokens (the (S (d_seq d)))"
    "samples_token d \<longleftrightarrow> num_prompt_tokens (the (S (d_seq d))) \<le> d_context_len d"
  using assms unfolding item_ok_def Let_def item_positions_def item_start_def samples_token_def by auto

lemma item_position:
  assumes i: "item_ok m S d" and bs: "0 < bm_block_size m" and p: "p \<in> set [item_start d..<d_context_len d]"
  shows "p div bm_block_size m < length (d_block_table d)"
    "c_by_block (bm_cache m) (d_block_table d ! (p div bm_block_size m)) = None"
proof -
  have "p < length (d_block_table d) * bm_block_size m"
    using i p by (auto simp: item_ok_def Let_def intro: order_less_le_trans)
  then show l: "p div bm_block_size m < length (d_block_table d)" by (simp add: less_mult_imp_div_less)
  have "item_start d div bm_block_size m \<le> p div bm_block_size m" using p by (simp add: div_le_mono)
  then show "c_by_block (bm_cache m) (d_block_table d ! (p div bm_block_size m)) = None"
    using i l unfolding item_ok_def Let_def by blast
qed

text \<open>A written block has one reference, its writer's, and is not in the prefix cache.\<close>

lemma written_block_exclusive:
  assumes inv: "sched_inv D s" and b: "batch_ok s out" and d: "d \<in> set (out_scheduled out)"
    and p: "p \<in> set (item_positions d)"
  shows "count (refs (s_seqs s) (s_running s)) (d_block_table d ! (p div bm_block_size (s_bm s))) = 1"
    "\<not> pc_contains (d_block_table d ! (p div bm_block_size (s_bm s))) (bm_cache (s_bm s))"
proof -
  note di = batch_item [OF inv b d]
  have "p \<in> set [item_start d..<d_context_len d]" using p by (simp add: item_positions_def item_start_def)
  note ip = item_position [OF di(1,6) this]
  show "\<not> pc_contains (d_block_table d ! (p div bm_block_size (s_bm s))) (bm_cache (s_bm s))"
    using ip(2) by (simp add: pc_contains_def)
  have "count (refs (s_seqs s) (s_running s)) (d_block_table d ! (p div bm_block_size (s_bm s))) \<le> 1"
    by (rule uncached_exclusive [OF di(5) ip(2)])
  moreover have "0 < count (refs (s_seqs s) (s_running s)) (d_block_table d ! (p div bm_block_size (s_bm s)))"
    unfolding di(4) count_union using count_mset_nth_pos [OF ip(1)] by linarith
  ultimately show "count (refs (s_seqs s) (s_running s)) (d_block_table d ! (p div bm_block_size (s_bm s))) = 1"
    by linarith
qed

lemma item_slots: "item_ok m S d \<Longrightarrow>
    d_slots d = map (slot_at (bm_block_size m) (d_block_table d)) [item_start d..<d_context_len d]"
  by (simp add: item_ok_def Let_def)

lemma slots_within:
  assumes inv: "sched_inv D s" and b: "batch_ok s out" and d: "d \<in> set (out_scheduled out)"
  shows "distinct (d_slots d)"
proof -
  note di = batch_item [OF inv b d]
  let ?bs = "bm_block_size (s_bm s)" and ?t = "d_block_table d"
  let ?F = "refs (s_seqs s) (remove1 (d_seq d) (s_running s))"
  have inv': "bm_inv (?F + mset (q_table (obj (d_seq d) s))) (s_bm s)"
    using di(5) unfolding di(4) di(3) .
  have "inj_on (slot_at ?bs ?t) (set [item_start d..<d_context_len d])"
  proof (rule inj_onI)
    fix p p' assume p: "p \<in> set [item_start d..<d_context_len d]" and p': "p' \<in> set [item_start d..<d_context_len d]"
      and e: "slot_at ?bs ?t p = slot_at ?bs ?t p'"
    note ip = item_position [OF di(1,6) p] and ip' = item_position [OF di(1,6) p']
    have "p' div ?bs = p div ?bs"
      using uncached_elsewhere(2) [OF inv' ip(1) [unfolded di(3)] ip(2) [unfolded di(3)] ip'(1) [unfolded di(3)]]
        slot_at_inj(1) [OF di(6) e, symmetric, unfolded di(3)] by (rule meta_mp)
    then show "p = p'" using slot_at_inj(2) [OF di(6) e] by (metis div_mult_mod_eq)
  qed
  then show ?thesis unfolding item_slots [OF di(1)] by (simp add: distinct_map)
qed

lemma slots_across:
  assumes inv: "sched_inv D s" and b: "batch_ok s out" and d: "d \<in> set (out_scheduled out)"
    and e: "e \<in> set (out_scheduled out)" and ne: "d_seq d \<noteq> d_seq e"
  shows "set (d_slots d) \<inter> set (d_slots e) = {}"
proof -
  note di = batch_item [OF inv b d] and ei = batch_item [OF inv b e]
  let ?R = "s_running s" and ?S = "s_seqs s"
  have "d_seq e \<in> set (remove1 (d_seq d) ?R)" using ne ei(2) by simp
  then have "refs ?S (remove1 (d_seq d) ?R) = refs ?S (remove1 (d_seq e) (remove1 (d_seq d) ?R)) + mset (d_block_table e)"
    using refs_split ei(3) by (metis obj_def)
  then have eq: "refs ?S ?R = refs ?S (remove1 (d_seq e) (remove1 (d_seq d) ?R)) + mset (d_block_table d) + mset (d_block_table e)"
    using di(4) by simp
  then have inv2: "bm_inv (refs ?S (remove1 (d_seq e) (remove1 (d_seq d) ?R)) + mset (q_table (obj (d_seq d) s))
      + mset (q_table (obj (d_seq e) s))) (s_bm s)"
    using di(5) unfolding di(3) ei(3) by simp
  have "slot_at (bm_block_size (s_bm s)) (d_block_table d) p \<noteq> slot_at (bm_block_size (s_bm s)) (d_block_table e) p'"
    if "p \<in> set [item_start d..<d_context_len d]" "p' \<in> set [item_start e..<d_context_len e]" for p p'
    using written_slot_private [OF inv2, of p p'] item_position [OF di(1,6) that(1)]
      item_position [OF ei(1,6) that(2)] unfolding di(3) ei(3) by blast
  then show ?thesis unfolding item_slots [OF di(1)] item_slots [OF ei(1)] by auto
qed

lemma slots_distinct_list:
  assumes "\<And>d. d \<in> set ds \<Longrightarrow> distinct (d_slots d)" "distinct (map d_seq ds)"
    and "\<And>d e. d \<in> set ds \<Longrightarrow> e \<in> set ds \<Longrightarrow> d_seq d \<noteq> d_seq e \<Longrightarrow> set (d_slots d) \<inter> set (d_slots e) = {}"
  shows "distinct (concat (map d_slots ds))"
  using assms
proof (induction ds)
  case Nil
  then show ?case by simp
next
  case (Cons d ds)
  have "set (d_slots d) \<inter> set (d_slots e) = {}" if "e \<in> set ds" for e
  proof -
    have "d_seq d \<noteq> d_seq e" using Cons.prems(2) that by (metis distinct.simps(2) image_eqI list.set_map list.simps(9))
    then show ?thesis using Cons.prems(3) [of d e] that by simp
  qed
  then have "set (d_slots d) \<inter> set (concat (map d_slots ds)) = {}" by auto
  moreover have "distinct (concat (map d_slots ds))" using Cons by (intro Cons.IH) auto
  ultimately show ?case using Cons.prems(1) by simp
qed

lemma batch_slots_distinct:
  assumes "sched_inv D s" "batch_ok s out"
  shows "distinct (concat (map d_slots (out_scheduled out)))"
proof (rule slots_distinct_list)
  show "distinct (map d_seq (out_scheduled out))" using assms(2) by (simp add: batch_ok_def)
qed (use slots_within [OF assms] slots_across [OF assms] in blast)+

text \<open>A block that two running sequences share holds the same prefix for both.\<close>

lemma running_share:
  assumes c: "score D s" and x: "x \<in> set (s_running s)" "y \<in> set (s_running s)" "x \<noteq> y"
    and i: "i < length (q_table (obj x s))" and j: "j < length (q_table (obj y s))"
    and eq: "q_table (obj x s) ! i = q_table (obj y s) ! j"
  shows "chain_of D (bm_block_size (s_bm s)) (obj x s) i = chain_of D (bm_block_size (s_bm s)) (obj y s) j"
proof -
  let ?R = "s_running s" and ?S = "s_seqs s"
  have inv: "bm_inv (refs ?S ?R) (s_bm s)" using c by (simp add: core_def)
  have y: "y \<in> set (remove1 x ?R)" using x by simp
  have "refs ?S ?R = refs ?S (remove1 y (remove1 x ?R)) + mset (q_table (obj y s)) + mset (q_table (obj x s))"
    using refs_split [OF x(1), of ?S] refs_split [OF y, of ?S] by (simp add: obj_def)
  then have r: "refs ?S ?R = refs ?S (remove1 y (remove1 x ?R)) + mset (q_table (obj x s)) + mset (q_table (obj y s))"
    by simp
  have "seq_held D (s_bm s) (obj x s)" "seq_held D (s_bm s) (obj y s)"
    using c x by (auto simp: core_def live_def obj_def)
  then show ?thesis using shared_block_same_hash [OF inv [unfolded r]] i j eq by blast
qed

section \<open>The packed layout\<close>

lemma item_lengths:
  "item_ok m S d \<Longrightarrow> length (d_slots d) = d_num_new d \<and> length (d_token_ids d) = d_num_new d
     \<and> length (item_positions d) = d_num_new d"
  by (auto simp: item_ok_def Let_def item_start_def item_positions_def num_tokens_token_ids)

text \<open>Each sampled row is the last row of its sequence's stretch of the packed batch.\<close>

lemma sample_loop_last:
  "sample_loop ds off = map (\<lambda>i. off + sum_list (map d_num_new (take (Suc i) ds)) - 1)
     (filter (\<lambda>i. samples_token (ds ! i)) [0..<length ds])"
proof (induction ds arbitrary: off)
  case Nil
  then show ?case by simp
next
  case (Cons d ds)
  have u: "[0..<length (d # ds)] = 0 # map Suc [0..<length ds]"
    by (simp add: upt_conv_Cons map_Suc_upt del: upt_Suc)
  show ?case
    unfolding u using Cons.IH [of "off + d_num_new d"]
    by (simp add: Let_def filter_map o_def add.assoc)
qed

section \<open>Attention metadata\<close>

lemma item_covered:
  assumes bs: "0 < bs" and ctx: "ctx \<le> length t * bs" "n \<le> ctx" and row: "take (length t) row = map int t"
  shows "seq_covered (Some (int bs)) row (int ctx) (int n) = Inr ()"
proof -
  have need: "- ((- int ctx) div int bs) = int (ceil_div ctx bs)" using ceil_div_neg [OF bs] by simp
  have le: "ceil_div ctx bs \<le> length t" using ctx(1) ceil_div_le_iff [OF bs] by simp
  have "take (ceil_div ctx bs) row = take (ceil_div ctx bs) (map int t)"
    using le row by (metis min.absorb1 take_take)
  then have "filter (\<lambda>b. b \<noteq> pad_block) (take (ceil_div ctx bs) row) = map int (take (ceil_div ctx bs) t)"
    by (simp add: take_map filter_id_conv pad_block_def)
  then have "int (length (filter (\<lambda>b. b \<noteq> pad_block) (take (ceil_div ctx bs) row))) = int (ceil_div ctx bs)"
    using le by simp
  then show ?thesis using ctx(2) unfolding seq_covered_def by (simp add: Let_def need)
qed

lemma all_covered_items:
  assumes bs: "0 < bs" and "\<And>d. d \<in> set ds \<Longrightarrow> d_context_len d \<le> length (d_block_table d) * bs \<and> d_num_new d \<le> d_context_len d"
    and "length tables = length ds"
    and "\<And>i. i < length ds \<Longrightarrow> take (length (d_block_table (ds ! i))) (tables ! i) = map int (d_block_table (ds ! i))"
  shows "all_covered (Some (int bs)) tables (map (int \<circ> d_context_len) ds) (map (int \<circ> d_num_new) ds) = Inr ()"
  using assms(2-)
proof (induction ds arbitrary: tables)
  case Nil
  then show ?case by simp
next
  case (Cons d ds)
  then obtain row rows where tb: "tables = row # rows" by (cases tables) auto
  have "seq_covered (Some (int bs)) row (int (d_context_len d)) (int (d_num_new d)) = Inr ()"
    using Cons.prems(1) [of d] Cons.prems(3) [of 0] tb by (intro item_covered [OF bs]) auto
  moreover have "all_covered (Some (int bs)) rows (map (int \<circ> d_context_len) ds) (map (int \<circ> d_num_new) ds) = Inr ()"
  proof (rule Cons.IH)
    show "take (length (d_block_table (ds ! i))) (rows ! i) = map int (d_block_table (ds ! i))" if "i < length ds" for i
      using Cons.prems(3) [of "Suc i"] that tb by simp
  qed (use Cons.prems tb in auto)
  ultimately show ?case using tb by (simp add: o_def)
qed

lemma query_locs_sorted:
  assumes "list_all (\<lambda>n. 0 \<le> n) qs"
  shows "\<not> list_ex (\<lambda>(a, b). b < a) (zip (butlast (build_query_start_loc qs)) (tl (build_query_start_loc qs)))"
proof
  assume "list_ex (\<lambda>(a, b). b < a) (zip (butlast (build_query_start_loc qs)) (tl (build_query_start_loc qs)))"
  then obtain a b where "(a, b) \<in> set (zip (butlast (build_query_start_loc qs)) (tl (build_query_start_loc qs)))" "b < a"
    by (auto simp: list_ex_iff)
  then have "b - a \<in> set (query_lens_of (build_query_start_loc qs))" "b - a < 0"
    by (force simp: query_lens_of_def)+
  then show False using assms by (auto simp: query_start_loc_roundtrip list_all_iff)
qed

lemma sum_list_int: "sum_list (map (int \<circ> f) xs) = int (sum_list (map f xs))"
  by (induction xs) auto

lemma length_concat_slots:
  "(\<And>d. d \<in> set ds \<Longrightarrow> length (d_slots d) = d_num_new d) \<Longrightarrow>
   length (concat (map d_slots ds)) = sum_list (map d_num_new ds)"
  by (induction ds) auto

lemma row_width_le: "(\<And>row. row \<in> set rows \<Longrightarrow> length row \<le> w) \<Longrightarrow> row_width rows \<le> w"
  by (induction rows) (auto simp: row_width_def)

lemma batch_metadata_valid:
  assumes inv: "sched_inv D s" and b: "batch_ok s out" and ne: "out_scheduled out \<noteq> []"
    and fit: "case mb of None \<Rightarrow> True | Some w \<Rightarrow> \<forall>d \<in> set (out_scheduled out). length (d_block_table d) \<le> w"
  shows "\<exists>meta. build_attn_metadata (int (cfg_block_size (s_config s))) mb out = Inr meta
     \<and> am_validate (Some (int (cfg_block_size (s_config s)))) meta = Inr ()"
proof -
  let ?ds = "out_scheduled out" and ?bs = "cfg_block_size (s_config s)"
  let ?rows = "map (\<lambda>d. map int (d_block_table d)) (out_scheduled out)"
  let ?qs = "map (int \<circ> d_num_new) ?ds" and ?cs = "map (int \<circ> d_context_len) ?ds"
  have bseq: "bm_block_size (s_bm s) = ?bs" using inv by (simp add: sched_inv_def)
  have ok: "item_ok (s_bm s) (s_seqs s) d" if "d \<in> set ?ds" for d using batch_item(1) [OF inv b that] .
  obtain d0 where "d0 \<in> set ?ds" using ne by (cases ?ds) auto
  then have bs: "0 < ?bs" using batch_item(6) [OF inv b] bseq by metis
  have cov: "d_context_len d \<le> length (d_block_table d) * ?bs \<and> d_num_new d \<le> d_context_len d" if "d \<in> set ?ds" for d
    using ok [OF that] unfolding item_ok_def Let_def bseq by blast
  have "row_width ?rows \<le> w" if "\<forall>d \<in> set ?ds. length (d_block_table d) \<le> w" for w
    using that by (intro row_width_le) auto
  then obtain tables where tb: "pad_block_tables ?rows mb = Inr tables"
    using fit by (auto simp: pad_block_tables_def not_less split: option.splits)
  note pre = pad_block_tables_prefix [OF tb]
  let ?m = "\<lparr>slot_mapping = map int (concat (map d_slots ?ds)), block_tables = tables,
           context_lens = ?cs, query_start_loc = build_query_start_loc ?qs,
           max_query_len = max_list ?qs, max_context_len = max_list ?cs,
           num_prefill_seqs = int (out_prefill_seqs out), num_decode_seqs = int (out_decode_seqs out)\<rparr>"
  have short: "\<not> list_ex (\<lambda>d. int (length (d_block_table d)) * int ?bs < int (d_context_len d)) ?ds"
    using cov by (auto simp: list_ex_iff not_less simp flip: of_nat_mult)
  have run: "build_attn_metadata (int ?bs) mb out = Inr ?m"
    unfolding build_attn_metadata_def Let_def using ne bs short tb by simp
  have n: "int (out_prefill_seqs out) + int (out_decode_seqs out) = int (length ?ds)"
    using b by (simp add: batch_ok_def flip: of_nat_add)
  have "length (d_slots d) = d_num_new d" if "d \<in> set ?ds" for d using item_lengths [OF ok [OF that]] by blast
  then have slots: "length (concat (map d_slots ?ds)) = sum_list (map d_num_new ?ds)" by (rule length_concat_slots)
  have "list_all (\<lambda>n. 0 \<le> n) ?qs" by (simp add: list_all_iff)
  note srt = query_locs_sorted [OF this]
  have lst: "last (build_query_start_loc ?qs) = int (length (concat (map d_slots ?ds)))"
    unfolding slots query_start_loc_last by (rule sum_list_int)
  have cv: "all_covered (Some (int ?bs)) tables ?cs ?qs = Inr ()"
    using all_covered_items [OF bs cov] pre by simp
  have len: "length (build_query_start_loc ?qs) = Suc (length ?ds)" by (simp add: build_query_start_loc_def)
  have h: "hd (build_query_start_loc ?qs) = 0" by (simp add: build_query_start_loc_def)
  have "am_validate (Some (int ?bs)) ?m = Inr ()"
    unfolding am_validate_def Let_def am_num_seqs_def am_num_tokens_def attn_meta.select_convs
      query_start_loc_roundtrip
    using n len h srt lst cv pre by simp
  then show ?thesis using run by blast
qed

section \<open>The self check\<close>

lemma by_request_card:
  assumes inv: "sched_inv D s"
  shows "card (everyone s) = card (dom (s_by_request s))"
proof -
  have br: "s_by_request s r = Some x \<longleftrightarrow> x \<in> everyone s \<and> q_request (obj x s) = r" for r x
    using inv by (simp add: sched_inv_def)
  have "bij_betw (\<lambda>x. q_request (obj x s)) (everyone s) (dom (s_by_request s))"
    unfolding bij_betw_def
  proof
    show "inj_on (\<lambda>x. q_request (obj x s)) (everyone s)"
    proof (rule inj_onI)
      fix x y assume "x \<in> everyone s" "y \<in> everyone s" "q_request (obj x s) = q_request (obj y s)"
      then show "x = y" using br [of "q_request (obj x s)" x] br [of "q_request (obj x s)" y] by simp
    qed
    show "(\<lambda>x. q_request (obj x s)) ` everyone s = dom (s_by_request s)"
    proof (intro equalityI subsetI)
      fix r assume "r \<in> (\<lambda>x. q_request (obj x s)) ` everyone s"
      then obtain x where "x \<in> everyone s" "r = q_request (obj x s)" by blast
      then have "s_by_request s r = Some x" using br [of r x] by simp
      then show "r \<in> dom (s_by_request s)" by blast
    next
      fix r assume "r \<in> dom (s_by_request s)"
      then obtain x where "s_by_request s r = Some x" by blast
      then show "r \<in> (\<lambda>x. q_request (obj x s)) ` everyone s" using br [of r x] by auto
    qed
  qed
  then show ?thesis by (rule bij_betw_same_card)
qed

lemma sched_check_ok:
  assumes inv: "sched_inv D s"
  shows "sched_check s = Inr ()"
proof -
  have sc: "score D s" using inv by (simp add: sched_inv_def)
  have "bm_inv (refs (s_seqs s) (s_running s)) (s_bm s)" using sc by (simp add: core_def)
  note bm = bm_check_ok [OF this]
  have st: "status_check Running False (s_running s) s = Inr ()"
    "status_check Preempted True (s_preempted s) s = Inr ()"
    "status_check Waiting False (wq_items (s_waiting s)) s = Inr ()"
    using sc by (auto simp: status_check_def list_ex_iff core_def live_def idle_def obj_def)
  have ev: "set (s_running s @ s_preempted s @ wq_items (s_waiting s)) = everyone s"
    by (auto simp: everyone_def)
  have le: "q_computed (obj x s) \<le> num_tokens (obj x s)" if "x \<in> everyone s" for x
    using sc that by (auto simp: everyone_def core_def live_def idle_def obj_def seq_sane_def seq_wf_def)
  have "\<not> (\<exists>r \<in> dom (s_by_request s). num_tokens (obj (the (s_by_request s r)) s)
               < q_computed (obj (the (s_by_request s r)) s))"
  proof (intro notI, elim bexE)
    fix r assume "r \<in> dom (s_by_request s)" and lt: "num_tokens (obj (the (s_by_request s r)) s)
               < q_computed (obj (the (s_by_request s r)) s)"
    then obtain x where x: "s_by_request s r = Some x" by blast
    then have "x \<in> everyone s" using inv unfolding sched_inv_def by blast
    then show False using le [of x] lt x by simp
  qed
  then show ?thesis unfolding sched_check_def bm st rbind.simps ev by_request_card [OF inv] by simp
qed

end
