(* ===== verification/Scheduler_Progress.thy ===== *)
theory Scheduler_Progress
  imports Scheduler_Batch
begin

text \<open>
  When a step makes progress. With nothing running, the whole pool can be handed out, so the
  head of the queue is admitted exactly when its blocks fit the pool. \<open>add_request\<close> checks
  that for the prompt only: a sequence that outgrows the pool while decoding preempts itself
  and is then never admitted again (\<open>stuck_step\<close>).
\<close>

lemma filter_retained_all:
  assumes inv: "bm_inv {#} m" and t: "set t \<subseteq> dom (c_by_block (bm_cache m))"
  shows "filter (\<lambda>b. b \<in> a_retained (bm_alloc m)) t = t"
proof -
  have ai: "alloc_inv (bm_alloc m)" and ct: "counted {#} (bm_alloc m)"
    using bm_inv_pool [OF inv] by (auto simp: pool_inv_def)
  have "b \<in> a_retained (bm_alloc m)" if "b \<in> set t" for b
  proof -
    have "b < a_num_blocks (bm_alloc m)" "b \<notin> set (a_free (bm_alloc m))"
      using that t bm_inv_pool [OF inv] unfolding pool_inv_def by blast+
    then show ?thesis using unreferenced_iff [OF ai ct] by auto
  qed
  then show ?thesis by (simp add: filter_id_conv)
qed

text \<open>With no references held, admission is decided by the size of the request alone.\<close>

lemma can_allocate_idle:
  assumes inv: "bm_inv {#} m" and sane: "seq_sane q"
  shows "can_allocate D q m = Inr (num_blocks_needed (bm_block_size m) q \<le> a_num_blocks (bm_alloc m))"
proof -
  have na: "num_allocatable (bm_alloc m) = a_num_blocks (bm_alloc m)" using bm_allocatable [OF inv] by simp
  show ?thesis
  proof (cases "bm_caching m")
    case False
    then show ?thesis by (simp add: can_allocate_def Let_def na)
  next
    case True
    obtain mt c where mt: "pc_match D (token_ids q) (q_lora q) (Some (max_hit_blocks (bm_block_size m) q)) False (bm_cache m)
         = Inr (mt, c)" and ent: "\<forall>i < length (m_blocks mt). \<exists>e. c_by_block (bm_cache m) (m_blocks mt ! i) = Some e
             \<and> e_hash e = chain_of D (bm_block_size m) q i"
      using admission_match [OF inv sane True, of D False] by blast
    have dom: "set (m_blocks mt) \<subseteq> dom (c_by_block (bm_cache m))"
      using ent by (fastforce simp: in_set_conv_nth)
    then have "set (m_blocks mt) \<subseteq> {..<a_num_blocks (bm_alloc m)}"
      using bm_inv_pool [OF inv] unfolding pool_inv_def by blast
    then show ?thesis
      using True mt retained_hits_eq [of "m_blocks mt" "bm_alloc m"] filter_retained_all [OF inv dom]
      by (simp add: can_allocate_def Let_def na pm_num_blocks_def)
  qed
qed

lemma idle_facts:
  assumes inv: "sched_inv D s" and r: "s_running s = []" and h: "head_of s = Some x"
  shows "bm_inv {#} (s_bm s)" "x \<in> set (s_preempted s) \<union> set (wq_items (s_waiting s))" "seq_sane (obj x s)"
    "\<not> is_finished (obj x s)" "publish_running D s = Inr s"
    "kinv D (max_num_batched_tokens (s_config s)) (max_num_seqs (s_config s)) s (kstep_init (s_config s))"
proof -
  have sc: "score D s" and qok: "queue_ok s" using inv by (simp_all add: sched_inv_def)
  show "bm_inv {#} (s_bm s)" using sc r by (simp add: core_def)
  have "set (s_preempted s) \<inter> set (wq_items (s_waiting s)) = {}" "distinct (s_preempted s)"
    using sc by (auto simp: core_def)
  then show x: "x \<in> set (s_preempted s) \<union> set (wq_items (s_waiting s))"
    using take_head_ok [OF qok h] by blast
  show "seq_sane (obj x s)" "\<not> is_finished (obj x s)"
    using sc x by (auto simp: core_def idle_def obj_def is_finished_def)
  show "publish_running D s = Inr s" using r by (simp add: publish_running_def)
  show "kinv D (max_num_batched_tokens (s_config s)) (max_num_seqs (s_config s)) s (kstep_init (s_config s))"
    using sc qok by (simp add: kinv_def kstep_init_def)
qed

lemma idle_step_progress:
  assumes inv: "sched_inv D s" and r: "s_running s = []" and h: "head_of s = Some x"
    and cfg: "1 \<le> max_num_batched_tokens (s_config s)" "1 \<le> max_num_seqs (s_config s)"
      "enable_chunked_prefill (s_config s)"
    and fits: "num_blocks_needed (cfg_block_size (s_config s)) (obj x s) \<le> a_num_blocks (bm_alloc (s_bm s))"
  shows "\<exists>out s'. schedule D ts s = Inr (out, s') \<and> \<not> out_is_empty out"
proof -
  let ?k = "kstep_init (s_config s)"
  let ?T = "max_num_batched_tokens (s_config s)" and ?Q = "max_num_seqs (s_config s)"
  note f = idle_facts [OF inv r h]
  have sc: "score D s" and bs: "bm_block_size (s_bm s) = cfg_block_size (s_config s)"
    using inv by (simp_all add: sched_inv_def)
  have yes: "can_allocate D (obj x s) (s_bm s) = Inr True"
    using can_allocate_idle [OF f(1,3), of D] fits bs by simp
  have pn: "x \<notin> k_preempted_now ?k" and b: "\<not> exhausted ?k"
    using cfg by (simp_all add: kstep_init_def exhausted_def)
  obtain cached q m where a: "bm_allocate D (obj x s) (s_bm s) = Inr (cached, q, m)"
    and post: "let s1 = put x q (s\<lparr>s_bm := m\<rparr>); n = num_new_tokens_to_compute (k_tokens ?k) q in
      (if n \<le> 0 \<or> (\<not> enable_chunked_prefill (s_config s) \<and> int n < num_uncomputed q)
       then \<exists>q' m'. bm_release D q m = Inr (q', m') \<and> kinv D ?T ?Q (put x q' (s1\<lparr>s_bm := m'\<rparr>)) ?k
              \<and> world s (put x q' (s1\<lparr>s_bm := m'\<rparr>))
       else \<exists>s' k'. admit x ts n (s_preempted s \<noteq> []) cached (s1, ?k) = Inr (s', k')
              \<and> kinv D ?T ?Q s' k' \<and> world s s')"
    using admission_ok [OF f(6) h pn b yes, of ts] by blast
  obtain n0 q1 m1 where q: "bm_allocate D (obj x s) (s_bm s) = Inr (n0, q1, m1)" "q_computed q1 = n0"
      "n0 < num_tokens (obj x s)" "same_seq (obj x s) q1" "q_status q1 = q_status (obj x s)"
    using core_admit [OF sc f(2), folded obj_def] by (elim exE conjE) (rule that, assumption+)
  have qq: "q1 = q" "n0 = cached" using a q(1) by simp_all
  let ?n = "num_new_tokens_to_compute (k_tokens ?k) q"
  have "q_computed q < num_tokens q" using q(2-4) qq same_seq_tokens by simp
  moreover have "\<not> is_finished q" using q(5) qq f(4) by (simp add: is_finished_def)
  ultimately have n: "\<not> ?n \<le> 0"
    using num_new_tokens_value [of q ?T] cfg(1) by (simp add: kstep_init_def)
  obtain s2 k2 where e: "admit x ts ?n (s_preempted s \<noteq> []) cached (put x q (s\<lparr>s_bm := m\<rparr>), ?k) = Inr (s2, k2)"
    "kinv D ?T ?Q s2 k2"
    using post n cfg(3) unfolding Let_def by auto
  obtain s' k' where r2: "schedule_admissions D ts (s2, k2) = Inr (s', k')" "kinv D ?T ?Q s' k'" "k_seqs k' \<le> k_seqs k2"
    using schedule_admissions_ok [OF e(2)] by blast
  have hd: "(if s_preempted s \<noteq> [] then Some (hd (s_preempted s)) else wq_peek (s_waiting s)) = Some x"
    using h by (simp add: head_of_def)
  have "schedule_admissions D ts (s, ?k) = schedule_admissions D ts (s2, k2)"
    by (subst schedule_admissions.simps) (use b pn yes a e(1) n cfg(3) hd in \<open>auto simp: Let_def\<close>)
  then have run: "schedule D ts s = Inr (step_out k', count_step k' s')"
    using f(5) r r2(1) by (simp add: schedule_def Let_def step_out_def count_step_def)
  have "k_seqs k' < int ?Q" using admit_budget [OF e(1)] r2(3) by (simp add: kstep_init_def)
  then have "items k' \<noteq> []" using r2(2) by (auto simp: kinv_def)
  then show ?thesis using run by (auto simp: out_is_empty_def step_out_def)
qed

lemma stuck_step:
  assumes inv: "sched_inv D s" and r: "s_running s = []" and h: "head_of s = Some x"
    and big: "a_num_blocks (bm_alloc (s_bm s)) < num_blocks_needed (cfg_block_size (s_config s)) (obj x s)"
  shows "\<exists>out. schedule D ts s = Inr (out, s\<lparr>s_num_steps := s_num_steps s + 1\<rparr>) \<and> out_is_empty out"
proof -
  let ?k = "kstep_init (s_config s)"
  note f = idle_facts [OF inv r h]
  have bs: "bm_block_size (s_bm s) = cfg_block_size (s_config s)" using inv by (simp add: sched_inv_def)
  have no: "can_allocate D (obj x s) (s_bm s) = Inr False"
    using can_allocate_idle [OF f(1,3), of D] big bs by simp
  have hd: "(if s_preempted s \<noteq> [] then Some (hd (s_preempted s)) else wq_peek (s_waiting s)) = Some x"
    using h by (simp add: head_of_def)
  have "schedule_admissions D ts (s, ?k) = Inr (s, ?k)"
    by (subst schedule_admissions.simps) (use no hd in \<open>auto simp: Let_def kstep_init_def\<close>)
  then have run: "schedule D ts s = Inr (step_out ?k, count_step ?k s)"
    using f(5) r by (simp add: schedule_def Let_def step_out_def count_step_def)
  moreover have "count_step ?k s = s\<lparr>s_num_steps := s_num_steps s + 1\<rparr>" by (simp add: count_step_def kstep_init_def)
  ultimately show ?thesis by (auto simp: out_is_empty_def step_out_def kstep_init_def)
qed

end
