(* ===== verification/Scheduler_Reach.thy ===== *)
theory Scheduler_Reach
  imports Scheduler_Progress
begin

text \<open>
  The states a scheduler can be in: the closure of a fresh scheduler under its public
  operations, in any order. The invariant, and with it the self check, holds in all of them.
\<close>

lemma sched_init_inv:
  assumes "sched_init cfg None = Inr s"
  shows "sched_inv D s \<and> everyone s = {} \<and> s_config s = cfg"
proof -
  obtain n m where n: "cfg_num_blocks cfg = Some n"
    and m: "bm_create (int n) (int (cfg_block_size cfg)) (enable_prefix_caching cfg) = Inr m"
    using assms by (auto simp: sched_init_def split: option.splits)
  note i = bm_create_inv [OF m]
  have "s_bm s = m" "s_running s = []" "s_preempted s = []" "s_seqs s = Map.empty" "s_config s = cfg"
    "s_waiting s = wq_init (policy cfg = Tenant_Fair) (tenant_weights cfg)" "s_by_request s = Map.empty"
    using assms n m by (auto simp: sched_init_def)
  moreover have "wq_items (wq_init f w) = []" "wq_inv ten (wq_init f w)" for f w ten
    by (simp_all add: wq_init_def wq_items_def wq_inv_def)
  ultimately show ?thesis
    using i by (simp add: sched_inv_def core_def queue_ok_def everyone_def)
qed

datatype call =
    AddRequest string "int list" "sampling option" string int int rat
  | Schedule rat
  | AppendToken nat int "int option" rat
  | Finish nat finish_reason rat
  | AbortRequest string rat
  | Reset

text \<open>
  What the engine may call when: tokens and adapter slots fit 64 bits, a token is appended to
  a running sequence, and only a sequence in flight is finished.
\<close>

definition allowed :: "call \<Rightarrow> sched \<Rightarrow> bool" where
  "allowed c s = (case c of
     AddRequest rid tokens params tenant prio lora arrival \<Rightarrow> encodable lora tokens
   | AppendToken x t eos now \<Rightarrow> x \<in> set (s_running s) \<and> fits64 t
   | Finish x r now \<Rightarrow> x \<in> everyone s
   | _ \<Rightarrow> True)"

definition perform :: "digest \<Rightarrow> call \<Rightarrow> sched \<Rightarrow> py_error + sched" where
  "perform D c s = (case c of
     AddRequest rid tokens params tenant prio lora arrival \<Rightarrow>
       rbind (add_request rid tokens params tenant prio lora arrival s) (\<lambda>(_, s'). Inr s')
   | Schedule ts \<Rightarrow> rbind (schedule D ts s) (\<lambda>(_, s'). Inr s')
   | AppendToken x t eos now \<Rightarrow> rbind (append_token D x t eos now s) (\<lambda>(_, s'). Inr s')
   | Finish x r now \<Rightarrow> sched_finish D x r now None s
   | AbortRequest rid now \<Rightarrow> rbind (sched_abort D rid now s) (\<lambda>(_, s'). Inr s')
   | Reset \<Rightarrow> Inr (sched_reset s))"

inductive reachable :: "digest \<Rightarrow> scheduler_config \<Rightarrow> sched \<Rightarrow> bool" for D cfg where
  start: "sched_init cfg None = Inr s \<Longrightarrow> reachable D cfg s"
| step: "reachable D cfg s \<Longrightarrow> allowed c s \<Longrightarrow> perform D c s = Inr s' \<Longrightarrow> reachable D cfg s'"

lemma perform_inv:
  assumes inv: "sched_inv D s" and a: "allowed c s" and p: "perform D c s = Inr s'"
  shows "sched_inv D s'"
proof (cases c)
  case (AddRequest rid tokens params tenant prio lora arrival)
  then show ?thesis using assms add_request_ok [OF inv] by (auto simp: perform_def allowed_def)
next
  case (Schedule ts)
  obtain out s1 where "schedule D ts s = Inr (out, s1)" "sched_inv D s1" using schedule_ok [OF inv] by blast
  then show ?thesis using p Schedule by (simp add: perform_def)
next
  case (AppendToken x t eos now)
  then have "x \<in> set (s_running s)" "fits64 t" using a by (simp_all add: allowed_def)
  then obtain r s1 where "append_token D x t eos now s = Inr (r, s1)" "sched_inv D s1"
    using append_token_ok [OF inv] by blast
  then show ?thesis using p AppendToken by (simp add: perform_def)
next
  case (Finish x r now)
  then have "x \<in> everyone s" using a by (simp add: allowed_def)
  then obtain s1 where "sched_finish D x r now None s = Inr s1" "sched_inv D s1" using finish_ok [OF inv] by blast
  then show ?thesis using p Finish by (simp add: perform_def)
next
  case (AbortRequest rid now)
  obtain h s1 where "sched_abort D rid now s = Inr (h, s1)" "sched_inv D s1" using abort_ok [OF inv] by blast
  then show ?thesis using p AbortRequest by (simp add: perform_def)
next
  case Reset
  then show ?thesis using p reset_ok(1) [OF inv] by (simp add: perform_def)
qed

lemma reachable_inv: "reachable D cfg s \<Longrightarrow> sched_inv D s"
  by (induction rule: reachable.induct) (use sched_init_inv perform_inv in blast)+

lemma allowed_schedule: "allowed (Schedule ts) s"
  by (simp add: allowed_def)

lemma finish_config: "sched_finish D x r now st s = Inr s' \<Longrightarrow> s_config s' = s_config s"
  by (auto simp: sched_finish_def sched_detach_def put_def Let_def)

lemma append_token_config: "append_token D x t eos now s = Inr (r, s') \<Longrightarrow> s_config s' = s_config s"
  unfolding append_token_def
  by (simp split: option.splits) (use finish_config in \<open>fastforce simp: put_def\<close>)+

lemma abort_config: "sched_abort D rid now s = Inr (h, s') \<Longrightarrow> s_config s' = s_config s"
  unfolding sched_abort_def by (auto split: option.splits dest: finish_config)

lemma perform_config:
  assumes inv: "sched_inv D s" and p: "perform D c s = Inr s'" and a: "allowed c s"
  shows "s_config s' = s_config s"
proof (cases c)
  case (AddRequest rid tokens params tenant prio lora arrival)
  then show ?thesis using p by (auto simp: perform_def add_request_def add_sequence_def)
next
  case (Schedule ts)
  then show ?thesis using p schedule_ok [OF inv, of ts] by (auto simp: perform_def world_def)
next
  case (AppendToken x t eos now)
  then show ?thesis using p append_token_config by (auto simp: perform_def)
next
  case (Finish x r now)
  then show ?thesis using p finish_config by (simp add: perform_def)
next
  case (AbortRequest rid now)
  then show ?thesis using p abort_config by (auto simp: perform_def)
next
  case Reset
  then show ?thesis using p by (auto simp: perform_def sched_reset_def)
qed

lemma reachable_config: "reachable D cfg s \<Longrightarrow> s_config s = cfg"
proof (induction rule: reachable.induct)
  case (start s)
  then show ?case using sched_init_inv by blast
next
  case (step s c s')
  then show ?case using perform_config reachable_inv by metis
qed

text \<open>Only \<open>add_request\<close> can raise.\<close>

lemma perform_returns:
  assumes inv: "sched_inv D s" and a: "allowed c s" and n: "\<forall>rid ts p ten pr l arr. c \<noteq> AddRequest rid ts p ten pr l arr"
  shows "returns (perform D c s)"
proof (cases c)
  case (Schedule ts)
  then show ?thesis using schedule_ok [OF inv, of ts] by (auto simp: perform_def returns_def)
next
  case (AppendToken x t eos now)
  then show ?thesis using a append_token_ok [OF inv, of x t eos now] by (auto simp: perform_def returns_def allowed_def)
next
  case (Finish x r now)
  then show ?thesis using a finish_ok [OF inv, of x r now None] by (auto simp: perform_def returns_def allowed_def)
next
  case (AbortRequest rid now)
  then show ?thesis using abort_ok [OF inv, of rid now] by (auto simp: perform_def returns_def)
next
  case Reset
  then show ?thesis by (simp add: perform_def returns_def)
qed (use n in blast)

fun perform_all :: "digest \<Rightarrow> call list \<Rightarrow> sched \<Rightarrow> py_error + sched" where
  "perform_all D [] s = Inr s"
| "perform_all D (c # cs) s = rbind (perform D c s) (perform_all D cs)"

end
