(* ===== verification/Paged_Forward.thy ===== *)
theory Paged_Forward
  imports Scheduler_Reach
begin

text \<open>
  What one step computes: \<open>ModelRunner.build_batch\<close> and \<open>execute\<close> of
  \<open>src/turboserve/engine/runtime/worker.py\<close> over the paged attention of
  \<open>src/turboserve/engine/model/attention.py\<close>.

  Tensor arithmetic is abstracted by free constructors. What a KV slot holds is determined by
  what it was computed from: the position that rotates it, the adapter slot and the token of
  its row, and the entries its row attended to. \<open>KV p l t ks\<close> is that dependency, so two
  slots hold equal keys and values for \<^emph>\<open>every\<close> model when their terms are equal.
  The model's last hidden state of a row, its projection to logits and the draw of a token
  are one parameter \<open>M\<close>: a function of the request's sampling parameters, the token history
  the repetition penalty reads, and the list of entries the row attended to, its own
  included. That covers greedy requests and requests with a seed (a seeded generator is drawn
  from once per sampled token); the shared generator of unseeded stochastic requests is
  not a function of the request and not modelled.

  A layer writes the keys and values of all rows of the batch before any row attends. In the
  term of one row all layers are folded together, so the rows are processed in packed order:
  what a row attends to are the entries of earlier rows of its own sequence, or of earlier steps
  (the causal mask), and no row writes a slot that another sequence's row reads.

  \<open>kv_prefix l ts\<close> is the reference: the entries of a dense, contiguous cache that has
  seen the tokens \<open>ts\<close> under adapter \<open>l\<close> and nothing else.
\<close>

section \<open>KV entries\<close>

datatype kv = Blank | KV nat int int "kv list"

type_synonym kvstore = "nat \<Rightarrow> kv"

type_synonym next_token = "sampling \<Rightarrow> int list \<Rightarrow> kv list \<Rightarrow> int"

definition kv_prefix :: "int \<Rightarrow> int list \<Rightarrow> kv list" where
  "kv_prefix l ts = foldl (\<lambda>ks t. ks @ [KV (length ks) l t ks]) [] ts"

text \<open>\<open>index_copy_\<close> of one row into the flat view.\<close>

definition kv_write :: "nat \<Rightarrow> kv \<Rightarrow> kvstore \<Rightarrow> kvstore" where
  "kv_write slot v kv = kv(slot := v)"

text \<open>\<open>index_select\<close> over the blocks, flattened and cut to the context.\<close>

definition gather_kv :: "nat \<Rightarrow> kvstore \<Rightarrow> nat list \<Rightarrow> nat \<Rightarrow> kv list" where
  "gather_kv bs kv blocks ctx = take ctx (concat (map (\<lambda>b. map (\<lambda>o'. kv (b * bs + o')) [0..<bs]) blocks))"

section \<open>The packed batch\<close>

record batch =
  b_ids :: "int list"
  b_positions :: "nat list"
  b_meta :: attn_meta
  b_samples :: "nat list"
  b_lora :: "lora_context option"

text \<open>\<open>build_lora_context\<close> without an installed hook: \<open>None\<close> for a base-only batch.\<close>

definition step_lora :: "(nat \<Rightarrow> int) \<Rightarrow> sched_out \<Rightarrow> lora_context option" where
  "step_lora lora out =
     (if list_all (\<lambda>d. lora (d_seq d) = no_lora) (out_scheduled out) then None
      else Some (build_lora_context lora out))"

definition build_batch :: "nat \<Rightarrow> (nat \<Rightarrow> int) \<Rightarrow> sched_out \<Rightarrow> py_error + batch" where
  "build_batch bs lora out =
     rbind (rguard (out_is_empty out) ValueError) (\<lambda>_.
     rbind (build_attn_metadata (int bs) None out) (\<lambda>meta.
     Inr \<lparr>b_ids = input_token_ids out, b_positions = out_positions out, b_meta = meta,
          b_samples = sample_indices out, b_lora = step_lora lora out\<rparr>))"

definition row_adapter :: "batch \<Rightarrow> nat \<Rightarrow> int" where
  "row_adapter b r = (case b_lora b of None \<Rightarrow> no_lora | Some c \<Rightarrow> token_lora_slot c ! r)"

section \<open>The host-side plan\<close>

record batch_plan =
  p_offsets :: "nat list"
  p_contexts :: "nat list"
  p_blocks :: "nat list list"

fun plan_rows :: "nat \<Rightarrow> int list \<Rightarrow> int list list \<Rightarrow> py_error + nat list list" where
  "plan_rows bs (ctx # cs) (row # rs) =
     (let needed = nat (- ((- ctx) div int bs)); r = take needed row in
      rbind (rguard (length r \<noteq> needed \<or> pad_block \<in> set r) ValueError) (\<lambda>_.
      rbind (plan_rows bs cs rs) (\<lambda>rest. Inr (map nat r # rest))))"
| "plan_rows bs cs rs = Inr []"

definition plan_of :: "nat \<Rightarrow> attn_meta \<Rightarrow> py_error + batch_plan" where
  "plan_of bs meta =
     rbind (rguard (length (query_start_loc meta) \<noteq> length (context_lens meta) + 1) ValueError) (\<lambda>_.
     rbind (rguard (length (block_tables meta) \<noteq> length (context_lens meta)) ValueError) (\<lambda>_.
     rbind (plan_rows bs (context_lens meta) (block_tables meta)) (\<lambda>blocks.
     Inr \<lparr>p_offsets = map nat (query_start_loc meta), p_contexts = map nat (context_lens meta),
          p_blocks = blocks\<rparr>)))"

definition q_len :: "batch_plan \<Rightarrow> nat \<Rightarrow> nat" where
  "q_len p i = p_offsets p ! (i + 1) - p_offsets p ! i"

section \<open>Forward\<close>

text \<open>
  Row \<open>j\<close> of sequence \<open>i\<close>: it attends to the keys up to its own position
  \<open>context_len - query_len + j\<close>, and its entry goes to its slot.
\<close>

definition forward_row :: "nat \<Rightarrow> batch \<Rightarrow> batch_plan \<Rightarrow> nat \<Rightarrow> nat \<Rightarrow> kvstore \<Rightarrow> kvstore" where
  "forward_row bs b p i j kv =
     (let r = p_offsets p ! i + j; ctx = p_contexts p ! i in
      kv_write (nat (slot_mapping (b_meta b) ! r))
        (KV (b_positions b ! r) (row_adapter b r) (b_ids b ! r)
           (take (ctx - q_len p i + j) (gather_kv bs kv (p_blocks p ! i) ctx))) kv)"

definition forward_seq :: "nat \<Rightarrow> batch \<Rightarrow> batch_plan \<Rightarrow> nat \<Rightarrow> kvstore \<Rightarrow> kvstore" where
  "forward_seq bs b p i kv = fold (forward_row bs b p i) [0..<q_len p i] kv"

text \<open>The entries a row attended to, its own read back through the cache.\<close>

definition row_context :: "nat \<Rightarrow> batch_plan \<Rightarrow> kvstore \<Rightarrow> nat \<Rightarrow> nat \<Rightarrow> kv list" where
  "row_context bs p kv i j =
     take (p_contexts p ! i - q_len p i + j + 1) (gather_kv bs kv (p_blocks p ! i) (p_contexts p ! i))"

definition forward :: "nat \<Rightarrow> batch \<Rightarrow> kvstore \<Rightarrow> py_error + (kv list list \<times> kvstore)" where
  "forward bs b kv =
     rbind (rguard (length (b_ids b) \<noteq> length (b_positions b)) ValueError) (\<lambda>_.
     rbind (plan_of bs (b_meta b)) (\<lambda>p.
     let n = length (p_contexts p) in
     rbind (rguard (list_ex (\<lambda>i. p_contexts p ! i < q_len p i) [0..<n]) ValueError) (\<lambda>_.
     let kv' = fold (forward_seq bs b p) [0..<n] kv in
     Inr (concat (map (\<lambda>i. map (row_context bs p kv' i) [0..<q_len p i]) [0..<n]), kv'))))"

section \<open>A step of the runner\<close>

record step_output =
  so_items :: "ssched list"
  so_tokens :: "int list"

definition make_step_output :: "ssched list \<Rightarrow> int list \<Rightarrow> py_error + step_output" where
  "make_step_output its toks =
     rbind (rguard (length its \<noteq> length toks) ValueError) (\<lambda>_. Inr \<lparr>so_items = its, so_tokens = toks\<rparr>)"

definition step_pairs :: "step_output \<Rightarrow> (ssched \<times> int) list" where
  "step_pairs so = zip (so_items so) (so_tokens so)"

text \<open>\<open>sample_sequences\<close>: the history is collected only for requests with a penalty.\<close>

definition token_history :: "seqn \<Rightarrow> int list" where
  "token_history q = (if repetition_penalty (q_sampling q) \<noteq> 1 then token_ids q else [])"

definition sample_sequences :: "next_token \<Rightarrow> kv list list \<Rightarrow> seqn list \<Rightarrow> py_error + int list" where
  "sample_sequences M rows qs =
     rbind (rguard (length qs \<noteq> length rows) ValueError) (\<lambda>_.
     Inr (map (\<lambda>(row, q). M (q_sampling q) (token_history q) row) (zip rows qs)))"

definition execute :: "next_token \<Rightarrow> nat \<Rightarrow> sched \<Rightarrow> sched_out \<Rightarrow> kvstore \<Rightarrow> py_error + (step_output \<times> kvstore)" where
  "execute M bs s out kv =
     rbind (build_batch bs (\<lambda>x. q_lora (obj x s)) out) (\<lambda>b.
     rbind (forward bs b kv) (\<lambda>(hidden, kv').
     let its = sampled out in
     if its = [] then Inr (\<lparr>so_items = [], so_tokens = []\<rparr>, kv')
     else rbind (sample_sequences M (map ((!) hidden) (b_samples b)) (map (\<lambda>d. obj (d_seq d) s) its)) (\<lambda>toks.
          rbind (make_step_output its toks) (\<lambda>so. Inr (so, kv')))))"

section \<open>The dense reference\<close>

lemma kv_prefix_Nil [simp]: "kv_prefix l [] = []"
  by (simp add: kv_prefix_def)

lemma kv_prefix_snoc: "kv_prefix l (ts @ [t]) = kv_prefix l ts @ [KV (length (kv_prefix l ts)) l t (kv_prefix l ts)]"
  by (simp add: kv_prefix_def)

lemma length_kv_prefix [simp]: "length (kv_prefix l ts) = length ts"
  by (induction ts rule: rev_induct) (simp_all add: kv_prefix_snoc)

lemma kv_prefix_append: "take (length ts) (kv_prefix l (ts @ us)) = kv_prefix l ts"
proof (induction us rule: rev_induct)
  case Nil
  then show ?case by simp
next
  case (snoc u us)
  then show ?case using kv_prefix_snoc [of l "ts @ us" u] by simp
qed

lemma kv_prefix_take: "take n (kv_prefix l ts) = kv_prefix l (take n ts)"
proof (cases "n \<le> length ts")
  case True
  then show ?thesis using kv_prefix_append [of "take n ts" l "drop n ts"] by simp
qed simp

lemma kv_prefix_nth: "n < length ts \<Longrightarrow> kv_prefix l ts ! n = KV n l (ts ! n) (kv_prefix l (take n ts))"
proof -
  assume n: "n < length ts"
  have "kv_prefix l ts ! n = take (Suc n) (kv_prefix l ts) ! n" by simp
  also have "\<dots> = kv_prefix l (take n ts @ [ts ! n]) ! n"
    using n by (simp only: kv_prefix_take take_Suc_conv_app_nth)
  finally show ?thesis using n by (simp add: kv_prefix_snoc nth_append)
qed

lemma kv_prefix_nth_take: "n < k \<Longrightarrow> kv_prefix l (take k ts) ! n = kv_prefix l ts ! n"
  using kv_prefix_take [of k l ts] by (metis nth_take)

text \<open>Generation with a dense cache, one token at a time.\<close>

definition history_of :: "sampling \<Rightarrow> int list \<Rightarrow> int list" where
  "history_of p ts = (if repetition_penalty p \<noteq> 1 then ts else [])"

primrec dense_generate :: "next_token \<Rightarrow> sampling \<Rightarrow> int \<Rightarrow> int list \<Rightarrow> nat \<Rightarrow> int list" where
  "dense_generate M p l prompt 0 = []"
| "dense_generate M p l prompt (Suc n) =
     (let out = dense_generate M p l prompt n; ts = prompt @ out in
      out @ [M p (history_of p ts) (kv_prefix l ts)])"

lemma length_dense_generate [simp]: "length (dense_generate M p l prompt n) = n"
  by (induction n) (simp_all add: Let_def)

end
