(* ===== verification/Paged_Layout.thy ===== *)
theory Paged_Layout
  imports Paged_Forward
begin

text \<open>
  The packed batch, read back item by item: the offsets, context lengths and trimmed block
  tables of the plan are those of the scheduled items, and row \<open>j\<close> of sequence \<open>i\<close> carries the
  \<open>j\<close>-th token, position, slot and adapter of item \<open>i\<close>. So \<open>forward\<close> is \<open>item_forward\<close> of
  each item in turn.
\<close>

section \<open>Packed lists\<close>

lemma concat_map_nth:
  "i < length xs \<Longrightarrow> j < length (f (xs ! i)) \<Longrightarrow>
   concat (map f xs) ! (sum_list (map (\<lambda>x. length (f x)) (take i xs)) + j) = f (xs ! i) ! j"
proof (induction xs arbitrary: i)
  case Nil
  then show ?case by simp
next
  case (Cons x xs)
  then show ?case by (cases i) (simp_all add: nth_append add.assoc)
qed

lemma concat_map_bound:
  "i < length xs \<Longrightarrow> j < length (f (xs ! i)) \<Longrightarrow>
   sum_list (map (\<lambda>x. length (f x)) (take i xs)) + j < length (concat (map f xs))"
proof (induction xs arbitrary: i)
  case Nil
  then show ?case by simp
next
  case (Cons x xs)
  then show ?case by (cases i) (simp_all add: add.assoc)
qed

lemma cumsum_nth: "i \<le> length qs \<Longrightarrow> (a # cumsum_from a qs) ! i = a + sum_list (take i qs)"
proof (induction qs arbitrary: a i)
  case Nil
  then show ?case by simp
next
  case (Cons q qs)
  show ?case
  proof (cases i)
    case (Suc i')
    then show ?thesis using Cons.IH [of i' "a + q"] Cons.prems by simp
  qed simp
qed

lemma query_start_loc_nat:
  "map nat (build_query_start_loc (map (int \<circ> f) ds)) = map (\<lambda>i. sum_list (map f (take i ds))) [0..<Suc (length ds)]"
proof (rule nth_equalityI)
  show "length (map nat (build_query_start_loc (map (int \<circ> f) ds)))
      = length (map (\<lambda>i. sum_list (map f (take i ds))) [0..<Suc (length ds)])"
    by (simp add: build_query_start_loc_def)
  fix i assume "i < length (map nat (build_query_start_loc (map (int \<circ> f) ds)))"
  then have i: "i \<le> length ds" by (simp add: build_query_start_loc_def)
  have "build_query_start_loc (map (int \<circ> f) ds) ! i = sum_list (take i (map (int \<circ> f) ds))"
    unfolding build_query_start_loc_def using cumsum_nth [of i "map (int \<circ> f) ds" 0] i by simp
  also have "\<dots> = int (sum_list (map f (take i ds)))" by (simp add: take_map sum_list_int [unfolded o_def] o_def)
  finally show "map nat (build_query_start_loc (map (int \<circ> f) ds)) ! i
      = map (\<lambda>i. sum_list (map f (take i ds))) [0..<Suc (length ds)] ! i"
    using i nth_map [of i "build_query_start_loc (map (int \<circ> f) ds)" nat]
    by (simp add: build_query_start_loc_def del: upt_Suc list.map nth_Cons_Suc)
qed

lemma gather_kv_nth:
  assumes "k < ctx" "ctx \<le> length blocks * bs" "0 < bs"
  shows "gather_kv bs kv blocks ctx ! k = kv (slot_at bs blocks k)"
proof -
  let ?f = "\<lambda>b. map (\<lambda>o'. kv (b * bs + o')) [0..<bs]"
  have i: "k div bs < length blocks" using assms by (meson less_mult_imp_div_less order_less_le_trans)
  have j: "k mod bs < length (?f (blocks ! (k div bs)))" using assms(3) by simp
  have "sum_list (map (\<lambda>x. length (?f x)) (take (k div bs) blocks)) = k div bs * bs"
    using i by (simp add: sum_list_triv)
  then have "concat (map ?f blocks) ! k = ?f (blocks ! (k div bs)) ! (k mod bs)"
    using concat_map_nth [of "k div bs" blocks "k mod bs" ?f] i j by simp
  then show ?thesis using assms by (simp add: gather_kv_def slot_at_def)
qed

lemma gather_kv_length: "ctx \<le> length blocks * bs \<Longrightarrow> length (gather_kv bs kv blocks ctx) = ctx"
  by (simp add: gather_kv_def length_concat o_def sum_list_triv)

lemma gather_kv_take:
  assumes "n \<le> ctx" "ctx \<le> length blocks * bs" "0 < bs"
  shows "take n (gather_kv bs kv blocks ctx) = map (\<lambda>k. kv (slot_at bs blocks k)) [0..<n]"
  using assms by (intro nth_equalityI) (simp_all add: gather_kv_length gather_kv_nth)

section \<open>The plan\<close>

definition item_fits :: "nat \<Rightarrow> ssched \<Rightarrow> bool" where
  "item_fits bs d \<longleftrightarrow> d_num_new d \<le> d_context_len d \<and> d_context_len d \<le> length (d_block_table d) * bs
     \<and> length (d_token_ids d) = d_num_new d \<and> length (d_slots d) = d_num_new d"

definition item_blocks :: "nat \<Rightarrow> ssched \<Rightarrow> nat list" where
  "item_blocks bs d = take (ceil_div (d_context_len d) bs) (d_block_table d)"

lemma item_row_bound: "item_fits bs d \<Longrightarrow> j < d_num_new d \<Longrightarrow> item_start d + j < d_context_len d"
  unfolding item_fits_def item_start_def by linarith

lemma plan_rows_items:
  assumes bs: "0 < bs"
  shows "(\<And>d. d \<in> set ds \<Longrightarrow> item_fits bs d) \<Longrightarrow> length tables = length ds \<Longrightarrow>
   (\<And>i. i < length ds \<Longrightarrow> take (length (d_block_table (ds ! i))) (tables ! i) = map int (d_block_table (ds ! i))) \<Longrightarrow>
   plan_rows bs (map (int \<circ> d_context_len) ds) tables = Inr (map (item_blocks bs) ds)"
proof (induction ds arbitrary: tables)
  case Nil
  then show ?case by simp
next
  case (Cons d ds)
  then obtain row rows where tb: "tables = row # rows" by (cases tables) auto
  let ?t = "d_block_table d" and ?n = "ceil_div (d_context_len d) bs"
  have need: "nat (- ((- int (d_context_len d)) div int bs)) = ?n"
    using ceil_div_neg [OF bs, of "d_context_len d"] by (metis nat_int)
  have le: "?n \<le> length ?t" using Cons.prems(1) [of d] ceil_div_le_iff [OF bs] by (simp add: item_fits_def)
  have "take (length ?t) row = map int ?t" using Cons.prems(3) [of 0] tb by simp
  then have row: "take ?n row = map int (take ?n ?t)"
    using le by (metis min.absorb1 take_take take_map)
  have "plan_rows bs (map (int \<circ> d_context_len) ds) rows = Inr (map (item_blocks bs) ds)"
  proof (rule Cons.IH)
    show "take (length (d_block_table (ds ! i))) (rows ! i) = map int (d_block_table (ds ! i))" if "i < length ds" for i
      using Cons.prems(3) [of "Suc i"] that tb by simp
  qed (use Cons.prems tb in auto)
  moreover have "pad_block \<notin> set (map int (take ?n ?t))" by (auto simp: pad_block_def)
  moreover have "length (take ?n row) = ?n" using arg_cong [OF row, of length] le by simp
  ultimately show ?case using row unfolding tb
    by (simp add: Let_def need item_blocks_def o_def del: length_take)
qed

text \<open>What the runner's batch and plan are for a batch of fitting items.\<close>

definition layout_plan :: "nat \<Rightarrow> ssched list \<Rightarrow> batch_plan" where
  "layout_plan bs ds = \<lparr>p_offsets = map (\<lambda>i. sum_list (map d_num_new (take i ds))) [0..<Suc (length ds)],
     p_contexts = map d_context_len ds, p_blocks = map (item_blocks bs) ds\<rparr>"

lemma plan_of_layout:
  assumes bs: "0 < bs" and fits: "\<And>d. d \<in> set (out_scheduled out) \<Longrightarrow> item_fits bs d"
    and meta: "build_attn_metadata (int bs) None out = Inr meta"
  shows "plan_of bs meta = Inr (layout_plan bs (out_scheduled out))"
    "slot_mapping meta = map int (concat (map d_slots (out_scheduled out)))"
proof -
  let ?ds = "out_scheduled out"
  obtain tables where tb: "pad_block_tables (map (\<lambda>d. map int (d_block_table d)) ?ds) None = Inr tables"
    and f: "slot_mapping meta = map int (concat (map d_slots ?ds))" "block_tables meta = tables"
      "context_lens meta = map (int \<circ> d_context_len) ?ds"
      "query_start_loc meta = build_query_start_loc (map (int \<circ> d_num_new) ?ds)"
    using meta unfolding build_attn_metadata_def Let_def by auto
  note pre = pad_block_tables_prefix [OF tb]
  show "slot_mapping meta = map int (concat (map d_slots ?ds))" by (rule f(1))
  have rows: "plan_rows bs (map (int \<circ> d_context_len) ?ds) tables = Inr (map (item_blocks bs) ?ds)"
    using plan_rows_items [OF bs, of ?ds tables] fits pre by simp
  have "length (build_query_start_loc (map (int \<circ> d_num_new) ?ds)) = length ?ds + 1"
    by (simp add: build_query_start_loc_def)
  then show "plan_of bs meta = Inr (layout_plan bs ?ds)"
    unfolding plan_of_def f query_start_loc_nat using pre rows
    by (simp add: layout_plan_def o_def del: upt_Suc)
qed

lemma layout_q_len: "i < length ds \<Longrightarrow> q_len (layout_plan bs ds) i = d_num_new (ds ! i)"
  by (simp add: q_len_def layout_plan_def take_Suc_conv_app_nth del: upt_Suc)

section \<open>Forward, item by item\<close>

definition item_row :: "nat \<Rightarrow> (nat \<Rightarrow> int) \<Rightarrow> ssched \<Rightarrow> nat \<Rightarrow> kvstore \<Rightarrow> kvstore" where
  "item_row bs lora d j kv = kv(d_slots d ! j :=
     KV (item_start d + j) (lora (d_seq d)) (d_token_ids d ! j)
        (map (\<lambda>k. kv (slot_at bs (item_blocks bs d) k)) [0..<item_start d + j]))"

definition item_forward :: "nat \<Rightarrow> (nat \<Rightarrow> int) \<Rightarrow> ssched \<Rightarrow> kvstore \<Rightarrow> kvstore" where
  "item_forward bs lora d kv = fold (item_row bs lora d) [0..<d_num_new d] kv"

definition item_context :: "nat \<Rightarrow> kvstore \<Rightarrow> ssched \<Rightarrow> nat \<Rightarrow> kv list" where
  "item_context bs kv d j = map (\<lambda>k. kv (slot_at bs (item_blocks bs d) k)) [0..<item_start d + j + 1]"

lemma item_blocks_length:
  "0 < bs \<Longrightarrow> item_fits bs d \<Longrightarrow> d_context_len d \<le> length (item_blocks bs d) * bs"
  using ceil_div_le_iff [of bs "d_context_len d" "length (d_block_table d)"] ceil_div_covers [of bs "d_context_len d"]
  by (simp add: item_blocks_def item_fits_def min_def)

lemma item_blocks_slot:
  assumes "0 < bs" "item_fits bs d" "k < d_context_len d"
  shows "slot_at bs (item_blocks bs d) k = slot_at bs (d_block_table d) k"
proof -
  have "k div bs < ceil_div (d_context_len d) bs"
    using ceil_div_covers [OF assms(1), of "d_context_len d"] assms(3)
    by (meson less_mult_imp_div_less order_less_le_trans)
  then show ?thesis by (simp add: slot_at_def item_blocks_def)
qed

lemma row_adapter_item:
  assumes "i < length (out_scheduled out)" "j < d_num_new (out_scheduled out ! i)"
    and b: "b_lora b = step_lora lora out"
  shows "row_adapter b (sum_list (map d_num_new (take i (out_scheduled out))) + j) = lora (d_seq (out_scheduled out ! i))"
proof (cases "list_all (\<lambda>d. lora (d_seq d) = no_lora) (out_scheduled out)")
  case True
  then show ?thesis using assms by (simp add: row_adapter_def step_lora_def list_all_length)
next
  case False
  let ?f = "\<lambda>d. replicate (d_num_new d) (lora (d_seq d))"
  have "concat (map ?f (out_scheduled out)) ! (sum_list (map (\<lambda>x. length (?f x)) (take i (out_scheduled out))) + j)
      = ?f (out_scheduled out ! i) ! j"
    using assms by (intro concat_map_nth) simp_all
  then show ?thesis using False assms
    by (simp add: row_adapter_def step_lora_def build_lora_context_def lora_from_slots_def token_lora_ids_def)
qed

lemma fold_upt_nth: "fold (\<lambda>i. f (xs ! i)) [0..<length xs] s = fold f xs s"
proof -
  have "fold (\<lambda>i. f (xs ! i)) [0..<length xs] s = fold f (map ((!) xs) [0..<length xs]) s"
    by (simp add: fold_map o_def)
  then show ?thesis by (simp add: map_nth)
qed

lemma forward_row_item:
  assumes bs: "0 < bs" and fits: "\<And>d. d \<in> set (out_scheduled out) \<Longrightarrow> item_fits bs d"
    and i: "i < length (out_scheduled out)" and j: "j < d_num_new (out_scheduled out ! i)"
    and b: "b_ids b = input_token_ids out" "b_positions b = out_positions out"
      "slot_mapping (b_meta b) = map int (concat (map d_slots (out_scheduled out)))" "b_lora b = step_lora lora out"
  shows "forward_row bs b (layout_plan bs (out_scheduled out)) i j kv = item_row bs lora (out_scheduled out ! i) j kv"
proof -
  let ?ds = "out_scheduled out" and ?p = "layout_plan bs (out_scheduled out)"
  let ?d = "?ds ! i" and ?r = "sum_list (map d_num_new (take i ?ds)) + j"
  have mem: "?d \<in> set ?ds" using i by simp
  note ft = fits [OF mem, unfolded item_fits_def]
  have sub: "x \<in> set (take i ?ds) \<Longrightarrow> x \<in> set ?ds" for x by (rule in_set_takeD)
  have off: "sum_list (map (\<lambda>x. length (g x)) (take i ?ds)) = sum_list (map d_num_new (take i ?ds))"
    if "\<And>d. item_fits bs d \<Longrightarrow> length (g d) = d_num_new d" for g :: "ssched \<Rightarrow> 'z list"
    using that fits sub by (intro arg_cong [where f = sum_list] map_cong refl) blast
  have ids: "b_ids b ! ?r = d_token_ids ?d ! j"
    using concat_map_nth [of i ?ds j d_token_ids] i j ft off [of d_token_ids]
    by (simp add: b(1) input_token_ids_def item_fits_def)
  have sl: "nat (slot_mapping (b_meta b) ! ?r) = d_slots ?d ! j"
    using concat_map_nth [of i ?ds j d_slots] concat_map_bound [of i ?ds j d_slots] i j ft off [of d_slots]
    by (simp add: b(3) item_fits_def)
  have pos: "b_positions b ! ?r = item_start ?d + j"
  proof -
    have len: "length (item_positions d) = d_num_new d" if "item_fits bs d" for d
      using that by (simp add: item_positions_def item_fits_def)
    have "item_start ?d + j < d_context_len ?d" using item_row_bound [OF fits [OF mem] j] .
    then have "item_positions ?d ! j = item_start ?d + j"
      unfolding item_positions_def item_start_def by (rule nth_upt)
    then show ?thesis
      using concat_map_nth [of i ?ds j item_positions] i j len [OF fits [OF mem]] off [of item_positions, OF len]
      by (simp add: b(2) out_positions_def)
  qed
  have at: "p_offsets ?p ! i = sum_list (map d_num_new (take i ?ds))" "p_contexts ?p ! i = d_context_len ?d"
    "p_blocks ?p ! i = item_blocks bs ?d"
    using i by (simp_all add: layout_plan_def del: upt_Suc)
  have "d_context_len ?d - d_num_new ?d + j = item_start ?d + j" by (simp add: item_start_def)
  moreover have "item_start ?d + j \<le> d_context_len ?d" using ft j by (simp add: item_start_def)
  ultimately have g: "take (d_context_len ?d - d_num_new ?d + j) (gather_kv bs kv (item_blocks bs ?d) (d_context_len ?d))
      = map (\<lambda>k. kv (slot_at bs (item_blocks bs ?d) k)) [0..<item_start ?d + j]"
    using gather_kv_take [OF _ item_blocks_length [OF bs fits [OF mem]] bs] by metis
  show ?thesis
    unfolding forward_row_def Let_def at layout_q_len [OF i] ids sl pos g item_row_def kv_write_def
      row_adapter_item [OF i j b(4)] ..
qed

lemma fold_agree: "(\<And>x s. x \<in> set xs \<Longrightarrow> f x s = g x s) \<Longrightarrow> fold f xs s = fold g xs s"
  by (induction xs arbitrary: s) simp_all

lemma forward_items:
  fixes kv :: kvstore
  assumes bs: "0 < bs" and fits: "\<And>d. d \<in> set (out_scheduled out) \<Longrightarrow> item_fits bs d"
    and b: "build_batch bs lora out = Inr b"
  defines "ds \<equiv> out_scheduled out"
  defines "kv' \<equiv> fold (item_forward bs lora) ds kv"
  shows "forward bs b kv = Inr (concat (map (\<lambda>d. map (item_context bs kv' d) [0..<d_num_new d]) ds), kv')"
proof -
  obtain meta where m: "build_attn_metadata (int bs) None out = Inr meta"
    and bm: "b_meta b = meta" and b4: "b_ids b = input_token_ids out" "b_positions b = out_positions out"
      "b_lora b = step_lora lora out"
    using b by (auto simp: build_batch_def)
  note pl = plan_of_layout [OF bs fits m]
  let ?p = "layout_plan bs ds"
  have pc: "p_contexts ?p ! i = d_context_len (ds ! i)" if "i < length ds" for i
    using that by (simp add: layout_plan_def)
  have len: "length (p_contexts ?p) = length ds" by (simp add: layout_plan_def)
  have fi: "item_fits bs (ds ! i)" if "i < length ds" for i using fits that by (simp add: ds_def)
  have "length (d_token_ids d) = length (item_positions d)" if "d \<in> set ds" for d
    using fits [of d] that by (auto simp: ds_def item_fits_def item_positions_def)
  then have l: "length (b_ids b) = length (b_positions b)"
    unfolding b4 input_token_ids_def out_positions_def ds_def [symmetric] length_concat map_map o_def
    by (intro arg_cong [where f = sum_list] map_cong refl) simp
  have seq: "forward_seq bs b ?p i k = item_forward bs lora (ds ! i) k" if i: "i < length ds" for i k
    unfolding forward_seq_def item_forward_def layout_q_len [OF i]
  proof (rule fold_agree)
    fix j k assume "j \<in> set [0..<d_num_new (ds ! i)]"
    then show "forward_row bs b ?p i j k = item_row bs lora (ds ! i) j k"
      unfolding ds_def using forward_row_item [OF bs fits, where i = i and j = j and b = b and lora = lora and kv = k] i b4 pl(2) bm
      by (simp add: ds_def)
  qed
  have "fold (forward_seq bs b ?p) [0..<length ds] kv = fold (\<lambda>i. item_forward bs lora (ds ! i)) [0..<length ds] kv"
    by (rule fold_agree) (simp add: seq)
  then have kv': "fold (forward_seq bs b ?p) [0..<length ds] kv = kv'"
    unfolding kv'_def fold_upt_nth .
  have ctx: "row_context bs ?p kv' i j = item_context bs kv' (ds ! i) j" if i: "i < length ds" and j: "j < d_num_new (ds ! i)" for i j
  proof -
    have "item_start (ds ! i) + j + 1 \<le> d_context_len (ds ! i)" using item_row_bound [OF fi [OF i] j] by simp
    moreover have "p_blocks ?p ! i = item_blocks bs (ds ! i)" using i by (simp add: layout_plan_def)
    ultimately show ?thesis
      unfolding row_context_def item_context_def pc [OF i] layout_q_len [OF i]
      using gather_kv_take [OF _ item_blocks_length [OF bs fi [OF i]] bs] by (metis item_start_def)
  qed
  have "concat (map (\<lambda>i. map (row_context bs ?p kv' i) [0..<q_len ?p i]) [0..<length ds])
      = concat (map (\<lambda>i. map (item_context bs kv' (ds ! i)) [0..<d_num_new (ds ! i)]) [0..<length ds])"
    by (intro arg_cong [where f = concat] map_cong refl) (simp_all add: layout_q_len ctx)
  also have "\<dots> = concat (map (\<lambda>d. map (item_context bs kv' d) [0..<d_num_new d]) ds)"
    by (rule arg_cong [where f = concat]) (rule nth_equalityI, simp_all)
  finally have rows: "concat (map (\<lambda>i. map (row_context bs ?p kv' i) [0..<q_len ?p i]) [0..<length ds])
      = concat (map (\<lambda>d. map (item_context bs kv' d) [0..<d_num_new d]) ds)" .
  have ok: "\<not> list_ex (\<lambda>i. p_contexts ?p ! i < q_len ?p i) [0..<length ds]"
  proof -
    have "q_len ?p i \<le> p_contexts ?p ! i" if "i < length ds" for i
      using fi [OF that] unfolding layout_q_len [OF that] pc [OF that] item_fits_def by blast
    then show ?thesis by (simp add: list_ex_iff not_less)
  qed
  show ?thesis
    unfolding forward_def using l pl(1) by (simp add: bm ds_def [symmetric] Let_def len ok kv' rows)
qed

end
