(* ===== verification/Cache_Contents.thy ===== *)
theory Cache_Contents
  imports Paged_Layout
begin

text \<open>
  What the KV slots hold. \<open>holds\<close> says that the first \<open>n\<close> slots of a sequence's block table
  hold the entries of a dense cache of its own tokens; \<open>cache_holds\<close> says that every block of the
  prefix cache holds the entries of the tokens its hash stands for. \<open>S\<close> is a set of messages
  without a digest collision that contains the messages of all requests.

  The first section says where cache entries come from (\<open>cache_from\<close>), for every operation
  of the block manager; the others show what that means for the contents.
\<close>

section \<open>Where cache entries come from\<close>

lemma decref_index: "decref (bm_recycler m) b (a, c) = Inr (n, a', c') \<Longrightarrow> c_by_block c' = c_by_block c"
  by (auto simp: decref_def bm_recycler_def release_def offer_block_def pc_recycler_def
      pc_release_def Let_def split: if_splits)

lemma decref_many_index:
  "decref_many (bm_recycler m) bs (a, c) = Inr (a', c') \<Longrightarrow> c_by_block c' = c_by_block c"
  unfolding decref_many_def
  by (induction bs arbitrary: a c) (auto dest!: decref_index)

lemma evicts_only:
  assumes "allocate (bm_recycler m) (a, c) = Inr (b, a', c')" "pc_inv c"
  shows "pc_inv c' \<and> c_by_block c' \<subseteq>\<^sub>m c_by_block c"
proof -
  obtain a1 c1 where s: "(if a_free a = [] then reclaim (bm_recycler m) 1 (a, c) else Inr (a, c)) = Inr (a1, c1)"
    and c': "c' = c1"
    using assms(1) by (cases "if a_free a = [] then reclaim (bm_recycler m) 1 (a, c) else Inr (a, c)")
      (auto simp: allocate_def split: list.splits)
  have "c1 = c \<or> (\<exists>bs n. pc_evict n c = (bs, c1))"
    using s by (auto simp: reclaim_def bm_recycler_def pc_recycler_def split: if_splits prod.splits)
  then show ?thesis
    using pc_evict_effect [OF assms(2)] assms(2) c' by (auto simp: map_le_def restrict_map_def split: if_splits)
qed

lemma grow_table_evicts:
  "grow_table (bm_recycler m) k table (a, c) = Inr (t', a', c') \<Longrightarrow> pc_inv c \<Longrightarrow> c_by_block c' \<subseteq>\<^sub>m c_by_block c"
proof (induction k arbitrary: table a c)
  case 0
  then show ?case by simp
next
  case (Suc k)
  then obtain b a1 c1 where 1: "allocate (bm_recycler m) (a, c) = Inr (b, a1, c1)"
    "grow_table (bm_recycler m) k (table @ [b]) (a1, c1) = Inr (t', a', c')" by auto
  note e = evicts_only [OF 1(1) Suc.prems(2)]
  then show ?case using Suc.IH [OF 1(2)] map_le_trans by blast
qed

lemma cache_from_subset: "c_by_block (bm_cache m') \<subseteq>\<^sub>m c_by_block (bm_cache m) \<Longrightarrow> cache_from D q m m'"
  by (auto simp: cache_from_def map_le_def dom_def)

lemma append_index:
  "append_slots q n m = Inr (sl, q', m') \<Longrightarrow> bm_inv M m \<Longrightarrow> c_by_block (bm_cache m') \<subseteq>\<^sub>m c_by_block (bm_cache m)"
  by (auto simp: append_slots_def Let_def dest!: grow_table_evicts dest: bm_inv_cache split: if_splits)

lemma append_from:
  "append_slots q n m = Inr (sl, q', m') \<Longrightarrow> bm_inv M m \<Longrightarrow> cache_from D p m m'"
  by (rule cache_from_subset) (rule append_index)

lemma adopt_hits_index:
  "adopt_hits hs (a, c, q, acc) = Inr (a', c', q', acc') \<Longrightarrow> c_by_block c' = c_by_block c"
proof (induction hs arbitrary: a c q acc)
  case Nil
  then show ?case by simp
next
  case (Cons bh hs)
  obtain b h where bh: "bh = (b, h)" by fastforce
  from Cons.prems obtain a1 q1 acc1 where "adopt_hits hs (a1, pc_acquire b c, q1, acc1) = Inr (a', c', q', acc')"
    unfolding bh by auto
  from Cons.IH [OF this] show ?case by (simp add: pc_acquire_def)
qed

lemma allocate_index:
  assumes "bm_allocate D q m = Inr (n, q', m')"
  shows "c_by_block (bm_cache m') = c_by_block (bm_cache m)"
proof (cases "bm_caching m")
  case True
  then show ?thesis using assms
    by (auto simp: bm_allocate_def dest!: adopt_hits_index pc_match_cache split: if_splits)
next
  case False
  then show ?thesis using assms by (auto simp: bm_allocate_def split: if_splits)
qed

lemma allocate_from: "bm_allocate D q m = Inr (n, q', m') \<Longrightarrow> cache_from D p m m'"
  by (rule cache_from_subset) (simp add: allocate_index)

lemma publish_from:
  assumes "publish_computed_blocks D q m = Inr (n, m')" "bm_inv (F + mset (q_table q)) m" "seq_held D m q" "seq_sane q"
  shows "cache_from D q m m'"
  using publish_effect [OF assms(2-4)] assms(1) by auto

lemma free_from:
  assumes f: "bm_free D q m = Inr (q', m')" and "bm_inv (F + mset (q_table q)) m" "seq_held D m q" "seq_sane q"
  shows "cache_from D q m m'"
proof -
  obtain n m1 where p: "publish_computed_blocks D q m = Inr (n, m1)" "cache_from D q m m1"
    using publish_effect [OF assms(2-4)] by blast
  have "c_by_block (bm_cache m') = c_by_block (bm_cache m1)"
    using f p(1) by (auto simp: bm_free_def dest!: decref_many_index split: if_splits)
  then show ?thesis using p(2) by (simp add: cache_from_def)
qed

lemma preempt_from:
  "bm_preempt D q m = Inr (q', m') \<Longrightarrow> bm_inv (F + mset (q_table q)) m \<Longrightarrow> seq_held D m q \<Longrightarrow> seq_sane q \<Longrightarrow>
   cache_from D q m m'"
  by (auto simp: bm_preempt_def dest: free_from)

lemma release_from:
  "bm_release D q m = Inr (q', m') \<Longrightarrow> bm_inv (F + mset (q_table q)) m \<Longrightarrow> seq_held D m q \<Longrightarrow> seq_sane q \<Longrightarrow>
   cache_from D q m m'"
  by (auto simp: bm_release_def dest: free_from)

section \<open>Contents of slots and cached blocks\<close>

definition holds :: "kvstore \<Rightarrow> nat \<Rightarrow> seqn \<Rightarrow> nat \<Rightarrow> bool" where
  "holds kv bs q n \<longleftrightarrow> n \<le> length (q_table q) * bs \<and> n \<le> num_tokens q
     \<and> (\<forall>p < n. kv (slot_at bs (q_table q) p) = kv_prefix (q_lora q) (token_ids q) ! p)"

definition cache_holds :: "digest \<Rightarrow> bytes set \<Rightarrow> kvstore \<Rightarrow> nat \<Rightarrow> pcache \<Rightarrow> bool" where
  "cache_holds D S kv bs c \<longleftrightarrow> (\<forall>b e. c_by_block c b = Some e \<longrightarrow>
     (\<exists>l ts i. encodable l ts \<and> Suc i * bs \<le> length ts \<and> chain_messages D bs l ts (Suc i) \<subseteq> S
        \<and> e_hash e = prefix_hash D bs l ts (Suc i)
        \<and> (\<forall>r < bs. kv (b * bs + r) = kv_prefix l ts ! (i * bs + r))))"

definition messages_in :: "digest \<Rightarrow> bytes set \<Rightarrow> nat \<Rightarrow> seqn \<Rightarrow> bool" where
  "messages_in D S bs q \<longleftrightarrow> chain_messages D bs (q_lora q) (token_ids q) (num_tokens q div bs) \<subseteq> S"

lemma holds_0 [simp]: "holds kv bs q 0"
  by (simp add: holds_def)

lemma holds_grown:
  assumes "holds kv bs q n" "0 < bs" "q_table q' = q_table q @ t" "token_ids q' = token_ids q @ us" "q_lora q' = q_lora q"
  shows "holds kv bs q' n"
proof -
  have n: "n \<le> length (q_table q) * bs" "n \<le> num_tokens q" using assms(1) by (simp_all add: holds_def)
  have "slot_at bs (q_table q') p = slot_at bs (q_table q) p" if "p < n" for p
  proof -
    have "p div bs < length (q_table q)"
      using n(1) that by (meson less_mult_imp_div_less order_less_le_trans)
    then show ?thesis by (simp add: slot_at_def assms(3) nth_append)
  qed
  moreover have "kv_prefix (q_lora q') (token_ids q') ! p = kv_prefix (q_lora q) (token_ids q) ! p" if "p < n" for p
  proof -
    have "p < length (token_ids q)" using n(2) that by (simp add: num_tokens_token_ids)
    then show ?thesis using kv_prefix_nth_take [of p "length (token_ids q)" "q_lora q" "token_ids q'"] assms(4,5) by simp
  qed
  moreover have "num_tokens q' = num_tokens q + length us" by (simp add: num_tokens_token_ids assms(4))
  ultimately show ?thesis using assms(1,3) by (simp add: holds_def add_mult_distrib)
qed

lemma holds_less: "holds kv bs q n \<Longrightarrow> k \<le> n \<Longrightarrow> holds kv bs q k"
  by (simp add: holds_def)

lemma messages_in_prefix:
  assumes "messages_in D S bs q" "0 < bs" "i * bs \<le> num_tokens q"
  shows "chain_messages D bs (q_lora q) (token_ids q) i \<subseteq> S"
proof -
  have "i \<le> num_tokens q div bs" using assms(2,3) by (simp add: less_eq_div_iff_mult_less_eq)
  then show ?thesis using chain_messages_mono assms(1) unfolding messages_in_def by blast
qed

lemma slot_in_block: "0 < bs \<Longrightarrow> r < bs \<Longrightarrow> slot_at bs t (i * bs + r) = t ! i * bs + r"
  by (simp add: slot_at_def)

lemma cache_holds_from:
  assumes old: "cache_holds D S kv bs (bm_cache m)" and f: "cache_from D q m m'" and bs: "bm_block_size m = bs" "0 < bs"
    and q: "holds kv bs q (q_computed q)" "seq_sane q" "messages_in D S bs q"
  shows "cache_holds D S kv bs (bm_cache m')"
  unfolding cache_holds_def
proof (intro allI impI)
  fix b e assume e: "c_by_block (bm_cache m') b = Some e"
  let ?P = "\<lambda>l ts i. encodable l ts \<and> Suc i * bs \<le> length ts \<and> chain_messages D bs l ts (Suc i) \<subseteq> S
        \<and> e_hash e = prefix_hash D bs l ts (Suc i) \<and> (\<forall>r < bs. kv (b * bs + r) = kv_prefix l ts ! (i * bs + r))"
  show "\<exists>l ts i. ?P l ts i"
  proof (cases "c_by_block (bm_cache m) b = Some e")
    case True
    then show ?thesis using old unfolding cache_holds_def by blast
  next
    case False
    then obtain i where i: "i < length (q_table q)" "Suc i * bs \<le> q_computed q" "b = q_table q ! i"
      "e_hash e = chain_of D bs q i"
      using f e bs unfolding cache_from_def by blast
    have c: "q_computed q \<le> num_tokens q" using q(2) by (simp add: seq_sane_def seq_wf_def)
    have "kv (b * bs + r) = kv_prefix (q_lora q) (token_ids q) ! (i * bs + r)" if "r < bs" for r
    proof -
      have "i * bs + r < q_computed q" using i(2) that by simp
      then show ?thesis using q(1) slot_in_block [OF bs(2) that, of "q_table q" i] i(3) unfolding holds_def by metis
    qed
    moreover have "Suc i * bs \<le> num_tokens q" using i(2) c by linarith
    ultimately have "?P (q_lora q) (token_ids q) i"
      using messages_in_prefix [OF q(3) bs(2)] q(2) i(4)
      unfolding seq_sane_def chain_of_def num_tokens_token_ids by blast
    then show ?thesis by blast
  qed
qed

text \<open>Adopting a cached prefix: without a collision the blocks hold the request's own prefix.\<close>

lemma adopted_holds:
  assumes inv: "bm_inv F m" and sane: "seq_sane q" and empty: "q_table q = []"
    and a: "bm_allocate D q m = Inr (n, q', m')" and bs: "bm_block_size m = bs"
    and c: "cache_holds D S kv bs (bm_cache m)" and dg: "digest_ok D S" and ms: "messages_in D S bs q"
  shows "holds kv bs q' n" "q_computed q' = n"
proof -
  obtain t m1 where a1: "bm_allocate D q m = Inr (length t * bs, admit_prefix (length t * bs) t q, m1)"
    and lt: "length t * bs < num_tokens q" and held: "seq_held D m1 (admit_prefix (length t * bs) t q)"
    and fr: "frame F (q_id q) m m1" and st: "bm_state m1 (q_id q) \<noteq> None"
    and dom: "set t \<subseteq> dom (c_by_block (bm_cache m))"
    using allocate_ok [OF inv sane empty, of D] unfolding bs by (elim exE conjE) (rule that; assumption)
  have eq: "n = length t * bs" "q' = admit_prefix (length t * bs) t q" "m' = m1" using a a1 by auto
  have pos: "0 < bs" using inv bs by (simp add: bm_inv_def)
  have idx: "c_by_block (bm_cache m1) = c_by_block (bm_cache m)" using allocate_index [OF a1] .
  have bs1: "bm_block_size m1 = bs" using fr bs by (simp add: frame_def)
  show "q_computed q' = n" using eq by simp
  have blk: "kv (t ! i * bs + r) = kv_prefix (q_lora q) (token_ids q) ! (i * bs + r)" if i: "i < length t" and r: "r < bs" for i r
  proof -
    obtain e where e: "c_by_block (bm_cache m) (t ! i) = Some e" using dom i nth_mem by blast
    have "e_hash e = chain_of D bs (admit_prefix (length t * bs) t q) i"
      using held st e idx i bs1 by (auto simp: seq_held_def)
    then have h: "e_hash e = prefix_hash D bs (q_lora q) (token_ids q) (Suc i)" by (simp add: chain_of_def)
    obtain l ts j where j: "encodable l ts" "chain_messages D bs l ts (Suc j) \<subseteq> S"
      "e_hash e = prefix_hash D bs l ts (Suc j)" "\<forall>r < bs. kv (t ! i * bs + r) = kv_prefix l ts ! (j * bs + r)"
      using c e unfolding cache_holds_def by blast
    have "Suc i * bs \<le> length t * bs" using i by (intro mult_le_mono1) simp
    then have "Suc i * bs \<le> num_tokens q" using lt by linarith
    then have cm: "chain_messages D bs (q_lora q) (token_ids q) (Suc i) \<subseteq> S" by (rule messages_in_prefix [OF ms pos])
    have enc: "encodable (q_lora q) (token_ids q)" using sane by (simp add: seq_sane_def)
    have "prefix_hash D bs l ts (Suc j) = prefix_hash D bs (q_lora q) (token_ids q) (Suc i)" using j(3) h by (simp only:)
    from chain_identifies_prefix [OF dg j(2) cm j(1) enc this]
    have same: "j = i" "l = q_lora q" "take (Suc i * bs) ts = take (Suc i * bs) (token_ids q)" by auto
    have "i * bs + r < Suc i * bs" using r by simp
    then have "kv_prefix l ts ! (i * bs + r) = kv_prefix (q_lora q) (token_ids q) ! (i * bs + r)"
      using same kv_prefix_nth_take by metis
    then show ?thesis using j(4) r same by simp
  qed
  show "holds kv bs q' n"
    unfolding holds_def eq
  proof (intro conjI allI impI)
    fix p assume p: "p < length t * bs"
    have "p div bs < length t" "p mod bs < bs" using p pos by (simp_all add: less_mult_imp_div_less)
    from blk [OF this] show "kv (slot_at bs (q_table (admit_prefix (length t * bs) t q)) p)
        = kv_prefix (q_lora (admit_prefix (length t * bs) t q)) (token_ids (admit_prefix (length t * bs) t q)) ! p"
      by (simp add: slot_at_def)
  qed (use lt in simp_all)
qed

end
