(* ===== verification/Step_Contents.thy ===== *)
theory Step_Contents
  imports Cache_Contents
begin

text \<open>
  What scheduling does to the contents of the KV pool. \<open>contents_ok\<close> is the invariant between
  two steps; \<open>staged\<close> is what holds in the middle of a step, while the batch is put together:
  sequences already in the batch have claimed slots that are not written yet, and only
  their slots before the first token of the step are known.

  \<open>caught_up q n\<close> is the second half: a sequence that was never preempted and computes from
  position \<open>n\<close> has either no output yet or at most one token left to compute.
\<close>

section \<open>The invariant\<close>

definition caught_up :: "seqn \<Rightarrow> nat \<Rightarrow> bool" where
  "caught_up q n \<longleftrightarrow> (q_preemptions q = 0 \<longrightarrow> q_output q = [] \<or> num_tokens q \<le> n + 1)"

abbreviation bsize :: "sched \<Rightarrow> nat" where
  "bsize s \<equiv> bm_block_size (s_bm s)"

definition contents_ok :: "digest \<Rightarrow> bytes set \<Rightarrow> kvstore \<Rightarrow> sched \<Rightarrow> bool" where
  "contents_ok D S kv s \<longleftrightarrow> cache_holds D S kv (bsize s) (bm_cache (s_bm s))
     \<and> (\<forall>x \<in> set (s_running s). holds kv (bsize s) (obj x s) (q_computed (obj x s)))
     \<and> (\<forall>x \<in> everyone s. messages_in D S (bsize s) (obj x s) \<and> caught_up (obj x s) (q_computed (obj x s)))"

definition item_staged :: "kvstore \<Rightarrow> sched \<Rightarrow> ssched \<Rightarrow> bool" where
  "item_staged kv s d \<longleftrightarrow> holds kv (bsize s) (obj (d_seq d) s) (item_start d)
     \<and> caught_up (obj (d_seq d) s) (item_start d)
     \<and> (\<not> enable_chunked_prefill (s_config s) \<longrightarrow> d_context_len d = num_tokens (obj (d_seq d) s))"

definition staged :: "digest \<Rightarrow> bytes set \<Rightarrow> kvstore \<Rightarrow> sched \<Rightarrow> kstep \<Rightarrow> bool" where
  "staged D S kv s k \<longleftrightarrow> cache_holds D S kv (bsize s) (bm_cache (s_bm s))
     \<and> (\<forall>x \<in> set (s_running s) - k_ids k. holds kv (bsize s) (obj x s) (q_computed (obj x s)))
     \<and> (\<forall>x \<in> everyone s. messages_in D S (bsize s) (obj x s) \<and> caught_up (obj x s) (q_computed (obj x s)))
     \<and> (\<forall>d \<in> set (items k). item_staged kv s d)"

lemma caught_up_mono: "caught_up q n \<Longrightarrow> n \<le> n' \<Longrightarrow> caught_up q n'"
  by (auto simp: caught_up_def)

lemma messages_in_same: "token_ids q' = token_ids q \<Longrightarrow> q_lora q' = q_lora q \<Longrightarrow> messages_in D S bs q' = messages_in D S bs q"
  by (simp add: messages_in_def num_tokens_token_ids)

lemma same_seq_messages: "same_seq q q' \<Longrightarrow> messages_in D S bs q' = messages_in D S bs q"
  by (rule messages_in_same) (simp_all add: same_seq_def token_ids_def)

lemma holds_same:
  "q_table q' = q_table q \<Longrightarrow> token_ids q' = token_ids q \<Longrightarrow> q_lora q' = q_lora q \<Longrightarrow> holds kv bs q' n = holds kv bs q n"
  by (simp add: holds_def num_tokens_token_ids)

text \<open>An operation on \<open>x\<close> keeps the stage of everybody else.\<close>

lemma staged_other:
  assumes st: "staged D S kv s k" and k: "kinv D T Q s k" and x: "x \<notin> k_ids k"
    and cf: "cache_from D q (s_bm s) (s_bm s')" "holds kv (bsize s) q (q_computed q)" "seq_sane q"
      "messages_in D S (bsize s) q" "0 < bsize s"
    and bs: "bsize s' = bsize s" and cfg: "s_config s' = s_config s"
    and oth: "\<And>y. y \<noteq> x \<Longrightarrow> obj y s' = obj y s"
    and run: "set (s_running s') \<subseteq> insert x (set (s_running s))"
    and run_x: "x \<in> set (s_running s') \<Longrightarrow> x \<notin> k_ids k' \<Longrightarrow> holds kv (bsize s) (obj x s') (q_computed (obj x s'))"
    and ev: "everyone s' = everyone s"
    and ev_x: "x \<in> everyone s \<Longrightarrow> messages_in D S (bsize s) (obj x s') \<and> caught_up (obj x s') (q_computed (obj x s'))"
    and it: "\<And>d. d \<in> set (items k') \<Longrightarrow> d \<in> set (items k) \<or> item_staged kv s' d" "k_ids k \<subseteq> k_ids k'"
  shows "staged D S kv s' k'"
  unfolding staged_def
proof (intro conjI ballI)
  show "cache_holds D S kv (bsize s') (bm_cache (s_bm s'))"
    unfolding bs using st cache_holds_from [OF _ cf(1) refl cf(5,2,3,4)] by (simp add: staged_def)
next
  fix y assume y: "y \<in> set (s_running s') - k_ids k'"
  show "holds kv (bsize s') (obj y s') (q_computed (obj y s'))"
  proof (cases "y = x")
    case True
    then show ?thesis using run_x y bs by simp
  next
    case False
    then have "y \<in> set (s_running s) - k_ids k" using y run it(2) by blast
    then show ?thesis using st oth [OF False] bs by (simp add: staged_def)
  qed
next
  fix y assume y: "y \<in> everyone s'"
  then have yy: "y \<in> everyone s" using ev by simp
  show "messages_in D S (bsize s') (obj y s')" "caught_up (obj y s') (q_computed (obj y s'))"
    using st ev_x oth [of y] yy bs by (cases "y = x"; simp add: staged_def)+
next
  fix d assume d: "d \<in> set (items k')"
  from it(1) [OF d] show "item_staged kv s' d"
  proof
    assume d: "d \<in> set (items k)"
    then have "d_seq d \<noteq> x" using k x by (auto simp: kinv_def)
    then show ?thesis using st d oth bs cfg by (simp add: staged_def item_staged_def)
  qed
qed

section \<open>Publication and preemption\<close>

lemma running_live:
  assumes "score D s" "x \<in> set (s_running s)"
  shows "seq_sane (obj x s)" "seq_held D (s_bm s) (obj x s)" "0 < bsize s" "x \<in> everyone s"
    "bm_inv (refs (s_seqs s) (remove1 x (s_running s)) + mset (q_table (obj x s))) (s_bm s)"
proof -
  obtain q where q: "s_seqs s x = Some q" "seq_sane q" "seq_held D (s_bm s) q"
    "bm_inv (refs (s_seqs s) (remove1 x (s_running s)) + mset (q_table q)) (s_bm s)"
    using liveE [OF assms] by metis
  then show "seq_sane (obj x s)" "seq_held D (s_bm s) (obj x s)"
    "bm_inv (refs (s_seqs s) (remove1 x (s_running s)) + mset (q_table (obj x s))) (s_bm s)"
    by (simp_all add: obj_def)
  show "0 < bsize s" using q(4) by (simp add: bm_inv_def)
  show "x \<in> everyone s" using assms(2) by (simp add: everyone_def)
qed

lemma staged_running:
  assumes "staged D S kv s k" "kinv D T Q s k" "x \<in> set (s_running s)" "x \<notin> k_ids k"
  shows "holds kv (bsize s) (obj x s) (q_computed (obj x s))" "messages_in D S (bsize s) (obj x s)"
    "caught_up (obj x s) (q_computed (obj x s))"
  using assms running_live(4) [of D s x] unfolding staged_def kinv_def by blast+

lemma preempt_staged:
  assumes k: "kinv D T Q s k" and st: "staged D S kv s k" and x: "x \<in> set (s_running s)" "x \<notin> k_ids k"
    and p: "sched_preempt D x (s, k) = Inr (s', k')"
  shows "staged D S kv s' k'"
proof -
  have sc: "score D s" using k by (simp add: kinv_def)
  note lv = running_live [OF sc x(1)] and sr = staged_running [OF st k x]
  obtain q m where b: "bm_preempt D (obj x s) (s_bm s) = Inr (q, m)" and sb: "s_bm s' = m" and ox: "obj x s' = q"
    using p by (auto simp: sched_preempt_def obj_def put_def)
  have q: "q = reset_for_recompute (obj x s)" using b preempt_ok [OF lv(5,2,1)] by auto
  obtain s1 k1 where "sched_preempt D x (s, k) = Inr (s1, k1)" "world s s1"
    "s_running s1 = remove1 x (s_running s)" "same_batch k k1" "\<forall>y. y \<noteq> x \<longrightarrow> obj y s1 = obj y s"
    using preempt_step [OF k x] by blast
  then have e: "world s s'" "s_running s' = remove1 x (s_running s)" "same_batch k k'" "\<And>y. y \<noteq> x \<Longrightarrow> obj y s' = obj y s"
    using p by auto
  have "distinct (s_running s)" using sc by (simp add: core_def)
  then have nr: "x \<notin> set (s_running s')" using e(2) by simp
  show ?thesis
  proof (rule staged_other [OF st k x(2) preempt_from [OF b lv(5,2,1), folded sb] sr(1) lv(1) sr(2) lv(3)])
    show "messages_in D S (bsize s) (obj x s') \<and> caught_up (obj x s') (q_computed (obj x s'))"
      using sr(2) unfolding ox q by (simp add: caught_up_def reset_for_recompute_def messages_in_def token_ids_def num_tokens_def)
    show "set (s_running s') \<subseteq> insert x (set (s_running s))" using e(2) set_remove1_mem by auto
  qed (use e nr in \<open>auto simp: world_def same_batch_def\<close>)
qed

lemma make_room_staged:
  "kinv D T Q s k \<Longrightarrow> staged D S kv s k \<Longrightarrow> x \<in> set (s_running s) \<Longrightarrow> x \<notin> k_ids k \<Longrightarrow>
   make_room D x n (s, k) = Inr (ok, s', k') \<Longrightarrow> staged D S kv s' k'"
proof (induction "length (s_running s)" arbitrary: s k rule: less_induct)
  case less
  show ?case
  proof (cases "can_append (obj x s) n (s_bm s)")
    case True
    then show ?thesis using less.prems by (simp add: make_room.simps [of D x n s k])
  next
    case False
    show ?thesis
    proof (cases "pick_victim (k_ids k) x s")
      case None
      then obtain s1 k1 where "sched_preempt D x (s, k) = Inr (s1, k1)" "s' = s1" "k' = k1"
        using less.prems(5) False by (auto simp: make_room.simps [of D x n s k])
      then show ?thesis using preempt_staged [OF less.prems(1,2,3,4)] by simp
    next
      case (Some v)
      note v = pick_victim_in [OF Some]
      obtain s1 k1 where p: "sched_preempt D v (s, k) = Inr (s1, k1)" and r: "make_room D x n (s1, k1) = Inr (ok, s', k')"
        using less.prems(5) False Some by (auto simp: make_room.simps [of D x n s k])
      obtain s2 k2 where "sched_preempt D v (s, k) = Inr (s2, k2)" "kinv D T Q s2 k2"
        "s_running s2 = remove1 v (s_running s)" "same_batch k k2"
        using preempt_step [OF less.prems(1)] v by blast
      then have e: "kinv D T Q s1 k1" "s_running s1 = remove1 v (s_running s)" "same_batch k k1" using p by auto
      have lt: "length (s_running s1) < length (s_running s)" using sched_preempt_shrinks [OF p] v by blast
      have x1: "x \<in> set (s_running s1)" "x \<notin> k_ids k1"
        using e(2,3) v less.prems(3,4) by (auto simp: same_batch_def)
      have "staged D S kv s1 k1" using preempt_staged [OF less.prems(1,2) _ _ p] v by blast
      then show ?thesis using less.hyps [OF lt e(1) _ x1 r] by blast
    qed
  qed
qed

section \<open>Emission\<close>

lemma emit_result:
  assumes sc: "score D s" and x: "x \<in> set (s_running s)" and can: "can_append (obj x s) n (s_bm s)"
    and run: "emit x n c (s, k) = Inr (s', k')"
  shows "\<exists>fresh sl m d. append_slots (obj x s) (int n) (s_bm s) = Inr (sl, (obj x s)\<lparr>q_table := q_table (obj x s) @ fresh\<rparr>, m)
     \<and> s' = put x ((obj x s)\<lparr>q_table := q_table (obj x s) @ fresh, q_computed := q_computed (obj x s) + n\<rparr>) (s\<lparr>s_bm := m\<rparr>)
     \<and> k_ids k' = insert x (k_ids k) \<and> set (items k') = insert d (set (items k))
     \<and> d_seq d = x \<and> item_start d = q_computed (obj x s) \<and> d_context_len d = q_computed (obj x s) + n
     \<and> bm_block_size m = bsize s"
proof -
  let ?q = "obj x s"
  note lv = running_live [OF sc x]
  have st: "bm_state (s_bm s) (q_id ?q) \<noteq> None" using sc x by (auto simp: core_def live_def obj_def)
  obtain fresh m where a: "append_slots ?q (int n) (s_bm s)
        = Inr (map (slot_at (bsize s) (q_table ?q @ fresh)) [q_computed ?q..<q_computed ?q + n],
               ?q\<lparr>q_table := q_table ?q @ fresh\<rparr>, m)"
    and fr: "frame (refs (s_seqs s) (remove1 x (s_running s))) (q_id ?q) (s_bm s) m"
    using append_ok [OF lv(5,2,1) st can] by (elim exE conjE) (rule that; assumption)
  have bs: "bm_block_size m = bsize s" using fr by (simp add: frame_def)
  let ?q1 = "?q\<lparr>q_table := q_table ?q @ fresh\<rparr>" and ?pre = "q_computed ?q < num_prompt_tokens ?q"
  have npt: "num_prompt_tokens ?q1 = num_prompt_tokens ?q" by (simp add: num_prompt_tokens_def)
  obtain toks d q2 t where d: "sched_item \<lparr>d_seq = x, d_num_new = n, d_context_len = q_computed ?q + n, d_token_ids = toks,
         d_slots = map (slot_at (bsize s) (q_table ?q @ fresh)) [q_computed ?q..<q_computed ?q + n],
         d_block_table = q_table ?q @ fresh, d_is_prefill = ?pre,
         d_is_chunk = (?pre \<and> q_computed ?q + n < num_prompt_tokens ?q), d_cached = c\<rparr> = Inr d"
    and adv: "advance_computed (int n) ?q1 = Inr (t, q2)" and s': "s' = put x q2 (s\<lparr>s_bm := m\<rparr>)"
    and k': "k_ids k' = insert x (k_ids k)"
      "k_prefills k' = (if ?pre then k_prefills k @ [d] else k_prefills k)"
      "k_decodes k' = (if ?pre then k_decodes k else k_decodes k @ [d])"
    using run unfolding emit_def Let_def split_conv a rbind.simps npt by auto
  have "d_seq d = x \<and> item_start d = q_computed ?q \<and> d_context_len d = q_computed ?q + n"
    using d by (auto simp: sched_item_def item_start_def split: if_splits)
  moreover have "q2 = ?q1\<lparr>q_computed := q_computed ?q + n\<rparr>"
    using adv by (auto simp: advance_computed_def Let_def split: if_splits)
  moreover have "set (items k') = insert d (set (items k))" using k'(2,3) by auto
  ultimately show ?thesis using a bs s' k'(1) by (intro exI [of _ fresh] exI exI [of _ m] exI [of _ d]) auto
qed

lemma emit_staged:
  assumes k: "kinv D T Q s k" and st: "staged D S kv s k" and x: "x \<in> set (s_running s)" "x \<notin> k_ids k"
    and can: "can_append (obj x s) n (s_bm s)" and whole: "\<not> enable_chunked_prefill (s_config s) \<Longrightarrow> int n = num_uncomputed (obj x s)"
    and run: "emit x n c (s, k) = Inr (s', k')"
  shows "staged D S kv s' k'"
proof -
  let ?q = "obj x s"
  have sc: "score D s" using k by (simp add: kinv_def)
  note lv = running_live [OF sc x(1)] and sr = staged_running [OF st k x]
  obtain fresh sl m d where a: "append_slots ?q (int n) (s_bm s) = Inr (sl, ?q\<lparr>q_table := q_table ?q @ fresh\<rparr>, m)"
    and s': "s' = put x (?q\<lparr>q_table := q_table ?q @ fresh, q_computed := q_computed ?q + n\<rparr>) (s\<lparr>s_bm := m\<rparr>)"
    and k': "k_ids k' = insert x (k_ids k)" "set (items k') = insert d (set (items k))"
    and d: "d_seq d = x" "item_start d = q_computed ?q" "d_context_len d = q_computed ?q + n"
    and bs: "bm_block_size m = bsize s"
    using emit_result [OF sc x(1) can run] by (elim exE conjE) (rule that; assumption)
  let ?q' = "?q\<lparr>q_table := q_table ?q @ fresh, q_computed := q_computed ?q + n\<rparr>"
  have f: "obj x s' = ?q'" "s_bm s' = m" "s_config s' = s_config s" "s_running s' = s_running s"
    "everyone s' = everyone s" using s' by (simp_all add: everyone_def)
  have q': "token_ids ?q' = token_ids ?q" "num_tokens ?q' = num_tokens ?q" "caught_up ?q' = caught_up ?q"
    "messages_in D S (bsize s) ?q' = messages_in D S (bsize s) ?q"
    by (simp_all add: token_ids_def num_tokens_def caught_up_def fun_eq_iff messages_in_def)
  have "holds kv (bsize s) ?q' (q_computed ?q)"
    by (rule holds_grown [OF sr(1) lv(3), of _ fresh "[]"]) (simp_all add: token_ids_def)
  moreover have "d_context_len d = num_tokens ?q'" if "\<not> enable_chunked_prefill (s_config s)"
    using whole [OF that] unfolding d q'(2) num_uncomputed_def by linarith
  ultimately have new: "item_staged kv s' d"
    using sr(3) unfolding item_staged_def d f(1,2,3) bs q'(3) by simp
  have cf: "cache_from D ?q (s_bm s) (s_bm s')" unfolding f(2) using append_from [OF a lv(5)] .
  show ?thesis
  proof (rule staged_other [OF st k x(2) cf sr(1) lv(1) sr(2) lv(3)])
    show "messages_in D S (bsize s) (obj x s') \<and> caught_up (obj x s') (q_computed (obj x s'))"
      using sr(2) caught_up_mono [OF sr(3), of "q_computed ?q + n"] unfolding f(1) q' by simp
    show "e \<in> set (items k) \<or> item_staged kv s' e" if "e \<in> set (items k')" for e
      using that new unfolding k'(2) by blast
    show "obj y s' = obj y s" if "y \<noteq> x" for y using that s' by simp
    show "k_ids k \<subseteq> k_ids k'" using k'(1) by blast
    show "holds kv (bsize s) (obj x s') (q_computed (obj x s'))" if "x \<notin> k_ids k'" using that k'(1) by blast
  qed (use f bs x in auto)
qed

section \<open>The loop over running sequences\<close>

lemma whole_step:
  "q_computed q \<le> num_tokens q \<Longrightarrow> \<not> int (num_new_tokens_to_compute b q) < num_uncomputed q \<Longrightarrow>
   int (num_new_tokens_to_compute b q) = num_uncomputed q"
  by (auto simp: num_new_tokens_to_compute_def num_uncomputed_def split: if_splits)

lemma schedule_running_staged:
  "kinv D T Q s k \<Longrightarrow> staged D S kv s k \<Longrightarrow> distinct xs \<Longrightarrow> set xs \<inter> k_ids k = {} \<Longrightarrow> set xs \<subseteq> everyone s \<Longrightarrow>
   schedule_running D xs (s, k) = Inr (s', k') \<Longrightarrow> staged D S kv s' k'"
proof (induction xs arbitrary: s k)
  case Nil
  then show ?case by simp
next
  case (Cons x xs)
  let ?q = "obj x s" and ?n = "num_new_tokens_to_compute (k_tokens k) (obj x s)"
  have skip: ?case if "schedule_running D (x # xs) (s, k) = schedule_running D xs (s, k)"
    using Cons.IH [OF Cons.prems(1,2)] Cons.prems(3-6) that by simp
  show ?case
  proof (cases "exhausted k \<or> q_status ?q \<noteq> Running \<or> ?n \<le> 0 \<or> (\<not> enable_chunked_prefill (s_config s) \<and> int ?n < num_uncomputed ?q)")
    case True
    then have "schedule_running D (x # xs) (s, k) = (if exhausted k then Inr (s, k) else schedule_running D xs (s, k))"
      by (auto simp: Let_def)
    then show ?thesis using skip Cons.prems(2,6) by (cases "exhausted k") auto
  next
    case False
    have sc: "score D s" using Cons.prems(1) by (simp add: kinv_def)
    have x: "x \<in> set (s_running s)" "x \<notin> k_ids k"
      using running_status [OF sc] False Cons.prems(4,5) by auto
    have le: "q_computed ?q \<le> num_tokens ?q" using running_sane [OF sc x(1)] by (simp add: seq_sane_def seq_wf_def)
    have n1: "1 \<le> ?n" "int ?n \<le> k_tokens k"
      using False num_new_tokens_bounds(1) [OF le, of "k_tokens k"] by (auto simp: exhausted_def)
    obtain ok s1 k1 where r: "make_room D x ?n (s, k) = Inr (ok, s1, k1)" "kinv D T Q s1 k1" "world s s1"
      "same_batch k k1" "ok \<longrightarrow> x \<in> set (s_running s1) \<and> obj x s1 = obj x s \<and> can_append (obj x s1) ?n (s_bm s1)"
      using make_room_ok [OF Cons.prems(1) x] by blast
    have st1: "staged D S kv s1 k1" using make_room_staged [OF Cons.prems(1,2) x r(1)] .
    have ev1: "set xs \<subseteq> everyone s1" "set xs \<inter> k_ids k1 = {}"
      using Cons.prems(4,5) r(3,4) by (auto simp: world_def same_batch_def)
    show ?thesis
    proof (cases ok)
      case no: False
      have "schedule_running D (x # xs) (s, k) = schedule_running D xs (s1, k1)"
        using r(1) no False by (auto simp: Let_def)
      then show ?thesis using Cons.IH [OF r(2) st1] Cons.prems(3,6) ev1 by simp
    next
      case True
      have can: "x \<in> set (s_running s1)" "can_append (obj x s1) ?n (s_bm s1)" "obj x s1 = ?q" using r(5) True by blast+
      have b1: "x \<notin> k_ids k1" "int ?n \<le> k_tokens k1" "1 \<le> k_seqs k1"
        using r(4) x(2) n1 False by (auto simp: same_batch_def exhausted_def)
      obtain s2 k2 where e: "emit x ?n 0 (s1, k1) = Inr (s2, k2)" "kinv D T Q s2 k2" "world s1 s2"
        "k_ids k2 = insert x (k_ids k1)"
        using emit_ok [OF r(2) can(1) b1(1) can(2) n1(1) b1(2,3)] by blast
      have "s_config s1 = s_config s" using r(3) by (simp add: world_def)
      then have "int ?n = num_uncomputed (obj x s1)" if "\<not> enable_chunked_prefill (s_config s1)"
        using whole_step [OF le] False that unfolding can(3) by auto
      from emit_staged [OF r(2) st1 can(1) b1(1) can(2) this e(1)]
      have st2: "staged D S kv s2 k2" .
      have "schedule_running D (x # xs) (s, k) = schedule_running D xs (s2, k2)"
        using r(1) True e(1) False by (auto simp: Let_def)
      moreover have "set xs \<inter> k_ids k2 = {}" "set xs \<subseteq> everyone s2"
        using Cons.prems(3) ev1 e(3,4) by (auto simp: world_def)
      ultimately show ?thesis using Cons.IH [OF e(2) st2] Cons.prems(3,6) by simp
    qed
  qed
qed

section \<open>Admissions\<close>

text \<open>A request right after its cached prefix was adopted.\<close>

lemma adopted_seq:
  assumes k: "kinv D T Q s k" and st: "staged D S kv s k" and dg: "digest_ok D S"
    and x: "x \<in> everyone s" "x \<notin> set (s_running s)"
    and a: "bm_allocate D (obj x s) (s_bm s) = Inr (cached, q, m)"
  shows "holds kv (bsize s) q (q_computed q)" "seq_sane q" "messages_in D S (bsize s) q" "caught_up q (q_computed q)"
    "bm_inv (refs (s_seqs s) (s_running s) + mset (q_table q)) m" "seq_held D m q" "bm_block_size m = bsize s"
    "c_by_block (bm_cache m) = c_by_block (bm_cache (s_bm s))" "0 < bsize s" "x \<notin> k_ids k"
    "caught_up (obj x s) 0" "messages_in D S (bsize s) (obj x s)" "q_computed (obj x s) = 0"
    "cache_from D p (s_bm s) m"
proof -
  let ?q = "obj x s"
  have sc: "score D s" using k by (simp add: kinv_def)
  have "x \<in> set (s_preempted s) \<union> set (wq_items (s_waiting s))" using x by (auto simp: everyone_def)
  then have idle: "seq_sane ?q" "q_table ?q = []" "q_computed ?q = 0"
    using sc by (auto simp: core_def idle_def obj_def)
  have inv: "bm_inv (refs (s_seqs s) (s_running s)) (s_bm s)" using sc by (simp add: core_def)
  show bs: "0 < bsize s" using inv by (simp add: bm_inv_def)
  show "x \<notin> k_ids k" using k x(2) by (auto simp: kinv_def)
  show ms: "messages_in D S (bsize s) ?q" and se: "caught_up ?q 0"
    using st x(1) idle(3) unfolding staged_def by fastforce+
  show "q_computed ?q = 0" by (rule idle(3))
  obtain t m1 where b: "bm_allocate D ?q (s_bm s) = Inr (length t * bsize s, admit_prefix (length t * bsize s) t ?q, m1)"
    and lt: "length t * bsize s < num_tokens ?q" and inv': "bm_inv (refs (s_seqs s) (s_running s) + mset t) m1"
    and held: "seq_held D m1 (admit_prefix (length t * bsize s) t ?q)"
    and fr: "frame (refs (s_seqs s) (s_running s)) (q_id ?q) (s_bm s) m1"
    using allocate_ok [OF inv idle(1,2), of D] by (elim exE conjE) (rule that; assumption)
  have eq: "q = admit_prefix (length t * bsize s) t ?q" "m = m1" using a b by auto
  show "bm_inv (refs (s_seqs s) (s_running s) + mset (q_table q)) m" "seq_held D m q" "bm_block_size m = bsize s"
    using inv' held fr eq by (simp_all add: frame_def)
  show "c_by_block (bm_cache m) = c_by_block (bm_cache (s_bm s))" by (rule allocate_index [OF a])
  show "cache_from D p (s_bm s) m" by (rule allocate_from [OF a])
  show "seq_sane q" using idle(1) lt by (simp add: eq(1) seq_sane_def seq_wf_def)
  show "messages_in D S (bsize s) q" using ms messages_in_same [of q ?q] by (simp add: eq(1))
  have "caught_up q = caught_up ?q" by (simp add: eq(1) caught_up_def admit_prefix_def num_tokens_def fun_eq_iff)
  then show "caught_up q (q_computed q)" using caught_up_mono [OF se] by simp
  have "cache_holds D S kv (bsize s) (bm_cache (s_bm s))" using st by (simp add: staged_def)
  from adopted_holds [OF inv idle(1,2) a refl this dg ms]
  show "holds kv (bsize s) q (q_computed q)" by simp
qed

lemma release_staged:
  assumes k: "kinv D T Q s k" and st: "staged D S kv s k" and dg: "digest_ok D S"
    and x: "x \<in> everyone s" "x \<notin> set (s_running s)"
    and a: "bm_allocate D (obj x s) (s_bm s) = Inr (cached, q, m)"
    and r: "bm_release D q m = Inr ((obj x s)\<lparr>q_timing := t\<rparr>, m')"
    and w: "world s (put x ((obj x s)\<lparr>q_timing := t\<rparr>) ((put x q (s\<lparr>s_bm := m\<rparr>))\<lparr>s_bm := m'\<rparr>))"
  shows "staged D S kv (put x ((obj x s)\<lparr>q_timing := t\<rparr>) ((put x q (s\<lparr>s_bm := m\<rparr>))\<lparr>s_bm := m'\<rparr>)) k"
proof -
  let ?s = "put x ((obj x s)\<lparr>q_timing := t\<rparr>) ((put x q (s\<lparr>s_bm := m\<rparr>))\<lparr>s_bm := m'\<rparr>)"
  let ?q = "(obj x s)\<lparr>q_timing := t\<rparr>"
  note ad = adopted_seq [OF k st dg x a]
  have "cache_from D q m m'" by (rule release_from [OF r ad(5,6,2)])
  then have cf: "cache_from D q (s_bm s) (s_bm ?s)" using ad(7,8) by (simp add: cache_from_def)
  have "messages_in D S (bsize s) ?q = messages_in D S (bsize s) (obj x s)" by (rule messages_in_same) (simp_all add: token_ids_def)
  moreover have "caught_up ?q = caught_up (obj x s)" by (simp add: caught_up_def num_tokens_def fun_eq_iff)
  ultimately have ev_x: "messages_in D S (bsize s) ?q \<and> caught_up ?q (q_computed ?q)" using ad(11-13) by simp
  show ?thesis
    by (rule staged_other [OF st k ad(10) cf ad(1,2,3,9)]) (use w x ev_x in \<open>auto simp: world_def everyone_def\<close>)
qed

lemma admit_staged:
  assumes k: "kinv D T Q s k" and st: "staged D S kv s k" and dg: "digest_ok D S"
    and x: "x \<in> everyone s" "x \<notin> set (s_running s)"
    and a: "bm_allocate D (obj x s) (s_bm s) = Inr (cached, q, m)"
    and ad: "admitted D T Q x ts q m n (s, k) (s3, k3)" and e: "emit x n cached (s3, k3) = Inr (s', k')"
    and whole: "\<not> enable_chunked_prefill (s_config s) \<Longrightarrow> int n = num_uncomputed q"
  shows "staged D S kv s' k'"
proof -
  note aq = adopted_seq [OF k st dg x a]
  note p = ad [unfolded admitted_def split_conv]
  have k3: "kinv D T Q s3 k3" and w: "world s s3" and sb: "s_bm s3 = m" and run: "s_running s3 = s_running s @ [x]"
    and ob: "\<And>y. obj y s3 = (if y = x then mark_running ts q else obj y s)"
    and can: "can_append (obj x s3) n (s_bm s3)" and nk: "x \<notin> k_ids k3"
    and kk: "k_ids k3 = k_ids k" "k_prefills k3 = k_prefills k" "k_decodes k3 = k_decodes k"
    using p by blast+
  let ?q = "mark_running ts q"
  note mf = mark_running_fields [where q = q and ts = ts]
  have qf: "holds kv (bsize s) ?q (q_computed ?q)" "messages_in D S (bsize s) ?q" "caught_up ?q (q_computed ?q)"
    "num_uncomputed ?q = num_uncomputed q"
  proof -
    show "holds kv (bsize s) ?q (q_computed ?q)"
      using aq(1) holds_same [of ?q q kv "bsize s" "q_computed q"] mf by (simp add: same_seq_def)
    show "messages_in D S (bsize s) ?q" using aq(3) same_seq_messages [OF mf(1)] by simp
    obtain t where "?q = q\<lparr>q_status := Running, q_timing := t\<rparr>" using mark_running_form by blast
    then show "caught_up ?q (q_computed ?q)" "num_uncomputed ?q = num_uncomputed q"
      using aq(4) by (simp_all add: caught_up_def num_tokens_def num_uncomputed_def)
  qed
  have "staged D S kv s3 k3"
    by (rule staged_other [OF st k aq(10) aq(14) [folded sb] aq(1,2,3,9)])
      (use w run ob kk qf aq(7) sb in \<open>auto simp: world_def\<close>)
  moreover have "int n = num_uncomputed (obj x s3)" if "\<not> enable_chunked_prefill (s_config s3)"
    using whole that w ob qf(4) by (simp add: world_def)
  ultimately show ?thesis using emit_staged [OF k3 _ _ nk can _ e] run by simp
qed

lemma schedule_admissions_staged:
  "kinv D T Q s k \<Longrightarrow> staged D S kv s k \<Longrightarrow> digest_ok D S \<Longrightarrow>
   schedule_admissions D ts (s, k) = Inr (s', k') \<Longrightarrow> staged D S kv s' k'"
proof (induction "nat (k_seqs k)" arbitrary: s k rule: less_induct)
  case less
  have hd: "(if s_preempted s \<noteq> [] then Some (hd (s_preempted s)) else wq_peek (s_waiting s)) = head_of s"
    by (simp add: head_of_def)
  note eqs = schedule_admissions.simps [of D ts s k]
  show ?case
  proof (cases "exhausted k \<or> head_of s = None \<or> the (head_of s) \<in> k_preempted_now k
      \<or> can_allocate D (obj (the (head_of s)) s) (s_bm s) \<noteq> Inr True")
    case True
    then have "s' = s \<and> k' = k"
      using less.prems(4) by (auto simp: eqs hd Let_def split: if_splits option.splits)
    then show ?thesis using less.prems(2) by simp
  next
    case False
    then obtain x where h: "head_of s = Some x" and pn: "x \<notin> k_preempted_now k" and budget: "\<not> exhausted k"
      and yes: "can_allocate D (obj x s) (s_bm s) = Inr True" by auto
    obtain cached q m where a: "bm_allocate D (obj x s) (s_bm s) = Inr (cached, q, m)"
      and x: "x \<in> everyone s" "x \<notin> set (s_running s)"
      and post: "let s1 = put x q (s\<lparr>s_bm := m\<rparr>); n = num_new_tokens_to_compute (k_tokens k) q in
        (if n \<le> 0 \<or> (\<not> enable_chunked_prefill (s_config s) \<and> int n < num_uncomputed q)
         then \<exists>t m'. bm_release D q m = Inr ((obj x s)\<lparr>q_timing := t\<rparr>, m')
                \<and> kinv D T Q (put x ((obj x s)\<lparr>q_timing := t\<rparr>) (s1\<lparr>s_bm := m'\<rparr>)) k
                \<and> world s (put x ((obj x s)\<lparr>q_timing := t\<rparr>) (s1\<lparr>s_bm := m'\<rparr>))
         else \<exists>s3 k3. admit x ts n (s_preempted s \<noteq> []) cached (s1, k) = emit x n cached (s3, k3)
                \<and> admitted D T Q x ts q m n (s, k) (s3, k3))"
      using admission_ready [OF less.prems(1) h pn budget yes, of ts] by blast
    let ?s1 = "put x q (s\<lparr>s_bm := m\<rparr>)" and ?n = "num_new_tokens_to_compute (k_tokens k) q"
    show ?thesis
    proof (cases "?n \<le> 0 \<or> (\<not> enable_chunked_prefill (s_config s) \<and> int ?n < num_uncomputed q)")
      case True
      then obtain t m' where r: "bm_release D q m = Inr ((obj x s)\<lparr>q_timing := t\<rparr>, m')"
        "world s (put x ((obj x s)\<lparr>q_timing := t\<rparr>) (?s1\<lparr>s_bm := m'\<rparr>))"
        using post unfolding Let_def by auto
      have "schedule_admissions D ts (s, k) = Inr (put x ((obj x s)\<lparr>q_timing := t\<rparr>) (?s1\<lparr>s_bm := m'\<rparr>), k)"
        by (subst eqs) (use budget h pn yes a r(1) True in \<open>simp add: hd Let_def\<close>)
      then show ?thesis using release_staged [OF less.prems(1-3) x a r] less.prems(4) by simp
    next
      case False
      then obtain s3 k3 where e: "admit x ts ?n (s_preempted s \<noteq> []) cached (?s1, k) = emit x ?n cached (s3, k3)"
        and ad: "admitted D T Q x ts q m ?n (s, k) (s3, k3)"
        using post unfolding Let_def by auto
      have "schedule_admissions D ts (s, k) = rbind (emit x ?n cached (s3, k3)) (schedule_admissions D ts)"
        by (subst eqs) (use budget h pn yes a e False in \<open>auto simp: hd Let_def\<close>)
      then have "rbind (emit x ?n cached (s3, k3)) (schedule_admissions D ts) = Inr (s', k')" using less.prems(4) by simp
      then obtain s2 k2 where 2: "emit x ?n cached (s3, k3) = Inr (s2, k2)" and r: "schedule_admissions D ts (s2, k2) = Inr (s', k')"
        unfolding rbind_eq_Inr by auto
      note p = ad [unfolded admitted_def split_conv]
      have pe: "kinv D T Q s3 k3" "x \<in> set (s_running s3)" "x \<notin> k_ids k3" "can_append (obj x s3) ?n (s_bm s3)"
        "1 \<le> ?n" "int ?n \<le> k_tokens k3" "1 \<le> k_seqs k3"
        using p by (blast, fastforce, blast, blast, blast, blast, blast)
      have kv2: "kinv D T Q s2 k2" using emit_ok [OF pe, of cached] 2 by auto
      have lt: "nat (k_seqs k2) < nat (k_seqs k)"
        using admit_budget [of x ts ?n "s_preempted s \<noteq> []" cached ?s1 k] e 2 budget by (auto simp: exhausted_def)
      have "q_computed q \<le> num_tokens q"
        using adopted_seq(2) [OF less.prems(1-3) x a] by (simp add: seq_sane_def seq_wf_def)
      then have "int ?n = num_uncomputed q" if "\<not> enable_chunked_prefill (s_config s)"
        using whole_step False that by blast
      from admit_staged [OF less.prems(1-3) x a ad 2 this] have "staged D S kv s2 k2" .
      then show ?thesis using less.hyps [OF lt kv2 _ less.prems(3) r] by blast
    qed
  qed
qed

section \<open>A whole call of schedule\<close>

lemma publish_running_contents:
  assumes sc: "score D s" and c: "contents_ok D S kv s" and r: "publish_running D s = Inr s'"
  shows "contents_ok D S kv s'"
proof -
  let ?P = "\<lambda>t. score D t \<and> contents_ok D S kv t \<and> s_running t = s_running s"
  have "?P s'"
  proof (rule rfold_invariant [OF r [unfolded publish_running_def]])
    fix x t u
    assume x: "x \<in> set (s_running s)" and P: "?P t"
      and u: "rbind (publish_computed_blocks D (obj x t) (s_bm t)) (\<lambda>(_, m). Inr (t\<lparr>s_bm := m\<rparr>)) = Inr u"
    have xr: "x \<in> set (s_running t)" and sct: "score D t" using x P by auto
    note lv = running_live [OF sct xr]
    obtain n m where p: "publish_computed_blocks D (obj x t) (s_bm t) = Inr (n, m)" and ut: "u = t\<lparr>s_bm := m\<rparr>"
      using u by auto
    obtain n' m' where "publish_computed_blocks D (obj x t) (s_bm t) = Inr (n', m')"
      "core D m' (s_seqs t) (s_running t) (s_preempted t) (set (wq_items (s_waiting t)))"
      "frame (refs (s_seqs t) (remove1 x (s_running t))) x (s_bm t) m'"
      using core_publish [OF sct xr] by (auto simp: obj_def)
    then have cm: "core D m (s_seqs t) (s_running t) (s_preempted t) (set (wq_items (s_waiting t)))"
      and bs: "bm_block_size m = bsize t" using p by (auto simp: frame_def)
    have ct: "contents_ok D S kv t" using P by blast
    have "cache_holds D S kv (bsize t) (bm_cache m)"
      by (rule cache_holds_from [OF _ publish_from [OF p lv(5,2,1)] refl lv(3) _ lv(1)])
        (use ct xr lv(4) in \<open>auto simp: contents_ok_def\<close>)
    then show "?P u" using P cm bs by (simp add: ut contents_ok_def everyone_def)
  qed (use sc c in simp)
  then show ?thesis by blast
qed

definition staged_batch :: "digest \<Rightarrow> bytes set \<Rightarrow> kvstore \<Rightarrow> sched \<Rightarrow> sched_out \<Rightarrow> bool" where
  "staged_batch D S kv s out \<longleftrightarrow> cache_holds D S kv (bsize s) (bm_cache (s_bm s))
     \<and> (\<forall>x \<in> set (s_running s) - d_seq ` set (out_scheduled out). holds kv (bsize s) (obj x s) (q_computed (obj x s)))
     \<and> (\<forall>x \<in> everyone s. messages_in D S (bsize s) (obj x s) \<and> caught_up (obj x s) (q_computed (obj x s)))
     \<and> (\<forall>d \<in> set (out_scheduled out). item_staged kv s d)"

lemma schedule_staged:
  assumes inv: "sched_inv D s" and c: "contents_ok D S kv s" and dg: "digest_ok D S"
    and r: "schedule D ts s = Inr (out, s')"
  shows "staged_batch D S kv s' out"
proof -
  let ?T = "max_num_batched_tokens (s_config s)" and ?Q = "max_num_seqs (s_config s)"
  have sc: "score D s" "queue_ok s" using inv by (simp_all add: sched_inv_def)
  obtain s0 where p: "publish_running D s = Inr s0" "score D s0" "queue_ok s0" "world s s0"
      "s_running s0 = s_running s"
    using publish_running_ok [OF sc] by blast
  let ?k = "kstep_init (s_config s0)"
  have k0: "kinv D ?T ?Q s0 ?k" using p(2-4) by (simp add: kinv_def kstep_init_def world_def)
  have st0: "staged D S kv s0 ?k"
    using publish_running_contents [OF sc(1) c p(1)] by (simp add: staged_def contents_ok_def kstep_init_def)
  have d: "distinct (s_running s0)" "set (s_running s0) \<inter> k_ids ?k = {}" "set (s_running s0) \<subseteq> everyone s0"
    using p(2) by (auto simp: core_def kstep_init_def everyone_def)
  obtain s1 k1 where 1: "schedule_running D (s_running s0) (s0, ?k) = Inr (s1, k1)" "kinv D ?T ?Q s1 k1"
    using schedule_running_ok [OF k0 d] by blast
  have st1: "staged D S kv s1 k1" by (rule schedule_running_staged [OF k0 st0 d 1(1)])
  obtain s2 k2 where 2: "schedule_admissions D ts (s1, k1) = Inr (s2, k2)" "kinv D ?T ?Q s2 k2"
    using schedule_admissions_ok [OF 1(2)] by blast
  have st2: "staged D S kv s2 k2" by (rule schedule_admissions_staged [OF 1(2) st1 dg 2(1)])
  have "schedule D ts s = Inr (step_out k2, count_step k2 s2)"
    using p(1) 1(1) 2(1) by (simp add: schedule_def Let_def step_out_def count_step_def)
  then have eq: "out = step_out k2" "s' = count_step k2 s2" using r by auto
  have "k_ids k2 = d_seq ` set (items k2)" using 2(2) by (simp add: kinv_def)
  then show ?thesis using st2 by (simp add: eq staged_def staged_batch_def step_out_def item_staged_def)
qed

end
