(* ===== verification/Paged_Step.thy ===== *)
theory Paged_Step
  imports Step_Contents
begin

text \<open>
  What \<open>execute\<close> does to the pool: after it, the slots of every running sequence hold the entries
  of a dense cache of its own tokens again, the prefix cache is untouched, and each sampled
  token is the one a dense cache would have given.
\<close>

section \<open>One item\<close>

definition filled :: "kvstore \<Rightarrow> nat \<Rightarrow> nat list \<Rightarrow> int \<Rightarrow> int list \<Rightarrow> nat \<Rightarrow> bool" where
  "filled kv bs t l ts n \<longleftrightarrow> (\<forall>p < n. kv (slot_at bs t p) = kv_prefix l ts ! p)"

text \<open>What a scheduled item offers the forward pass.\<close>

definition item_reads :: "nat \<Rightarrow> int \<Rightarrow> int list \<Rightarrow> ssched \<Rightarrow> bool" where
  "item_reads bs l ts d \<longleftrightarrow> item_fits bs d \<and> d_context_len d \<le> length ts
     \<and> d_slots d = map (slot_at bs (d_block_table d)) [item_start d..<d_context_len d]
     \<and> d_token_ids d = take (d_num_new d) (drop (item_start d) ts)
     \<and> (\<forall>p < d_context_len d. \<forall>p' < d_context_len d. item_start d \<le> p' \<longrightarrow>
          slot_at bs (d_block_table d) p = slot_at bs (d_block_table d) p' \<longrightarrow> p = p')"

lemma item_row_fills:
  assumes bs: "0 < bs" and r: "item_reads bs (lora (d_seq d)) ts d" and j: "j < d_num_new d"
    and f: "filled kv bs (d_block_table d) (lora (d_seq d)) ts (item_start d + j)"
  shows "filled (item_row bs lora d j kv) bs (d_block_table d) (lora (d_seq d)) ts (item_start d + Suc j)"
    "slot \<notin> set (d_slots d) \<Longrightarrow> item_row bs lora d j kv slot = kv slot"
proof -
  let ?l = "lora (d_seq d)" and ?t = "d_block_table d" and ?p = "item_start d + j"
  have fit: "item_fits bs d" and ctx: "d_context_len d \<le> length ts" using r by (auto simp: item_reads_def)
  have pc: "?p < d_context_len d" using item_row_bound [OF fit j] .
  have len: "length (d_slots d) = d_num_new d" using fit by (simp add: item_fits_def)
  have sl: "d_slots d ! j = slot_at bs ?t ?p"
    using r pc by (auto simp: item_reads_def)
  have tok: "d_token_ids d ! j = ts ! ?p" using r j pc ctx by (auto simp: item_reads_def)
  have "map (\<lambda>k. kv (slot_at bs (item_blocks bs d) k)) [0..<?p] = kv_prefix ?l (take ?p ts)"
  proof (rule nth_equalityI)
    show "length (map (\<lambda>k. kv (slot_at bs (item_blocks bs d) k)) [0..<?p]) = length (kv_prefix ?l (take ?p ts))"
      using pc ctx by simp
    fix i assume "i < length (map (\<lambda>k. kv (slot_at bs (item_blocks bs d) k)) [0..<?p])"
    then have i: "i < ?p" by simp
    then have "slot_at bs (item_blocks bs d) i = slot_at bs ?t i" using item_blocks_slot [OF bs fit] pc by simp
    then show "map (\<lambda>k. kv (slot_at bs (item_blocks bs d) k)) [0..<?p] ! i = kv_prefix ?l (take ?p ts) ! i"
      using i f kv_prefix_nth_take [of i ?p ?l ts] by (simp add: filled_def)
  qed
  then have val: "item_row bs lora d j kv = kv(slot_at bs ?t ?p := kv_prefix ?l ts ! ?p)"
    using kv_prefix_nth [of ?p ts ?l] pc ctx by (simp add: item_row_def sl tok)
  show "filled (item_row bs lora d j kv) bs ?t ?l ts (item_start d + Suc j)"
    unfolding filled_def val
  proof (intro allI impI)
    fix p assume p: "p < item_start d + Suc j"
    show "(kv(slot_at bs ?t ?p := kv_prefix ?l ts ! ?p)) (slot_at bs ?t p) = kv_prefix ?l ts ! p"
    proof (cases "p = ?p")
      case False
      then have "p < ?p" using p by simp
      moreover have "slot_at bs ?t p \<noteq> slot_at bs ?t ?p"
        using r pc \<open>p < ?p\<close> unfolding item_reads_def by (metis le_add1 order_less_trans nat_neq_iff)
      ultimately show ?thesis using f by (simp add: filled_def)
    qed simp
  qed
  have "slot_at bs ?t ?p \<in> set (d_slots d)" using sl len j nth_mem by metis
  then show "item_row bs lora d j kv slot = kv slot" if "slot \<notin> set (d_slots d)"
    using that by (auto simp: val)
qed

lemma item_rows_fill:
  assumes bs: "0 < bs" and r: "item_reads bs (lora (d_seq d)) ts d"
    and f: "filled kv bs (d_block_table d) (lora (d_seq d)) ts (item_start d)"
  shows "n \<le> d_num_new d \<Longrightarrow>
     filled (fold (item_row bs lora d) [0..<n] kv) bs (d_block_table d) (lora (d_seq d)) ts (item_start d + n)
     \<and> (\<forall>slot. slot \<notin> set (d_slots d) \<longrightarrow> fold (item_row bs lora d) [0..<n] kv slot = kv slot)"
proof (induction n)
  case 0
  then show ?case using f by simp
next
  case (Suc n)
  then show ?case using item_row_fills [where d = d and ts = ts and lora = lora and j = n and kv = "fold (item_row bs lora d) [0..<n] kv", OF bs r]
    by simp
qed

lemma item_forward_fills:
  assumes bs: "0 < bs" and r: "item_reads bs (lora (d_seq d)) ts d"
    and f: "filled kv bs (d_block_table d) (lora (d_seq d)) ts (item_start d)"
  shows "filled (item_forward bs lora d kv) bs (d_block_table d) (lora (d_seq d)) ts (d_context_len d)"
    "slot \<notin> set (d_slots d) \<Longrightarrow> item_forward bs lora d kv slot = kv slot"
proof -
  have "item_start d + d_num_new d = d_context_len d"
    using r by (simp add: item_reads_def item_fits_def item_start_def)
  then show "filled (item_forward bs lora d kv) bs (d_block_table d) (lora (d_seq d)) ts (d_context_len d)"
    "slot \<notin> set (d_slots d) \<Longrightarrow> item_forward bs lora d kv slot = kv slot"
    using item_rows_fill [where d = d and ts = ts and n = "d_num_new d" and kv = kv and bs = bs and lora = lora] assms
    by (simp_all add: item_forward_def)
qed

section \<open>The batch\<close>

lemma batch_fills:
  assumes bs: "0 < bs"
  shows "(\<And>d. d \<in> set ds \<Longrightarrow> item_reads bs (lora (d_seq d)) (ts (d_seq d)) d) \<Longrightarrow>
    (\<And>d. d \<in> set ds \<Longrightarrow> filled kv bs (d_block_table d) (lora (d_seq d)) (ts (d_seq d)) (item_start d)) \<Longrightarrow>
    distinct (map d_seq ds) \<Longrightarrow>
    (\<And>d e p. d \<in> set ds \<Longrightarrow> e \<in> set ds \<Longrightarrow> d_seq d \<noteq> d_seq e \<Longrightarrow> p < d_context_len d \<Longrightarrow>
       slot_at bs (d_block_table d) p \<notin> set (d_slots e)) \<Longrightarrow>
    (\<forall>d \<in> set ds. filled (fold (item_forward bs lora) ds kv) bs (d_block_table d) (lora (d_seq d)) (ts (d_seq d)) (d_context_len d))
    \<and> (\<forall>slot. (\<forall>d \<in> set ds. slot \<notin> set (d_slots d)) \<longrightarrow> fold (item_forward bs lora) ds kv slot = kv slot)"
proof (induction ds arbitrary: kv)
  case Nil
  then show ?case by simp
next
  case (Cons d ds)
  let ?kv = "item_forward bs lora d kv"
  have rd: "item_reads bs (lora (d_seq d)) (ts (d_seq d)) d" using Cons.prems(1) by simp
  have fd: "filled kv bs (d_block_table d) (lora (d_seq d)) (ts (d_seq d)) (item_start d)" using Cons.prems(2) by simp
  note me = item_forward_fills [where d = d and lora = lora and kv = kv, OF bs rd fd]
  have ne: "d_seq e \<noteq> d_seq d" if "e \<in> set ds" for e
    using Cons.prems(3) that by (metis distinct.simps(2) image_eqI list.set_map list.simps(9))
  have fe: "filled ?kv bs (d_block_table e) (lora (d_seq e)) (ts (d_seq e)) (item_start e)" if e: "e \<in> set ds" for e
    unfolding filled_def
  proof (intro allI impI)
    fix p assume p: "p < item_start e"
    have "item_start e \<le> d_context_len e" by (simp add: item_start_def)
    then have "slot_at bs (d_block_table e) p \<notin> set (d_slots d)"
      using Cons.prems(4) [of e d p] ne [OF e] e p by simp
    then show "?kv (slot_at bs (d_block_table e) p) = kv_prefix (lora (d_seq e)) (ts (d_seq e)) ! p"
      using me(2) Cons.prems(2) [of e] e p by (simp add: filled_def)
  qed
  have IH: "(\<forall>e \<in> set ds. filled (fold (item_forward bs lora) ds ?kv) bs (d_block_table e) (lora (d_seq e)) (ts (d_seq e)) (d_context_len e))
    \<and> (\<forall>slot. (\<forall>e \<in> set ds. slot \<notin> set (d_slots e)) \<longrightarrow> fold (item_forward bs lora) ds ?kv slot = ?kv slot)"
    using Cons.prems fe by (intro Cons.IH) auto
  have "filled (fold (item_forward bs lora) ds ?kv) bs (d_block_table d) (lora (d_seq d)) (ts (d_seq d)) (d_context_len d)"
    unfolding filled_def
  proof (intro allI impI)
    fix p assume p: "p < d_context_len d"
    have "\<forall>e \<in> set ds. slot_at bs (d_block_table d) p \<notin> set (d_slots e)"
      using Cons.prems(4) [of d] ne p by (metis list.set_intros)
    then show "fold (item_forward bs lora) ds ?kv (slot_at bs (d_block_table d) p) = kv_prefix (lora (d_seq d)) (ts (d_seq d)) ! p"
      using IH me(1) p by (simp add: filled_def)
  qed
  then show ?case using IH me(2) by simp
qed

section \<open>Who reads what is written\<close>

lemma running_slot_private:
  assumes inv: "sched_inv D s" and b: "batch_ok s out" and e: "e \<in> set (out_scheduled out)"
    and y: "y \<in> set (s_running s)" "y \<noteq> d_seq e" and p: "p div bsize s < length (q_table (obj y s))"
  shows "slot_at (bsize s) (q_table (obj y s)) p \<notin> set (d_slots e)"
proof
  assume "slot_at (bsize s) (q_table (obj y s)) p \<in> set (d_slots e)"
  note ei = batch_item [OF inv b e]
  let ?R = "s_running s" and ?S = "s_seqs s"
  obtain p' where p': "p' \<in> set [item_start e..<d_context_len e]"
    and eq: "slot_at (bsize s) (d_block_table e) p' = slot_at (bsize s) (q_table (obj y s)) p"
    using \<open>slot_at (bsize s) (q_table (obj y s)) p \<in> set (d_slots e)\<close> unfolding item_slots [OF ei(1)] by auto
  have "y \<in> set (remove1 (d_seq e) ?R)" using y by simp
  then have "refs ?S (remove1 (d_seq e) ?R) = refs ?S (remove1 y (remove1 (d_seq e) ?R)) + mset (q_table (obj y s))"
    using refs_split by (metis obj_def)
  then have "refs ?S ?R = refs ?S (remove1 y (remove1 (d_seq e) ?R)) + mset (q_table (obj (d_seq e) s)) + mset (q_table (obj y s))"
    using ei(3,4) by simp
  then have inv2: "bm_inv (refs ?S (remove1 y (remove1 (d_seq e) ?R)) + mset (q_table (obj (d_seq e) s)) + mset (q_table (obj y s))) (s_bm s)"
    using ei(5) by simp
  note ip = item_position [OF ei(1,6) p']
  show False
    using written_slot_private [OF inv2, of p' p] ip p eq unfolding ei(3) by simp
qed

lemma cached_slot_private:
  assumes inv: "sched_inv D s" and b: "batch_ok s out" and e: "e \<in> set (out_scheduled out)"
    and c: "c_by_block (bm_cache (s_bm s)) bl \<noteq> None" and r: "r < bsize s"
  shows "bl * bsize s + r \<notin> set (d_slots e)"
proof
  assume "bl * bsize s + r \<in> set (d_slots e)"
  note ei = batch_item [OF inv b e]
  obtain p where p: "p \<in> set [item_start e..<d_context_len e]"
    and eq: "slot_at (bsize s) (d_block_table e) p = bl * bsize s + r"
    using \<open>bl * bsize s + r \<in> set (d_slots e)\<close> unfolding item_slots [OF ei(1)] by auto
  have "slot_at (bsize s) (d_block_table e) p = slot_at (bsize s) [bl] r" using eq r by (simp add: slot_at_def)
  from slot_at_inj(1) [OF ei(6) this] have "d_block_table e ! (p div bsize s) = bl" using r by simp
  then show False using item_position(2) [OF ei(1,6) p] c by simp
qed

lemma staged_item_reads:
  assumes inv: "sched_inv D s" and b: "batch_ok s out" and d: "d \<in> set (out_scheduled out)"
  shows "item_reads (bsize s) (q_lora (obj (d_seq d) s)) (token_ids (obj (d_seq d) s)) d"
proof -
  note di = batch_item [OF inv b d] and il = item_lengths [OF batch_item(1) [OF inv b d]]
  let ?t = "d_block_table d"
  have i: "d_num_new d \<le> d_context_len d" "d_context_len d \<le> length ?t * bsize s"
    "d_context_len d \<le> num_tokens (obj (d_seq d) s)"
    "d_token_ids d = take (d_num_new d) (drop (item_start d) (token_ids (obj (d_seq d) s)))"
    using di(1) unfolding item_ok_def Let_def obj_def by auto
  have inv': "bm_inv (refs (s_seqs s) (remove1 (d_seq d) (s_running s)) + mset (q_table (obj (d_seq d) s))) (s_bm s)"
    using di(5) unfolding di(4) di(3) .
  have "p = p'" if p: "p < d_context_len d" "p' < d_context_len d" "item_start d \<le> p'"
    and eq: "slot_at (bsize s) ?t p = slot_at (bsize s) ?t p'" for p p'
  proof -
    have "p' \<in> set [item_start d..<d_context_len d]" using p by simp
    note ip = item_position [OF di(1,6) this]
    have l: "p div bsize s < length ?t"
      using p(1) i(2) by (meson less_mult_imp_div_less order_less_le_trans)
    have "p div bsize s = p' div bsize s"
      using uncached_elsewhere(2) [OF inv' ip(1) [unfolded di(3)] ip(2) [unfolded di(3)] l [unfolded di(3)]]
        slot_at_inj(1) [OF di(6) eq, unfolded di(3)] by blast
    then show ?thesis using slot_at_inj(2) [OF di(6) eq] by (metis div_mult_mod_eq)
  qed
  then show ?thesis
    unfolding item_reads_def item_fits_def using i il item_slots [OF di(1)] by (simp add: num_tokens_token_ids)
qed

section \<open>The whole step\<close>

text \<open>The token a dense cache gives after the first \<open>n\<close> tokens of a request.\<close>

definition dense_token :: "next_token \<Rightarrow> seqn \<Rightarrow> nat \<Rightarrow> int" where
  "dense_token M q n = M (q_sampling q) (token_history q) (kv_prefix (q_lora q) (take n (token_ids q)))"

lemma forward_fills:
  fixes kv :: kvstore
  assumes inv: "sched_inv D s" and b: "batch_ok s out" and ne: "out_scheduled out \<noteq> []"
  defines "lora \<equiv> (\<lambda>x. q_lora (obj x s))"
  defines "ts \<equiv> (\<lambda>x. token_ids (obj x s))"
  defines "kv' \<equiv> fold (item_forward (bsize s) lora) (out_scheduled out) kv"
  assumes pre: "\<forall>d \<in> set (out_scheduled out).
      filled kv (bsize s) (d_block_table d) (lora (d_seq d)) (ts (d_seq d)) (item_start d)"
  shows "d \<in> set (out_scheduled out) \<Longrightarrow>
      filled kv' (bsize s) (d_block_table d) (lora (d_seq d)) (ts (d_seq d)) (d_context_len d)"
    "c_by_block (bm_cache (s_bm s)) bl \<noteq> None \<Longrightarrow> r < bsize s \<Longrightarrow> kv' (bl * bsize s + r) = kv (bl * bsize s + r)"
    "y \<in> set (s_running s) \<Longrightarrow> y \<notin> d_seq ` set (out_scheduled out) \<Longrightarrow> p div bsize s < length (q_table (obj y s)) \<Longrightarrow>
      kv' (slot_at (bsize s) (q_table (obj y s)) p) = kv (slot_at (bsize s) (q_table (obj y s)) p)"
    "d \<in> set (out_scheduled out) \<Longrightarrow> j < d_num_new d \<Longrightarrow>
      item_context (bsize s) kv' d j = kv_prefix (lora (d_seq d)) (take (item_start d + j + 1) (ts (d_seq d)))"
proof -
  let ?ds = "out_scheduled out" and ?bs = "bsize s"
  obtain d0 where "d0 \<in> set ?ds" using ne by (cases ?ds) auto
  then have bs: "0 < ?bs" using batch_item(6) [OF inv b] by blast
  have tbl: "d_block_table d = q_table (obj (d_seq d) s)" if "d \<in> set ?ds" for d by (rule batch_item(3) [OF inv b that])
  have reads: "item_reads ?bs (lora (d_seq d)) (ts (d_seq d)) d" if "d \<in> set ?ds" for d
    using staged_item_reads [OF inv b that] by (simp add: lora_def ts_def)
  have dist: "distinct (map d_seq ?ds)" using b by (simp add: batch_ok_def)
  have apart: "slot_at ?bs (d_block_table d) p \<notin> set (d_slots e)"
    if "d \<in> set ?ds" "e \<in> set ?ds" "d_seq d \<noteq> d_seq e" "p < d_context_len d" for d e p
  proof -
    have "p < length (d_block_table d) * ?bs" using reads [OF that(1)] that(4) by (simp add: item_reads_def item_fits_def)
    then show ?thesis
      using running_slot_private [OF inv b that(2) batch_item(2) [OF inv b that(1)] that(3), of p] tbl [OF that(1)]
      by (simp add: less_mult_imp_div_less)
  qed
  have fills: "(\<forall>d \<in> set ?ds. filled kv' ?bs (d_block_table d) (lora (d_seq d)) (ts (d_seq d)) (d_context_len d))
    \<and> (\<forall>slot. (\<forall>d \<in> set ?ds. slot \<notin> set (d_slots d)) \<longrightarrow> kv' slot = kv slot)"
    unfolding kv'_def by (rule batch_fills [OF bs reads _ dist apart]) (use pre in blast)+
  then show "d \<in> set ?ds \<Longrightarrow> filled kv' ?bs (d_block_table d) (lora (d_seq d)) (ts (d_seq d)) (d_context_len d)" by blast
  show "kv' (bl * ?bs + r) = kv (bl * ?bs + r)" if "c_by_block (bm_cache (s_bm s)) bl \<noteq> None" "r < ?bs"
    using fills cached_slot_private [OF inv b _ that] by simp
  show "kv' (slot_at ?bs (q_table (obj y s)) p) = kv (slot_at ?bs (q_table (obj y s)) p)"
    if y: "y \<in> set (s_running s)" "y \<notin> d_seq ` set ?ds" "p div ?bs < length (q_table (obj y s))"
  proof -
    have "y \<noteq> d_seq e" if "e \<in> set ?ds" for e using y(2) that by blast
    then show ?thesis using fills running_slot_private [OF inv b _ y(1) _ y(3)] by simp
  qed
  show "item_context ?bs kv' d j = kv_prefix (lora (d_seq d)) (take (item_start d + j + 1) (ts (d_seq d)))"
    if d: "d \<in> set ?ds" and j: "j < d_num_new d"
  proof -
    have fit: "item_fits ?bs d" and ctx: "d_context_len d \<le> length (ts (d_seq d))"
      using reads [OF d] by (simp_all add: item_reads_def)
    have n: "item_start d + j + 1 \<le> d_context_len d"
      using item_facts(2) [OF batch_item(1) [OF inv b d]] j by (simp add: item_start_def)
    show ?thesis
      unfolding item_context_def
    proof (rule nth_equalityI)
      fix k assume "k < length (map (\<lambda>k. kv' (slot_at ?bs (item_blocks ?bs d) k)) [0..<item_start d + j + 1])"
      then have k: "k < item_start d + j + 1" "k < d_context_len d" using n by simp_all
      then show "map (\<lambda>k. kv' (slot_at ?bs (item_blocks ?bs d) k)) [0..<item_start d + j + 1] ! k
          = kv_prefix (lora (d_seq d)) (take (item_start d + j + 1) (ts (d_seq d))) ! k"
        using fills d item_blocks_slot [OF bs fit k(2)] kv_prefix_nth_take [OF k(1), of "lora (d_seq d)" "ts (d_seq d)"]
        by (simp add: filled_def del: upt_Suc)
    qed (use ctx n in simp)
  qed
qed

text \<open>Cached blocks that nobody wrote still hold what they held, also when some were evicted.\<close>

lemma cache_holds_unwritten:
  assumes "cache_holds D S kv bs c" and "c_by_block c' \<subseteq>\<^sub>m c_by_block c"
    and "\<And>bl r. c_by_block c' bl \<noteq> None \<Longrightarrow> r < bs \<Longrightarrow> kv' (bl * bs + r) = kv (bl * bs + r)"
  shows "cache_holds D S kv' bs c'"
  unfolding cache_holds_def
proof (intro allI impI)
  fix bl e assume e: "c_by_block c' bl = Some e"
  then have "c_by_block c bl = Some e" using assms(2) by (metis domI map_le_def)
  then show "\<exists>l ts i. encodable l ts \<and> Suc i * bs \<le> length ts \<and> chain_messages D bs l ts (Suc i) \<subseteq> S
      \<and> e_hash e = prefix_hash D bs l ts (Suc i) \<and> (\<forall>r < bs. kv' (bl * bs + r) = kv_prefix l ts ! (i * bs + r))"
    using assms(1,3) e unfolding cache_holds_def by (metis option.distinct(1))
qed

lemma holds_unwritten:
  assumes "holds kv bs q n"
    and "\<And>p. p div bs < length (q_table q) \<Longrightarrow> kv' (slot_at bs (q_table q) p) = kv (slot_at bs (q_table q) p)"
  shows "holds kv' bs q n"
proof -
  have "p div bs < length (q_table q)" if "p < n" for p
    using assms(1) that by (meson holds_def less_mult_imp_div_less order_less_le_trans)
  then show ?thesis using assms by (simp add: holds_def)
qed

lemma forward_contents:
  assumes inv: "sched_inv D s" and b: "batch_ok s out" and st: "staged_batch D S kv s out"
  defines "lora \<equiv> (\<lambda>x. q_lora (obj x s))"
  defines "kv' \<equiv> fold (item_forward (bsize s) lora) (out_scheduled out) kv"
  assumes ne: "out_scheduled out \<noteq> []"
  shows "contents_ok D S kv' s"
    "d \<in> set (out_scheduled out) \<Longrightarrow> item_context (bsize s) kv' d (d_num_new d - 1)
       = kv_prefix (q_lora (obj (d_seq d) s)) (take (d_context_len d) (token_ids (obj (d_seq d) s)))"
proof -
  let ?ds = "out_scheduled out" and ?bs = "bsize s"
  have tbl: "d_block_table d = q_table (obj (d_seq d) s)" if "d \<in> set ?ds" for d by (rule batch_item(3) [OF inv b that])
  have "\<forall>d \<in> set ?ds. filled kv ?bs (d_block_table d) (q_lora (obj (d_seq d) s)) (token_ids (obj (d_seq d) s)) (item_start d)"
  proof
    fix d assume d: "d \<in> set ?ds"
    have "holds kv ?bs (obj (d_seq d) s) (item_start d)" using st d by (simp add: staged_batch_def item_staged_def)
    then show "filled kv ?bs (d_block_table d) (q_lora (obj (d_seq d) s)) (token_ids (obj (d_seq d) s)) (item_start d)"
      using tbl [OF d] by (simp add: holds_def filled_def)
  qed
  note ff = forward_fills [OF inv b ne this, folded lora_def, folded kv'_def]
  show "contents_ok D S kv' s"
    unfolding contents_ok_def
  proof (intro conjI ballI)
    show "cache_holds D S kv' ?bs (bm_cache (s_bm s))"
      by (rule cache_holds_unwritten [of _ _ kv _ "bm_cache (s_bm s)", OF _ map_le_refl])
        (use st ff(2) in \<open>simp_all add: staged_batch_def\<close>)
  next
    fix x assume x: "x \<in> set (s_running s)"
    show "holds kv' ?bs (obj x s) (q_computed (obj x s))"
    proof (cases "x \<in> d_seq ` set ?ds")
      case True
      then obtain d where d: "d \<in> set ?ds" "d_seq d = x" by blast
      note i = staged_item_reads [OF inv b d(1)]
      have "d_context_len d = q_computed (obj x s)" using item_facts(3) [OF batch_item(1) [OF inv b d(1)]] d(2) by (simp add: obj_def)
      then show ?thesis
        using ff(1) [OF d(1)] d i tbl [OF d(1)]
        by (auto simp: holds_def filled_def item_reads_def item_fits_def lora_def num_tokens_token_ids)
    next
      case False
      then have "holds kv ?bs (obj x s) (q_computed (obj x s))" using st x by (simp add: staged_batch_def)
      then show ?thesis using ff(3) [OF x False] by (rule holds_unwritten)
    qed
  qed (use st in \<open>simp_all add: staged_batch_def\<close>)
  show "item_context ?bs kv' d (d_num_new d - 1) = kv_prefix (q_lora (obj (d_seq d) s)) (take (d_context_len d) (token_ids (obj (d_seq d) s)))"
    if d: "d \<in> set ?ds"
  proof -
    note f = item_facts(1,2) [OF batch_item(1) [OF inv b d]]
    then have "item_start d + (d_num_new d - 1) + 1 = d_context_len d" by (simp add: item_start_def)
    then show ?thesis using ff(4) [OF d, of "d_num_new d - 1"] f(1) by (simp add: lora_def)
  qed
qed

text \<open>The sampled rows are the last rows of the sampling items.\<close>

lemma sampled_rows:
  "(\<And>d. d \<in> set ds \<Longrightarrow> 1 \<le> d_num_new d) \<Longrightarrow> length pre = off \<Longrightarrow>
   map ((!) (pre @ concat (map (\<lambda>d. map (f d) [0..<d_num_new d]) ds))) (sample_loop ds off)
     = map (\<lambda>d. f d (d_num_new d - 1)) (filter samples_token ds)"
proof (induction ds arbitrary: pre off)
  case Nil
  then show ?case by simp
next
  case (Cons d ds)
  let ?rows = "map (f d) [0..<d_num_new d]"
  have n: "1 \<le> d_num_new d" using Cons.prems(1) by simp
  have "map ((!) ((pre @ ?rows) @ concat (map (\<lambda>d. map (f d) [0..<d_num_new d]) ds))) (sample_loop ds (off + d_num_new d))
      = map (\<lambda>d. f d (d_num_new d - 1)) (filter samples_token ds)"
    using Cons.prems by (intro Cons.IH) auto
  moreover have "(pre @ ?rows @ xs) ! (off + d_num_new d - 1) = f d (d_num_new d - 1)" for xs
  proof -
    have "off + d_num_new d - 1 = length pre + (d_num_new d - 1)" using n Cons.prems(2) by simp
    moreover have "d_num_new d - 1 < d_num_new d" using n by simp
    ultimately show ?thesis by (simp only: nth_append_length_plus) (simp add: nth_append)
  qed
  ultimately show ?case by (simp add: Let_def)
qed

text \<open>Packing the batch and running it never raises.\<close>

lemma batch_runs:
  fixes kv :: kvstore
  assumes inv: "sched_inv D s" and b: "batch_ok s out" and nil: "out_scheduled out \<noteq> []"
  defines "lora \<equiv> (\<lambda>x. q_lora (obj x s))"
  defines "kv' \<equiv> fold (item_forward (bsize s) lora) (out_scheduled out) kv"
  shows "\<exists>b'. build_batch (bsize s) lora out = Inr b' \<and> b_samples b' = sample_indices out
     \<and> forward (bsize s) b' kv
       = Inr (concat (map (\<lambda>d. map (item_context (bsize s) kv' d) [0..<d_num_new d]) (out_scheduled out)), kv')"
proof -
  let ?ds = "out_scheduled out" and ?bs = "bsize s"
  have cfg: "cfg_block_size (s_config s) = ?bs" using inv by (simp add: sched_inv_def)
  obtain d0 where "d0 \<in> set ?ds" using nil by (cases ?ds) auto
  then have bs: "0 < ?bs" using batch_item(6) [OF inv b] by blast
  have fits: "item_fits ?bs d" if "d \<in> set ?ds" for d using staged_item_reads [OF inv b that] by (simp add: item_reads_def)
  obtain meta where m: "build_attn_metadata (int ?bs) None out = Inr meta"
    using batch_metadata_valid [OF inv b nil, of None] cfg by auto
  let ?b = "\<lparr>b_ids = input_token_ids out, b_positions = out_positions out, b_meta = meta,
          b_samples = sample_indices out, b_lora = step_lora lora out\<rparr>"
  have bb: "build_batch ?bs lora out = Inr ?b" using m nil by (simp add: build_batch_def out_is_empty_def)
  have "forward ?bs ?b kv = Inr (concat (map (\<lambda>d. map (item_context ?bs kv' d) [0..<d_num_new d]) ?ds), kv')"
    unfolding kv'_def by (rule forward_items [OF bs fits bb])
  then show ?thesis using bb by auto
qed

lemma execute_ok:
  assumes inv: "sched_inv D s" and b: "batch_ok s out" and st: "staged_batch D S kv s out" and ne: "\<not> out_is_empty out"
  shows "\<exists>kv'. execute M (cfg_block_size (s_config s)) s out kv
      = Inr (\<lparr>so_items = sampled out, so_tokens = map (\<lambda>d. dense_token M (obj (d_seq d) s) (d_context_len d)) (sampled out)\<rparr>, kv')
    \<and> contents_ok D S kv' s"
proof -
  let ?ds = "out_scheduled out" and ?bs = "bsize s" and ?lora = "\<lambda>x. q_lora (obj x s)"
  let ?kv = "fold (item_forward ?bs ?lora) ?ds kv"
  have nil: "?ds \<noteq> []" using ne by (simp add: out_is_empty_def)
  have cfg: "cfg_block_size (s_config s) = ?bs" using inv by (simp add: sched_inv_def)
  have one: "1 \<le> d_num_new d" if "d \<in> set ?ds" for d using item_facts(1) [OF batch_item(1) [OF inv b that]] .
  let ?rows = "concat (map (\<lambda>d. map (item_context ?bs ?kv d) [0..<d_num_new d]) ?ds)"
  obtain b' where bb: "build_batch ?bs ?lora out = Inr b'" "b_samples b' = sample_indices out"
    and fw: "forward ?bs b' kv = Inr (?rows, ?kv)"
    using batch_runs [OF inv b nil] by blast
  note fc = forward_contents [OF inv b st nil]
  have "map ((!) ?rows) (sample_indices out) = map (\<lambda>d. item_context ?bs ?kv d (d_num_new d - 1)) (sampled out)"
    using sampled_rows [of ?ds "[]" 0 "item_context ?bs ?kv"] one by (simp add: sample_indices_def sampled_def)
  also have "\<dots> = map (\<lambda>d. kv_prefix (?lora (d_seq d)) (take (d_context_len d) (token_ids (obj (d_seq d) s)))) (sampled out)"
    using fc(2) by (intro map_cong refl) (simp add: sampled_def)
  finally have rows: "map ((!) ?rows) (sample_indices out)
      = map (\<lambda>d. kv_prefix (?lora (d_seq d)) (take (d_context_len d) (token_ids (obj (d_seq d) s)))) (sampled out)" .
  have "sample_sequences M (map ((!) ?rows) (sample_indices out)) (map (\<lambda>d. obj (d_seq d) s) (sampled out))
      = Inr (map (\<lambda>d. dense_token M (obj (d_seq d) s) (d_context_len d)) (sampled out))"
    unfolding rows sample_sequences_def by (simp add: zip_map_map zip_same_conv_map dense_token_def o_def)
  then have "execute M ?bs s out kv
      = Inr (\<lparr>so_items = sampled out, so_tokens = map (\<lambda>d. dense_token M (obj (d_seq d) s) (d_context_len d)) (sampled out)\<rparr>, ?kv)"
    unfolding execute_def bb(1) rbind.simps fw split_conv Let_def
    by (cases "sampled out = []") (simp_all add: make_step_output_def bb(2))
  then show ?thesis using fc(1) cfg by auto
qed

end
