(* ===== verification/Streaming.thy ===== *)
theory Streaming
  imports Prelude "HOL-Library.Sublist"
begin

text \<open>
  Streamed text, \<open>src/turboserve/engine/runtime/streaming.py\<close>: the incremental detokenizer,
  the stop-string matcher and the decoder that chains them.

  A text is the list of its code points. The tokenizer's \<open>decode\<close> is third-party code and a
  parameter; \<open>boundary_stable\<close> states what the detokenizer's window relies on.
\<close>

section \<open>The incremental detokenizer\<close>

definition replacement_char :: nat where "replacement_char = 65533"

definition window_tokens :: nat where "window_tokens = 8"

record detok =
  dt_tokens :: "int list"
  dt_prefix :: nat
  dt_read :: nat
  dt_text :: utext

definition detok_init :: "int list \<Rightarrow> detok" where
  "detok_init initial = \<lparr>dt_tokens = initial, dt_prefix = length initial - window_tokens,
     dt_read = length initial, dt_text = []\<rparr>"

text \<open>The Python slice \<open>xs[a:b]\<close> for non-negative bounds.\<close>

definition py_slice :: "nat \<Rightarrow> nat \<Rightarrow> 'a list \<Rightarrow> 'a list" where
  "py_slice a b xs = take (b - a) (drop a xs)"

definition ends_broken :: "utext \<Rightarrow> bool" where
  "ends_broken t \<longleftrightarrow> t \<noteq> [] \<and> last t = replacement_char"

definition detok_append :: "(int list \<Rightarrow> utext) \<Rightarrow> int list \<Rightarrow> detok \<Rightarrow> utext \<times> detok" where
  "detok_append decode new d =
     (if new = [] then ([], d)
      else let toks = dt_tokens d @ new;
               prefix_text = decode (py_slice (dt_prefix d) (dt_read d) toks);
               window_text = decode (drop (dt_prefix d) toks)
           in if ends_broken window_text then ([], d\<lparr>dt_tokens := toks\<rparr>)
              else let delta = (if prefix prefix_text window_text then drop (length prefix_text) window_text
                                else let full = decode toks in
                                  if prefix (dt_text d) full then drop (length (dt_text d)) full else full);
                       p = dt_read d;
                       p' = (if window_tokens < length toks - p then length toks - window_tokens else p)
                   in (delta, d\<lparr>dt_tokens := toks, dt_prefix := p', dt_read := length toks,
                         dt_text := dt_text d @ delta\<rparr>))"

definition detok_flush :: "(int list \<Rightarrow> utext) \<Rightarrow> detok \<Rightarrow> utext \<times> detok" where
  "detok_flush decode d =
     (if length (dt_tokens d) \<le> dt_read d then ([], d)
      else let toks = dt_tokens d;
               window_text = decode (drop (dt_prefix d) toks);
               prefix_text = decode (py_slice (dt_prefix d) (dt_read d) toks);
               delta = (if prefix prefix_text window_text then drop (length prefix_text) window_text else [])
           in (delta, d\<lparr>dt_prefix := dt_read d, dt_read := length toks, dt_text := dt_text d @ delta\<rparr>))"

text \<open>
  What is asked of the tokenizer: text that does not end in the middle of a character is
  final, whatever tokens follow, and whether eight tokens end in the middle of a character
  does not depend on what came before them.
\<close>

definition boundary_stable :: "(int list \<Rightarrow> utext) \<Rightarrow> bool" where
  "boundary_stable decode \<longleftrightarrow> decode [] = []
     \<and> (\<forall>xs ys. \<not> ends_broken (decode xs) \<longrightarrow> decode (xs @ ys) = decode xs @ decode ys)
     \<and> (\<forall>xs ys. \<not> ends_broken (decode (xs @ ys)) \<longrightarrow> length ys = window_tokens \<longrightarrow> \<not> ends_broken (decode ys))"

lemma ends_broken_code [code]: "ends_broken t \<longleftrightarrow> t \<noteq> [] \<and> int (last t) = 65533"
  by (auto simp: ends_broken_def replacement_char_def)

lemma ends_broken_simps [simp]:
  "\<not> ends_broken []" "ends_broken (xs @ [c]) \<longleftrightarrow> c = replacement_char"
  by (simp_all add: ends_broken_def)

lemma ends_broken_append: "ends_broken (xs @ ys) \<longleftrightarrow> (if ys = [] then ends_broken xs else ends_broken ys)"
  by (auto simp: ends_broken_def)

lemma py_slice_append [simp]: "b \<le> length xs \<Longrightarrow> py_slice a b (xs @ ys) = py_slice a b xs"
  by (cases "a \<le> b") (simp_all add: py_slice_def)

lemma py_slice_drop: "a \<le> b \<Longrightarrow> drop a xs = py_slice a b xs @ drop b xs"
  unfolding py_slice_def by (metis append_take_drop_id drop_drop le_add_diff_inverse2)

lemma py_slice_to_end: "py_slice a (length xs) xs = drop a xs"
  by (simp add: py_slice_def)

definition detok_inv :: "(int list \<Rightarrow> utext) \<Rightarrow> detok \<Rightarrow> bool" where
  "detok_inv decode d \<longleftrightarrow> dt_prefix d \<le> dt_read d \<and> dt_read d \<le> length (dt_tokens d)
     \<and> \<not> ends_broken (decode (py_slice (dt_prefix d) (dt_read d) (dt_tokens d)))
     \<and> dt_text d = decode (take (dt_read d) (dt_tokens d)) \<and> \<not> ends_broken (decode (take (dt_read d) (dt_tokens d)))"

lemma detok_init_inv: "boundary_stable decode \<Longrightarrow> detok_inv decode (detok_init [])"
  by (simp add: detok_inv_def detok_init_def py_slice_def boundary_stable_def)

lemma boundary_stable_append:
  "boundary_stable decode \<Longrightarrow> \<not> ends_broken (decode xs) \<Longrightarrow> decode (xs @ ys) = decode xs @ decode ys"
  unfolding boundary_stable_def by blast

lemma window_split:
  assumes D: "boundary_stable decode" and inv: "detok_inv decode d"
  shows "decode (drop (dt_prefix d) (dt_tokens d @ new))
       = decode (py_slice (dt_prefix d) (dt_read d) (dt_tokens d)) @ decode (drop (dt_read d) (dt_tokens d @ new))"
    and "decode (dt_tokens d @ new) = dt_text d @ decode (drop (dt_read d) (dt_tokens d @ new))"
proof -
  have b: "dt_prefix d \<le> dt_read d" "dt_read d \<le> length (dt_tokens d)"
    and c: "\<not> ends_broken (decode (py_slice (dt_prefix d) (dt_read d) (dt_tokens d)))"
      "\<not> ends_broken (decode (take (dt_read d) (dt_tokens d)))"
    and t: "dt_text d = decode (take (dt_read d) (dt_tokens d))"
    using inv by (simp_all add: detok_inv_def)
  have "drop (dt_prefix d) (dt_tokens d @ new)
      = py_slice (dt_prefix d) (dt_read d) (dt_tokens d) @ drop (dt_read d) (dt_tokens d @ new)"
    using py_slice_drop [OF b(1), of "dt_tokens d @ new"] b(2) by simp
  then show "decode (drop (dt_prefix d) (dt_tokens d @ new))
       = decode (py_slice (dt_prefix d) (dt_read d) (dt_tokens d)) @ decode (drop (dt_read d) (dt_tokens d @ new))"
    by (simp only: boundary_stable_append [OF D c(1)])
  have "dt_tokens d @ new = take (dt_read d) (dt_tokens d) @ drop (dt_read d) (dt_tokens d @ new)"
    using b(2) by simp
  then show "decode (dt_tokens d @ new) = dt_text d @ decode (drop (dt_read d) (dt_tokens d @ new))"
    using boundary_stable_append [OF D c(2)] t by metis
qed

lemma detok_append_effect:
  assumes D: "boundary_stable decode" and inv: "detok_inv decode d" and a: "detok_append decode new d = (t, d')"
  shows "detok_inv decode d' \<and> dt_tokens d' = dt_tokens d @ new \<and> dt_text d' = dt_text d @ t"
proof (cases "new = []")
  case True
  then show ?thesis using a inv by (simp add: detok_append_def)
next
  case False
  let ?T = "dt_tokens d @ new"
  let ?w = "decode (drop (dt_prefix d) ?T)" and ?n = "decode (drop (dt_read d) ?T)"
  have b: "dt_prefix d \<le> dt_read d" "dt_read d \<le> length (dt_tokens d)" using inv by (simp_all add: detok_inv_def)
  note s = window_split [OF D inv, of new]
  show ?thesis
  proof (cases "ends_broken ?w")
    case True
    then have "t = []" "d' = d\<lparr>dt_tokens := ?T\<rparr>" using a False by (simp_all add: detok_append_def Let_def)
    then show ?thesis using inv b unfolding detok_inv_def by auto
  next
    case ok: False
    let ?p = "if window_tokens < length ?T - dt_read d then length ?T - window_tokens else dt_read d"
    have t: "t = ?n" and d': "d' = d\<lparr>dt_tokens := ?T, dt_prefix := ?p, dt_read := length ?T, dt_text := dt_text d @ ?n\<rparr>"
      using a False ok b s(1) by (auto simp: detok_append_def Let_def)
    have n: "\<not> ends_broken ?n" using ok s(1) by (auto simp: ends_broken_append split: if_splits)
    have p: "\<not> ends_broken (decode (drop ?p ?T))"
    proof (cases "window_tokens < length ?T - dt_read d")
      case True
      have "drop (dt_prefix d) ?T = py_slice (dt_prefix d) ?p ?T @ drop ?p ?T"
        by (rule py_slice_drop) (use True b in auto)
      moreover have "length (drop ?p ?T) = window_tokens" using True by auto
      ultimately show ?thesis using D ok unfolding boundary_stable_def by metis
    qed (use n in auto)
    have le: "?p \<le> length ?T" using b by auto
    have tx: "dt_text d' = decode ?T" "\<not> ends_broken (decode ?T)" "dt_tokens d' = ?T" "dt_text d' = dt_text d @ t"
      "dt_prefix d' = ?p" "dt_read d' = length ?T"
      using d' s(2) t n inv by (simp_all add: detok_inv_def ends_broken_append)
    have "detok_inv decode d'"
      unfolding detok_inv_def tx(3,5,6) using le p tx(1,2)
      by (simp only: py_slice_to_end take_all order.refl simp_thms)
    then show ?thesis using tx by simp
  qed
qed

lemma detok_flush_effect:
  assumes D: "boundary_stable decode" and inv: "detok_inv decode d"
  shows "dt_text d @ fst (detok_flush decode d) = decode (dt_tokens d)"
proof -
  note s = window_split [OF D inv, of "[]"]
  show ?thesis
  proof (cases "length (dt_tokens d) \<le> dt_read d")
    case True
    then show ?thesis using inv by (simp add: detok_flush_def detok_inv_def)
  next
    case False
    then show ?thesis using s by (simp add: detok_flush_def Let_def)
  qed
qed

section \<open>The stop-string matcher\<close>

text \<open>\<open>str.find\<close>: the first index at which the pattern occurs.\<close>

fun find_sub :: "'a list \<Rightarrow> 'a list \<Rightarrow> nat option" where
  "find_sub pat [] = (if pat = [] then Some 0 else None)"
| "find_sub pat (x # xs) = (if prefix pat (x # xs) then Some 0 else map_option Suc (find_sub pat xs))"

record delta =
  dl_text :: utext
  dl_stop :: "utext option"
  dl_held :: utext

record matcher =
  sm_stop :: "utext list"
  sm_max_len :: nat
  sm_buffer :: utext

definition sm_init :: "utext list \<Rightarrow> matcher" where
  "sm_init stop = (let st = filter (\<lambda>s. s \<noteq> []) stop in
     \<lparr>sm_stop = st, sm_max_len = foldr (\<lambda>s. max (length s)) st 0, sm_buffer = []\<rparr>)"

fun earliest :: "utext list \<Rightarrow> utext \<Rightarrow> (nat \<times> utext) option \<Rightarrow> (nat \<times> utext) option" where
  "earliest [] buf acc = acc"
| "earliest (c # cs) buf acc =
     (case find_sub c buf of
        None \<Rightarrow> earliest cs buf acc
      | Some i \<Rightarrow> earliest cs buf (case acc of
            None \<Rightarrow> Some (i, c)
          | Some (e, m) \<Rightarrow> if i < e then Some (i, c) else acc))"

fun suffix_loop :: "utext list \<Rightarrow> utext \<Rightarrow> nat \<Rightarrow> nat" where
  "suffix_loop stops buf 0 = 0"
| "suffix_loop stops buf (Suc n) =
     (if list_ex (prefix (drop (length buf - Suc n) buf)) stops then Suc n else suffix_loop stops buf n)"

definition partial_suffix_len :: "matcher \<Rightarrow> nat" where
  "partial_suffix_len m =
     suffix_loop (sm_stop m) (sm_buffer m) (min (length (sm_buffer m)) (sm_max_len m - 1))"

definition sm_feed :: "utext \<Rightarrow> matcher \<Rightarrow> delta \<times> matcher" where
  "sm_feed t m =
     (if sm_stop m = [] then (\<lparr>dl_text = t, dl_stop = None, dl_held = []\<rparr>, m)
      else let m1 = m\<lparr>sm_buffer := sm_buffer m @ t\<rparr>; buf = sm_buffer m1 in
        case earliest (sm_stop m) buf None of
          Some (e, s) \<Rightarrow> (\<lparr>dl_text = take e buf, dl_stop = Some s, dl_held = []\<rparr>, m1\<lparr>sm_buffer := []\<rparr>)
        | None \<Rightarrow>
            let keep = partial_suffix_len m1; held = drop (length buf - keep) buf in
            (\<lparr>dl_text = take (length buf - keep) buf, dl_stop = None, dl_held = held\<rparr>,
             m1\<lparr>sm_buffer := held\<rparr>))"

definition sm_flush :: "matcher \<Rightarrow> utext \<times> matcher" where
  "sm_flush m = (sm_buffer m, m\<lparr>sm_buffer := []\<rparr>)"

text \<open>The reference: look for the first stop string in everything received so far.\<close>

fun scan_stop :: "utext list \<Rightarrow> utext \<Rightarrow> nat option" where
  "scan_stop stops [] = None"
| "scan_stop stops (x # xs) =
     (if list_ex (\<lambda>s. prefix s (x # xs)) stops then Some 0 else map_option Suc (scan_stop stops xs))"

definition stop_at :: "utext list \<Rightarrow> utext \<Rightarrow> nat \<Rightarrow> utext option" where
  "stop_at stops W i = List.find (\<lambda>s. prefix s (drop i W)) stops"

fun ref_stream :: "utext list \<Rightarrow> utext list \<Rightarrow> utext \<Rightarrow> utext \<times> utext option" where
  "ref_stream stops [] W = (W, None)"
| "ref_stream stops (c # cs) W =
     (case scan_stop stops (W @ c) of
        Some i \<Rightarrow> (take i (W @ c), stop_at stops (W @ c) i)
      | None \<Rightarrow> ref_stream stops cs (W @ c))"

text \<open>The runtime: feed chunk after chunk until a stop string fires, flush at the end.\<close>

fun sm_stream :: "utext list \<Rightarrow> matcher \<Rightarrow> utext \<times> utext option" where
  "sm_stream [] m = (fst (sm_flush m), None)"
| "sm_stream (c # cs) m =
     (case sm_feed c m of (d, m') \<Rightarrow>
        if dl_stop d \<noteq> None then (dl_text d, dl_stop d)
        else case sm_stream cs m' of (t, s) \<Rightarrow> (dl_text d @ t, s))"

definition sm_active :: "matcher \<Rightarrow> bool" where
  "sm_active m \<longleftrightarrow> sm_stop m \<noteq> []"

lemma all_less_Suc_shift: "(\<forall>j < Suc i. P j) \<longleftrightarrow> P 0 \<and> (\<forall>j < i. P (Suc j))"
  by (metis less_Suc_eq_0_disj)

lemma find_sub_None: "find_sub pat xs = None \<longleftrightarrow> (\<forall>i \<le> length xs. \<not> prefix pat (drop i xs))"
proof (induction xs)
  case (Cons x xs)
  have "(\<forall>i \<le> length (x # xs). \<not> prefix pat (drop i (x # xs)))
      \<longleftrightarrow> \<not> prefix pat (x # xs) \<and> (\<forall>i \<le> length xs. \<not> prefix pat (drop i xs))"
    using all_less_Suc_shift [of "Suc (length xs)" "\<lambda>i. \<not> prefix pat (drop i (x # xs))"]
    by (simp add: less_Suc_eq_le)
  then show ?case using Cons by simp
qed simp

lemma find_sub_Some:
  "find_sub pat xs = Some i \<Longrightarrow> i \<le> length xs \<and> prefix pat (drop i xs) \<and> (\<forall>j < i. \<not> prefix pat (drop j xs))"
proof (induction xs arbitrary: i)
  case (Cons x xs)
  then show ?case by (cases i) (auto split: if_splits simp: all_less_Suc_shift)
qed (auto split: if_splits)

lemma scan_stop_None: "[] \<notin> set stops \<Longrightarrow> scan_stop stops xs = None \<longleftrightarrow> (\<forall>s \<in> set stops. \<forall>i. \<not> prefix s (drop i xs))"
proof (induction xs)
  case Nil
  then show ?case by auto
next
  case (Cons x xs)
  have "(\<forall>i. \<not> prefix s (drop i (x # xs))) \<longleftrightarrow> \<not> prefix s (x # xs) \<and> (\<forall>i. \<not> prefix s (drop i xs))" for s
    by (metis drop0 drop_Suc_Cons not0_implies_Suc)
  then show ?case using Cons by (auto simp: list_ex_iff)
qed

lemma scan_stop_Some:
  "scan_stop stops xs = Some i \<longleftrightarrow>
     (\<exists>s \<in> set stops. prefix s (drop i xs)) \<and> i < length xs
     \<and> (\<forall>s \<in> set stops. \<forall>j < i. \<not> prefix s (drop j xs))"
proof (induction xs arbitrary: i)
  case (Cons x xs)
  then show ?case
    by (cases i) (auto simp: list_ex_iff all_less_Suc_shift)
qed auto

lemma suffix_loop_longest:
  "suffix_loop stops buf n \<le> n"
  "suffix_loop stops buf n < j \<Longrightarrow> j \<le> n \<Longrightarrow> s \<in> set stops \<Longrightarrow> \<not> prefix (drop (length buf - j) buf) s"
  by (induction n) (auto simp: list_ex_iff le_Suc_eq split: if_splits)

lemma earliest_None: "earliest cs buf acc = None \<longleftrightarrow> acc = None \<and> (\<forall>c \<in> set cs. find_sub c buf = None)"
  by (induction cs arbitrary: acc) (auto split: option.splits prod.splits)

lemma earliest_Some:
  "earliest cs buf acc = Some (e, m) \<Longrightarrow>
     (acc = Some (e, m) \<or> (\<exists>pre post. cs = pre @ m # post \<and> find_sub m buf = Some e
        \<and> (\<forall>c \<in> set pre. \<forall>i. find_sub c buf = Some i \<longrightarrow> e < i) \<and> (\<forall>e' m'. acc = Some (e', m') \<longrightarrow> e < e')))
     \<and> (\<forall>c \<in> set cs. \<forall>i. find_sub c buf = Some i \<longrightarrow> e \<le> i) \<and> (\<forall>e' m'. acc = Some (e', m') \<longrightarrow> e \<le> e')"
proof (induction cs arbitrary: acc)
  case Nil
  then show ?case by simp
next
  case (Cons c cs)
  show ?case
  proof (cases "find_sub c buf")
    case None
    then have "earliest cs buf acc = Some (e, m)" using Cons.prems by simp
    note ih = Cons.IH [OF this]
    show ?thesis
    proof (intro conjI)
      show "acc = Some (e, m) \<or> (\<exists>pre post. c # cs = pre @ m # post \<and> find_sub m buf = Some e
        \<and> (\<forall>c \<in> set pre. \<forall>i. find_sub c buf = Some i \<longrightarrow> e < i) \<and> (\<forall>e' m'. acc = Some (e', m') \<longrightarrow> e < e'))"
        using ih None by (metis append_Cons set_ConsD option.distinct(1))
    qed (use ih None in auto)
  next
    case (Some i)
    let ?acc = "case acc of None \<Rightarrow> Some (i, c) | Some (e, m) \<Rightarrow> if i < e then Some (i, c) else acc"
    have "earliest cs buf ?acc = Some (e, m)" using Cons.prems Some by simp
    note ih = Cons.IH [OF this]
    show ?thesis
    proof (intro conjI)
      have "e \<le> i" using ih by (auto split: option.splits if_splits)
      then show "\<forall>c \<in> set (c # cs). \<forall>i. find_sub c buf = Some i \<longrightarrow> e \<le> i" using ih Some by auto
      show "\<forall>e' m'. acc = Some (e', m') \<longrightarrow> e \<le> e'" using ih by (auto split: option.splits if_splits)
      show "acc = Some (e, m) \<or> (\<exists>pre post. c # cs = pre @ m # post \<and> find_sub m buf = Some e
        \<and> (\<forall>c \<in> set pre. \<forall>i. find_sub c buf = Some i \<longrightarrow> e < i) \<and> (\<forall>e' m'. acc = Some (e', m') \<longrightarrow> e < e'))"
        using ih [THEN conjunct1]
      proof
        assume a: "?acc = Some (e, m)"
        show ?thesis
        proof (cases "acc = Some (e, m)")
          case False
          then have "e = i" "m = c" "\<forall>e' m'. acc = Some (e', m') \<longrightarrow> i < e'"
            using a by (auto split: option.splits if_splits)
          then show ?thesis using Some by (intro disjI2 exI [of _ "[]"] exI [of _ cs]) auto
        qed simp
      next
        assume "\<exists>pre post. cs = pre @ m # post \<and> find_sub m buf = Some e
          \<and> (\<forall>c \<in> set pre. \<forall>i. find_sub c buf = Some i \<longrightarrow> e < i) \<and> (\<forall>e' m'. ?acc = Some (e', m') \<longrightarrow> e < e')"
        then obtain pre post where p: "cs = pre @ m # post" "find_sub m buf = Some e"
          "\<forall>c \<in> set pre. \<forall>i. find_sub c buf = Some i \<longrightarrow> e < i" "\<forall>e' m'. ?acc = Some (e', m') \<longrightarrow> e < e'" by blast
        have "e < i" "\<forall>e' m'. acc = Some (e', m') \<longrightarrow> e < e'" using p(4) by (auto split: option.splits if_splits)
        then show ?thesis using p(1-3) Some by (intro disjI2 exI [of _ "c # pre"] exI [of _ post]) auto
      qed
    qed
  qed
qed

lemma find_first:
  "xs = pre @ m # post \<Longrightarrow> P m \<Longrightarrow> (\<forall>x \<in> set pre. \<not> P x) \<Longrightarrow> List.find P xs = Some m"
  by (induction pre arbitrary: xs) auto

lemma earliest_scan:
  assumes ne: "[] \<notin> set stops"
  shows "earliest stops buf None
       = (case scan_stop stops buf of None \<Rightarrow> None | Some i \<Rightarrow> map_option (Pair i) (stop_at stops buf i))"
proof (cases "earliest stops buf None")
  case None
  have "\<not> prefix s (drop i buf)" if "s \<in> set stops" for s i
  proof (cases "i \<le> length buf")
    case True
    then show ?thesis using None that by (auto simp: earliest_None find_sub_None)
  next
    case False
    then show ?thesis using that ne by auto
  qed
  then have "scan_stop stops buf = None" using scan_stop_None [OF ne] by blast
  then show ?thesis using None by simp
next
  case (Some r)
  obtain e m where r: "r = (e, m)" by fastforce
  note E = earliest_Some [OF Some [unfolded r]]
  obtain pre post where p: "stops = pre @ m # post" "find_sub m buf = Some e"
    "\<forall>c \<in> set pre. \<forall>i. find_sub c buf = Some i \<longrightarrow> e < i" using E by auto
  have at: "prefix m (drop e buf)" "e \<le> length buf" using find_sub_Some [OF p(2)] by auto
  have before: "\<not> prefix c (drop j buf)" if cs: "c \<in> set stops" and je: "j < e" for c j
  proof
    assume pr: "prefix c (drop j buf)"
    then obtain i where i: "find_sub c buf = Some i"
      using find_sub_None [of c buf] je at(2) by (cases "find_sub c buf") auto
    then have "i \<le> j" using find_sub_Some [OF i] pr by (meson not_le)
    then show False using E i cs je by fastforce
  qed
  have "m \<noteq> []" using ne p(1) by auto
  then have "e < length buf" using at by (cases "e = length buf") auto
  then have sc: "scan_stop stops buf = Some e"
    using at(1) before p(1) by (auto simp: scan_stop_Some)
  have "\<not> prefix c (drop e buf)" if "c \<in> set pre" for c
  proof
    assume pr: "prefix c (drop e buf)"
    then obtain i where i: "find_sub c buf = Some i"
      using find_sub_None [of c buf] at(2) by (cases "find_sub c buf") auto
    then have "i \<le> e" using find_sub_Some [OF i] pr by (meson not_le)
    then show False using p(3) i that by fastforce
  qed
  then have "stop_at stops buf e = Some m"
    unfolding stop_at_def using at(1) by (intro find_first [OF p(1)]) auto
  then show ?thesis using Some r sc by simp
qed

text \<open>
  What the matcher has released is settled: no stop string begins in it, whatever follows.
\<close>

definition settled :: "utext list \<Rightarrow> utext \<Rightarrow> utext \<Rightarrow> bool" where
  "settled stops out W \<longleftrightarrow> (\<forall>s \<in> set stops. \<forall>i < length out. \<forall>ext. \<not> prefix s (drop i (W @ ext)))"

definition matcher_ok :: "utext list \<Rightarrow> matcher \<Rightarrow> bool" where
  "matcher_ok stops m \<longleftrightarrow> sm_stop m = stops \<and> stops \<noteq> [] \<and> [] \<notin> set stops
     \<and> (\<forall>s \<in> set stops. length s \<le> sm_max_len m)"

lemma scan_stop_settled:
  assumes ne: "[] \<notin> set stops" and st: "settled stops out W" "W = out @ b"
  shows "scan_stop stops (W @ c) = map_option ((+) (length out)) (scan_stop stops (b @ c))"
proof (cases "scan_stop stops (b @ c)")
  case None
  have "\<not> prefix s (drop i (W @ c))" if "s \<in> set stops" for s i
  proof (cases "i < length out")
    case True
    then show ?thesis using st that unfolding settled_def by blast
  next
    case False
    then have "drop i (W @ c) = drop (i - length out) (b @ c)" using st(2) by simp
    then show ?thesis using None that scan_stop_None [OF ne] by metis
  qed
  then have "scan_stop stops (W @ c) = None" using scan_stop_None [OF ne] by blast
  then show ?thesis using None by simp
next
  case (Some i)
  note S = Some [unfolded scan_stop_Some]
  have "scan_stop stops (W @ c) = Some (length out + i)"
    unfolding scan_stop_Some
  proof (intro conjI ballI allI impI)
    show "\<exists>s \<in> set stops. prefix s (drop (length out + i) (W @ c))" using S st(2) by simp
    show "length out + i < length (W @ c)" using S st(2) by simp
    fix s j assume s: "s \<in> set stops" and j: "j < length out + i"
    show "\<not> prefix s (drop j (W @ c))"
    proof (cases "j < length out")
      case True
      then show ?thesis using st s unfolding settled_def by blast
    next
      case False
      then have "j - length out < i" "drop j (W @ c) = drop (j - length out) (b @ c)" using j st(2) by auto
      then show ?thesis using S s by metis
    qed
  qed
  then show ?thesis using Some by simp
qed

lemma settled_release:
  assumes m: "matcher_ok stops m" and st: "settled stops out W" "W = out @ sm_buffer m"
    and no: "scan_stop stops (W @ c) = None"
    and k: "k = partial_suffix_len (m\<lparr>sm_buffer := sm_buffer m @ c\<rparr>)"
    and B: "B = sm_buffer m @ c"
  shows "settled stops (out @ take (length B - k) B) (W @ c)"
  unfolding settled_def
proof (intro ballI allI impI notI)
  fix s i ext
  assume s: "s \<in> set stops" and i: "i < length (out @ take (length B - k) B)"
    and pr: "prefix s (drop i ((W @ c) @ ext))"
  have ne: "[] \<notin> set stops" using m by (simp add: matcher_ok_def)
  show False
  proof (cases "i < length out")
    case True
    then show ?thesis using st s pr unfolding settled_def by (metis append.assoc)
  next
    case False
    let ?j = "length B - (i - length out)"
    have D: "drop i (W @ c) = drop (length B - ?j) B" and Dl: "length (drop i (W @ c)) = ?j"
      and kj: "k < ?j" and jB: "?j \<le> length B"
      using False i st(2) B by auto
    have "drop i ((W @ c) @ ext) = drop i (W @ c) @ ext" using i st(2) B by auto
    moreover have "\<not> prefix s (drop i (W @ c))" using no scan_stop_None [OF ne] s by blast
    ultimately have "prefix (drop i (W @ c)) s" "length (drop i (W @ c)) < length s"
      using pr by (auto simp: prefix_append dest: prefix_length_le)
    moreover have "length s \<le> sm_max_len m" using m s by (simp add: matcher_ok_def)
    moreover have "?j < length s" using calculation(2) unfolding Dl .
    ultimately have "prefix (drop (length B - ?j) B) s" "?j \<le> sm_max_len m - 1"
      using D by (metis, linarith)
    then show False
      using suffix_loop_longest(2) [of stops B "min (length B) (sm_max_len m - 1)" ?j s] kj jB k B m s
      by (auto simp: partial_suffix_len_def matcher_ok_def)
  qed
qed

lemma sm_stream_ref:
  assumes "matcher_ok stops m" "settled stops out W" "W = out @ sm_buffer m" "scan_stop stops W = None"
    and "sm_stream cs m = (t, r)"
  shows "ref_stream stops cs W = (out @ t, r)"
  using assms
proof (induction cs arbitrary: m out W t)
  case Nil
  then show ?case by (simp add: sm_flush_def)
next
  case (Cons c cs)
  let ?B = "sm_buffer m @ c"
  have ne: "[] \<notin> set stops" and nn: "sm_stop m = stops" "stops \<noteq> []" using Cons.prems(1) by (simp_all add: matcher_ok_def)
  note sc = scan_stop_settled [OF ne Cons.prems(2,3), of c]
  show ?case
  proof (cases "scan_stop stops ?B")
    case (Some e)
    obtain s where s: "stop_at stops ?B e = Some s"
      using Some unfolding scan_stop_Some stop_at_def
      by (metis (mono_tags, lifting) find_None_iff not_Some_eq)
    have "t = take e ?B" "r = Some s"
      using Cons.prems(5) Some s earliest_scan [OF ne, of ?B] nn by (auto simp: sm_feed_def Let_def)
    then show ?thesis using sc Some s Cons.prems(3) by (simp add: stop_at_def)
  next
    case None
    let ?k = "partial_suffix_len (m\<lparr>sm_buffer := ?B\<rparr>)"
    let ?m = "m\<lparr>sm_buffer := drop (length ?B - ?k) ?B\<rparr>"
    have f: "sm_feed c m = (\<lparr>dl_text = take (length ?B - ?k) ?B, dl_stop = None,
        dl_held = drop (length ?B - ?k) ?B\<rparr>, ?m)"
      using None earliest_scan [OF ne, of ?B] nn by (simp add: sm_feed_def Let_def)
    obtain t' where t': "sm_stream cs ?m = (t', r)" "t = take (length ?B - ?k) ?B @ t'"
      using Cons.prems(5) f by (auto split: prod.splits)
    have no: "scan_stop stops (W @ c) = None" using sc None by simp
    have "ref_stream stops cs (W @ c) = ((out @ take (length ?B - ?k) ?B) @ t', r)"
    proof (rule Cons.IH [OF _ _ _ no t'(1)])
      show "matcher_ok stops ?m" using Cons.prems(1) by (simp add: matcher_ok_def)
      show "settled stops (out @ take (length ?B - ?k) ?B) (W @ c)"
        by (rule settled_release [OF Cons.prems(1-3) no refl refl])
      show "W @ c = (out @ take (length ?B - ?k) ?B) @ sm_buffer ?m"
      proof -
        have e: "sm_buffer ?m = drop (length ?B - ?k) ?B" by simp
        show ?thesis unfolding e Cons.prems(3) by (simp only: append.assoc append_take_drop_id)
      qed
    qed
    then show ?thesis using no t'(2) by simp
  qed
qed

lemma foldr_max_ge: "s \<in> set xs \<Longrightarrow> length s \<le> foldr (\<lambda>s. max (length s)) xs 0"
  by (induction xs) auto

section \<open>The decoder of one request\<close>

record sdec =
  sd_detok :: detok
  sd_matcher :: matcher
  sd_text :: utext

definition sd_create :: "utext list \<Rightarrow> int list \<Rightarrow> sdec" where
  "sd_create stop initial = \<lparr>sd_detok = detok_init initial, sd_matcher = sm_init stop, sd_text = []\<rparr>"

definition sd_feed :: "(int list \<Rightarrow> utext) \<Rightarrow> int list \<Rightarrow> sdec \<Rightarrow> delta \<times> sdec" where
  "sd_feed decode toks s =
     (case detok_append decode toks (sd_detok s) of (t, d) \<Rightarrow>
      case sm_feed t (sd_matcher s) of (dl, m) \<Rightarrow>
        (dl, \<lparr>sd_detok = d, sd_matcher = m, sd_text = sd_text s @ dl_text dl\<rparr>))"

definition sd_finish :: "(int list \<Rightarrow> utext) \<Rightarrow> sdec \<Rightarrow> utext \<times> sdec" where
  "sd_finish decode s =
     (case detok_flush decode (sd_detok s) of (tail, d) \<Rightarrow>
      case (if sm_active (sd_matcher s) then case sm_flush (sd_matcher s) of (b, m) \<Rightarrow> (b @ tail, m)
            else (tail, sd_matcher s)) of (pending, m) \<Rightarrow>
        (pending, \<lparr>sd_detok = d, sd_matcher = m, sd_text = sd_text s @ pending\<rparr>))"

primrec sd_run :: "(int list \<Rightarrow> utext) \<Rightarrow> int list list \<Rightarrow> sdec \<Rightarrow> sdec" where
  "sd_run decode [] s = s"
| "sd_run decode (c # cs) s = sd_run decode cs (snd (sd_feed decode c s))"

lemma sd_run_plain:
  assumes "boundary_stable decode" and "detok_inv decode (sd_detok s)" "sm_stop (sd_matcher s) = []"
    and "sd_text s = dt_text (sd_detok s)" and "s' = sd_run decode cs s"
  shows "detok_inv decode (sd_detok s') \<and> sm_stop (sd_matcher s') = [] \<and> sd_text s' = dt_text (sd_detok s')
    \<and> dt_tokens (sd_detok s') = dt_tokens (sd_detok s) @ concat cs"
  using assms(2-5)
proof (induction cs arbitrary: s)
  case Nil
  then show ?case by simp
next
  case (Cons c cs)
  obtain t d where a: "detok_append decode c (sd_detok s) = (t, d)" by fastforce
  note e = detok_append_effect [OF assms(1) Cons.prems(1) a]
  have f: "snd (sd_feed decode c s) = \<lparr>sd_detok = d, sd_matcher = sd_matcher s, sd_text = sd_text s @ t\<rparr>"
    using a Cons.prems(2) by (simp add: sd_feed_def sm_feed_def)
  show ?case using Cons.IH [of "snd (sd_feed decode c s)"] Cons.prems e f by simp
qed

section \<open>Properties\<close>



text \<open>A byte-level decoder for the witness: token 0 opens a two-token character.\<close>

fun pair_decode :: "int list \<Rightarrow> utext" where
  "pair_decode [] = []"
| "pair_decode [t] = [if t = 0 then replacement_char else nat t mod 1000]"
| "pair_decode (t # u # ts) =
     (if t \<noteq> 0 then nat t mod 1000 # pair_decode (u # ts)
      else if u = 0 then replacement_char # pair_decode (u # ts)
      else (1000 + nat u mod 1000) # pair_decode ts)"

lemma pair_decode_broken: "ends_broken (pair_decode xs) \<longleftrightarrow> xs \<noteq> [] \<and> last xs = 0"
proof (induction xs rule: pair_decode.induct)
  case (3 t u ts)
  then show ?case
    by (cases ts) (auto simp: ends_broken_def replacement_char_def split: if_splits)
qed (auto simp: ends_broken_def replacement_char_def)

lemma pair_decode_append:
  "xs = [] \<or> last xs \<noteq> 0 \<Longrightarrow> pair_decode (xs @ ys) = pair_decode xs @ pair_decode ys"
proof (induction xs rule: pair_decode.induct)
  case (2 t)
  then show ?case by (cases ys) auto
next
  case (3 t u ts)
  then show ?case by (cases ts) auto
qed simp

lemma pair_decode_stable: "boundary_stable pair_decode"
  unfolding boundary_stable_def pair_decode_broken
  by (auto simp: pair_decode_append window_tokens_def)


end
