(* ===== verification/Engine.thy ===== *)
theory Engine
  imports Paged_Step Streaming
begin

text \<open>
  The synchronous engine, class \<open>LLMEngine\<close> of \<open>src/turboserve/engine/runtime/engine.py\<close>: the
  step loop that ties the scheduler, the runner and the streaming decoders together.

  The tokenizer, the digest, the end-of-sequence ids and the model's next-token function do
  not change during a run and are the record \<open>env\<close>. \<open>e_kv\<close> is the KV pool the runner writes. The
  engine runs without a \<open>decode_step_hook\<close>.
\<close>

section \<open>The engine object\<close>

record env =
  en_digest :: digest
  en_encode :: "utext \<Rightarrow> int list"
  en_decode :: "int list \<Rightarrow> utext"
  en_eos :: "int set"
  en_model :: next_token

record engine =
  e_sched :: sched
  e_kv :: kvstore
  e_decoders :: "string \<rightharpoonup> sdec"
  e_generated :: nat
  e_prompted :: nat
  e_closed :: bool

text \<open>
  \<open>_resolve_eos_token_ids\<close>: the checkpoint's ids and the tokenizer's, which is an int, a list,
  or neither.
\<close>

definition resolve_eos :: "int list \<Rightarrow> (int + int list) option \<Rightarrow> int set" where
  "resolve_eos model_ids tok = set model_ids \<union>
     (case tok of None \<Rightarrow> {} | Some (Inl i) \<Rightarrow> {i} | Some (Inr is) \<Rightarrow> set is)"

definition engine_init :: "nat \<Rightarrow> scheduler_config \<Rightarrow> py_error + engine" where
  "engine_init num_blocks cfg =
     rbind (bm_create (int num_blocks) (int (cfg_block_size cfg)) (enable_prefix_caching cfg)) (\<lambda>m.
     rbind (sched_init cfg (Some m)) (\<lambda>s.
     Inr \<lparr>e_sched = s, e_kv = (\<lambda>_. Blank), e_decoders = Map.empty, e_generated = 0,
          e_prompted = 0, e_closed = False\<rparr>))"

section \<open>Request lifecycle\<close>

text \<open>A prompt is text or token ids.\<close>

definition prompt_ids :: "env \<Rightarrow> utext + int list \<Rightarrow> int list" where
  "prompt_ids E prompt = (case prompt of Inl text \<Rightarrow> en_encode E text | Inr ids \<Rightarrow> ids)"

definition engine_add ::
  "env \<Rightarrow> string \<Rightarrow> utext + int list \<Rightarrow> sampling option \<Rightarrow> string \<Rightarrow> int \<Rightarrow> int \<Rightarrow> rat \<Rightarrow> engine
     \<Rightarrow> py_error + (nat \<times> engine)" where
  "engine_add E rid prompt params tenant prio lora arrival e =
     rbind (rguard (e_closed e) RuntimeError) (\<lambda>_.
     let ids = prompt_ids E prompt in
     rbind (rguard (ids = []) ValueError) (\<lambda>_.
     rbind (add_request rid ids params tenant prio lora arrival (e_sched e)) (\<lambda>(x, s).
     Inr (x, e\<lparr>e_sched := s,
               e_decoders := (e_decoders e)(rid \<mapsto> sd_create (stop_strings (q_sampling (obj x s))) []),
               e_prompted := e_prompted e + length ids\<rparr>))))"

definition engine_abort :: "env \<Rightarrow> string \<Rightarrow> rat \<Rightarrow> engine \<Rightarrow> py_error + (bool \<times> engine)" where
  "engine_abort E rid now e =
     rbind (sched_abort (en_digest E) rid now (e_sched e)) (\<lambda>(hit, s).
     Inr (hit, e\<lparr>e_sched := s, e_decoders := (e_decoders e)(rid := None)\<rparr>))"

definition engine_unfinished :: "engine \<Rightarrow> bool" where
  "engine_unfinished e = has_unfinished (e_sched e)"

section \<open>The step\<close>

definition engine_emit ::
  "env \<Rightarrow> rat \<Rightarrow> nat \<Rightarrow> int \<Rightarrow> finish_reason option \<Rightarrow> engine \<Rightarrow> py_error + (request_output \<times> engine)" where
  "engine_emit E now x token reason e =
     (let s = e_sched e; rid = q_request (obj x s);
          dec = (case e_decoders e rid of Some d \<Rightarrow> d
                 | None \<Rightarrow> sd_create (stop_strings (q_sampling (obj x s))) []) in
      case sd_feed (en_decode E) [token] dec of (dl, dec1) \<Rightarrow>
      rbind (if dl_stop dl \<noteq> None \<and> reason = None
             then rbind (sched_finish (en_digest E) x Stop now None s) (\<lambda>s'. Inr (Some Stop, s', dl_text dl, dec1))
             else if reason \<noteq> None \<and> dl_stop dl = None
             then case sd_finish (en_decode E) dec1 of (tail, dec2) \<Rightarrow> Inr (reason, s, dl_text dl @ tail, dec2)
             else Inr (reason, s, dl_text dl, dec1)) (\<lambda>(reason', s', text, dec').
      Inr (make_output (Some [token]) text (obj x s'),
           e\<lparr>e_sched := s',
             e_decoders := (e_decoders e)(rid := (if reason' = None then Some dec' else None))\<rparr>)))"

text \<open>The body of the loop of \<open>_process\<close>.\<close>

definition process_token :: "env \<Rightarrow> rat \<Rightarrow> nat \<Rightarrow> int \<Rightarrow> engine \<Rightarrow> py_error + (request_output \<times> engine)" where
  "process_token E now x token e =
     rbind (append_token (en_digest E) x token None now (e_sched e)) (\<lambda>(reason, s).
     rbind (if reason = None \<and> token \<in> en_eos E \<and> \<not> ignore_eos (q_sampling (obj x s))
            then rbind (sched_finish (en_digest E) x Stop now (Some token) s) (\<lambda>s'. Inr (Some Stop, s'))
            else Inr (reason, s)) (\<lambda>(reason', s').
     engine_emit E now x token reason' (e\<lparr>e_sched := s'\<rparr>)))"

fun process_loop ::
  "env \<Rightarrow> rat \<Rightarrow> (ssched \<times> int) list \<Rightarrow> engine \<Rightarrow> py_error + (request_output list \<times> engine)" where
  "process_loop E now [] e = Inr ([], e)"
| "process_loop E now ((d, token) # ps) e =
     (if is_finished (obj (d_seq d) (e_sched e)) then process_loop E now ps e
      else rbind (process_token E now (d_seq d) token e) (\<lambda>(out, e1).
           rbind (process_loop E now ps e1) (\<lambda>(outs, e2). Inr (out # outs, e2))))"

definition engine_process :: "env \<Rightarrow> rat \<Rightarrow> step_output \<Rightarrow> engine \<Rightarrow> py_error + (request_output list \<times> engine)" where
  "engine_process E now so e =
     rbind (process_loop E now (step_pairs so) e) (\<lambda>(outs, e').
     Inr (outs, e'\<lparr>e_generated := e_generated e' + length outs\<rparr>))"

definition engine_step :: "env \<Rightarrow> rat \<Rightarrow> engine \<Rightarrow> py_error + (request_output list \<times> engine)" where
  "engine_step E now e =
     rbind (rguard (e_closed e) RuntimeError) (\<lambda>_.
     rbind (schedule (en_digest E) now (e_sched e)) (\<lambda>(out, s).
     if out_is_empty out then Inr ([], e\<lparr>e_sched := s\<rparr>)
     else rbind (execute (en_model E) (cfg_block_size (s_config s)) s out (e_kv e)) (\<lambda>(so, kv).
          engine_process E now so (e\<lparr>e_sched := s, e_kv := kv\<rparr>))))"

text \<open>\<open>close\<close>; freeing the pool leaves no entry to read.\<close>

definition engine_close :: "engine \<Rightarrow> engine" where
  "engine_close e =
     (if e_closed e then e
      else e\<lparr>e_closed := True, e_sched := sched_reset (e_sched e), e_decoders := Map.empty,
             e_kv := (\<lambda>_. Blank)\<rparr>)"

section \<open>Contents under the scheduler's operations\<close>

lemma seq_held_finish: "seq_held D m (seq_finish r now st q) = seq_held D m q"
proof -
  have "chain_of D bs (seq_finish r now st q) = chain_of D bs q" for bs
    by (rule ext) (simp add: chain_of_def token_ids_def)
  then show ?thesis by (cases "bm_state m (q_id q)") (simp_all add: seq_held_def)
qed

lemma seq_sane_finish: "seq_sane q \<Longrightarrow> seq_sane (seq_finish r now st q)"
  using seq_finish_wf by (simp add: seq_sane_def token_ids_def)

lemma finish_same:
  "token_ids (seq_finish r now st q) = token_ids q" "num_tokens (seq_finish r now st q) = num_tokens q"
  "q_sampling (seq_finish r now st q) = q_sampling q" "q_preemptions (seq_finish r now st q) = q_preemptions q"
  by (simp_all add: token_ids_def num_tokens_def seq_finish_def)

text \<open>Every sequence in flight can be freed; only a running one holds anything.\<close>

lemma everyone_freeable:
  assumes inv: "sched_inv D s" and x: "x \<in> everyone s"
  shows "\<exists>F. bm_inv (F + mset (q_table (obj x s))) (s_bm s) \<and> seq_held D (s_bm s) (obj x s)
     \<and> seq_sane (obj x s) \<and> (x \<notin> set (s_running s) \<longrightarrow> q_computed (obj x s) = 0) \<and> 0 < bsize s"
proof (cases "x \<in> set (s_running s)")
  case True
  have "score D s" using inv by (simp add: sched_inv_def)
  from running_live [OF this True] show ?thesis using True by blast
next
  case False
  have sc: "score D s" using inv by (simp add: sched_inv_def)
  have m: "bm_inv (refs (s_seqs s) (s_running s)) (s_bm s)" using sc by (simp add: core_def)
  then have "0 < bsize s" by (simp add: bm_inv_def)
  have "\<exists>st. idle st (s_bm s) (s_seqs s) x" using sc x False by (auto simp: core_def everyone_def)
  then have i: "seq_sane (obj x s)" "q_table (obj x s) = []" "q_computed (obj x s) = 0"
    "bm_state (s_bm s) (q_id (obj x s)) = None"
    by (auto simp: idle_def obj_def)
  then have "seq_held D (s_bm s) (obj x s)" by (simp add: seq_held_def)
  then show ?thesis using i m \<open>0 < bsize s\<close> by (intro exI [of _ "refs (s_seqs s) (s_running s)"]) simp
qed

lemma detach_running [simp]: "s_running (sched_detach x s) = remove1 x (s_running s)"
  by (simp add: sched_detach_def Let_def remove1_idem)

lemma sched_finish_parts:
  "sched_finish D x r now st s = Inr s' \<Longrightarrow>
   \<exists>q. bm_free D (seq_finish r now st (obj x s)) (s_bm s) = Inr (q, s_bm s') \<and> s_running s' = remove1 x (s_running s)"
  unfolding sched_finish_def by (auto simp: Let_def) (simp add: sched_detach_def Let_def)

lemma finish_contents:
  assumes inv: "sched_inv D s" and c: "contents_ok D S kv s" and x: "x \<in> everyone s"
    and r: "sched_finish D x r now st s = Inr s'"
  shows "contents_ok D S kv s'"
proof -
  let ?q = "seq_finish r now st (obj x s)"
  obtain F where F: "bm_inv (F + mset (q_table (obj x s))) (s_bm s)" "seq_held D (s_bm s) (obj x s)"
    "seq_sane (obj x s)" "x \<notin> set (s_running s) \<longrightarrow> q_computed (obj x s) = 0" "0 < bsize s"
    using everyone_freeable [OF inv x] by blast
  obtain q where f: "bm_free D ?q (s_bm s) = Inr (q, s_bm s')" and s': "s_running s' = remove1 x (s_running s)"
    using sched_finish_parts [OF r] by blast
  obtain s1 where "sched_finish D x r now st s = Inr s1" "sched_inv D s1" "everyone s1 = everyone s - {x}"
    "\<forall>y. y \<noteq> x \<longrightarrow> obj y s1 = obj y s" "s_config s1 = s_config s"
    using finish_ok [OF inv x] by blast
  then have e: "sched_inv D s'" "everyone s' = everyone s - {x}" "\<And>y. y \<noteq> x \<Longrightarrow> obj y s' = obj y s" "s_config s' = s_config s"
    using r by auto
  then have bs: "bsize s' = bsize s" using inv by (simp add: sched_inv_def)
  have hx: "holds kv (bsize s) ?q (q_computed ?q)"
    using c x F(4) holds_same [of ?q "obj x s" kv "bsize s"] finish_same(1)
    by (cases "x \<in> set (s_running s)") (auto simp: contents_ok_def)
  have mx: "messages_in D S (bsize s) ?q"
    using c x messages_in_same [of ?q "obj x s"] finish_same(1) by (simp add: contents_ok_def)
  have "cache_from D ?q (s_bm s) (s_bm s')"
    by (rule free_from [OF f, of F]) (use F in \<open>simp_all add: seq_held_finish seq_sane_finish\<close>)
  from cache_holds_from [OF _ this refl F(5) hx seq_sane_finish [OF F(3)] mx]
  have "cache_holds D S kv (bsize s) (bm_cache (s_bm s'))" using c by (simp add: contents_ok_def)
  moreover have ne: "y \<noteq> x" if "y \<in> everyone s'" for y using that e(2) by simp
  moreover have "y \<in> everyone s'" if "y \<in> set (s_running s')" for y using that by (simp add: everyone_def)
  moreover have "y \<in> set (s_running s)" if "y \<in> set (s_running s')" for y
    using that unfolding s' by (metis notin_set_remove1)
  ultimately show ?thesis
    using c e(2,3) unfolding contents_ok_def bs by auto
qed

lemma append_contents:
  assumes inv: "sched_inv D s" and c: "contents_ok D S kv s" and x: "x \<in> set (s_running s)"
    and a: "seq_append_token t now (obj x s) = Inr q" and m: "messages_in D S (bsize s) q"
    and up: "q_preemptions q = 0 \<Longrightarrow> num_tokens (obj x s) \<le> q_computed (obj x s)"
  shows "contents_ok D S kv (put x q s)"
proof -
  note f = seq_append_token_fields [OF a]
  have sc: "score D s" using inv by (simp add: sched_inv_def)
  note lv = running_live [OF sc x]
  have "num_tokens q = num_tokens (obj x s) + 1" using f by (simp add: num_tokens_token_ids)
  then have "caught_up q (q_computed q)" using up f by (auto simp: caught_up_def)
  moreover have "holds kv (bsize s) q (q_computed q)"
    using c x f by (auto simp: contents_ok_def intro: holds_grown [OF _ lv(3), of _ _ _ q "[]" "[t]"])
  ultimately show ?thesis
    using c m by (auto simp: contents_ok_def everyone_def)
qed

lemma add_request_contents:
  assumes inv: "sched_inv D s" and c: "contents_ok D S kv s" and enc: "encodable lora tokens"
    and r: "add_request rid tokens params tenant prio lora arrival s = Inr (x, s')"
    and m: "messages_in D S (bsize s) (obj x s')"
  shows "contents_ok D S kv s'"
proof -
  have e: "everyone s' = insert x (everyone s)" "x \<notin> everyone s" "\<And>y. y \<noteq> x \<Longrightarrow> obj y s' = obj y s"
    using add_request_ok [OF inv enc r] by auto
  have o: "q_output (obj x s') = []" "s_bm s' = s_bm s" "s_running s' = s_running s"
    using r by (auto simp: add_request_def add_sequence_def seq_init_def split: if_splits)
  have "caught_up (obj x s') n" for n using o(1) by (simp add: caught_up_def)
  moreover have "y \<noteq> x" if "y \<in> set (s_running s)" for y using that e(2) by (auto simp: everyone_def)
  moreover have "y \<noteq> x" if "y \<in> everyone s" for y using that e(2) by blast
  ultimately show ?thesis
    using c m e(3) unfolding contents_ok_def e(1) o(2,3) by auto
qed

lemma reset_contents:
  assumes inv: "sched_inv D s"
  shows "contents_ok D S kv (sched_reset s)"
proof -
  have m: "bm_inv (refs (s_seqs s) (s_running s)) (s_bm s)" using inv by (simp add: sched_inv_def core_def)
  have "c_by_block (bm_cache (s_bm s)) = Map.empty" if "\<not> bm_caching (s_bm s)"
    using m that by (simp add: bm_inv_def pool_inv_def pc_rinv_def pc_off_inv_def pc_kept_def)
  then have "c_by_block (bm_cache (bm_reset (s_bm s))) = Map.empty"
    by (cases "bm_caching (s_bm s)") (simp_all add: bm_reset_def pc_reset_def)
  moreover have "everyone (sched_reset s) = {}" by (rule reset_ok(2) [OF inv])
  ultimately show ?thesis by (simp add: contents_ok_def cache_holds_def sched_reset_def)
qed

section \<open>One sampled token\<close>

text \<open>The decoder of a request in flight has been fed its output, token by token.\<close>

definition decoder_of :: "env \<Rightarrow> seqn \<Rightarrow> sdec" where
  "decoder_of E q = sd_run (en_decode E) (map (\<lambda>t. [t]) (q_output q)) (sd_create (stop_strings (q_sampling q)) [])"

definition decoders_ok :: "env \<Rightarrow> engine \<Rightarrow> bool" where
  "decoders_ok E e \<longleftrightarrow> (\<forall>r. e_decoders e r = map_option (\<lambda>x. decoder_of E (obj x (e_sched e))) (s_by_request (e_sched e) r))"

lemma sd_run_snoc: "sd_run decode (cs @ [c]) s = snd (sd_feed decode c (sd_run decode cs s))"
  by (induction cs arbitrary: s) simp_all

definition gained :: "int \<Rightarrow> seqn \<Rightarrow> seqn \<Rightarrow> bool" where
  "gained t q q' \<longleftrightarrow> q_output q' = q_output q @ [t] \<and> q_prompt q' = q_prompt q \<and> q_sampling q' = q_sampling q
     \<and> q_lora q' = q_lora q \<and> q_request q' = q_request q \<and> q_preemptions q' = q_preemptions q"

text \<open>
  A sampled token is appended; the sequence either stays or is finished, on whichever
  of the three grounds.
\<close>

lemma process_token_cases:
  assumes inv: "sched_inv D (e_sched e)" and x: "x \<in> set (s_running (e_sched e))" and t: "fits64 t"
    and dec: "decoders_ok E e" and D: "en_digest E = D"
  shows "\<exists>q dec'. seq_append_token t now (obj x (e_sched e)) = Inr q \<and> dec' = decoder_of E q
     \<and> (\<exists>text. process_token E now x t e = Inr (make_output (Some [t]) text q,
            e\<lparr>e_sched := put x q (e_sched e), e_decoders := (e_decoders e)(q_request q \<mapsto> dec')\<rparr>)
        \<or> (\<exists>r st s'. sched_finish D x r now st (put x q (e_sched e)) = Inr s'
            \<and> process_token E now x t e = Inr (make_output (Some [t]) text (obj x s'),
                e\<lparr>e_sched := s', e_decoders := (e_decoders e)(q_request q := None)\<rparr>)))"
proof -
  let ?s = "e_sched e"
  have sc: "score D ?s" using inv by (simp add: sched_inv_def)
  have xe: "x \<in> everyone ?s" using x by (simp add: everyone_def)
  have "\<not> is_finished (obj x ?s)" using running_status [OF sc xe] x by (simp add: is_finished_def)
  then obtain q where a: "seq_append_token t now (obj x ?s) = Inr q" using seq_append_token_eq by blast
  note f = seq_append_token_fields [OF a]
  have fs: "q_sampling q = q_sampling (obj x ?s)" using a by (auto simp: seq_append_token_def Let_def split: if_splits)
  let ?s1 = "put x q ?s"
  have inv1: "sched_inv D ?s1" by (rule put_token_ok [OF inv x t a])
  have x1: "x \<in> everyone ?s1" using xe by (simp add: everyone_def)
  have fin: "\<exists>s'. sched_finish D x r now st ?s1 = Inr s' \<and> q_request (obj x s') = q_request q \<and> q_sampling (obj x s') = q_sampling q" for r st
    using finish_ok [OF inv1 x1, of r now st] finish_same(3) by fastforce
  have "s_by_request ?s (q_request (obj x ?s)) = Some x" using inv xe by (simp add: sched_inv_def)
  then have d0: "e_decoders e (q_request q) = Some (decoder_of E (obj x ?s))" using dec f by (simp add: decoders_ok_def)
  obtain dl dec1 where feed: "sd_feed (en_decode E) [t] (decoder_of E (obj x ?s)) = (dl, dec1)" by fastforce
  have d1: "dec1 = decoder_of E q"
    using feed f fs sd_run_snoc [of "en_decode E" "map (\<lambda>t. [t]) (q_output (obj x ?s))" "[t]"]
    by (simp add: decoder_of_def)
  show ?thesis
  proof (intro exI [of _ q] exI [of _ "decoder_of E q"] conjI refl a)
    show "\<exists>text. process_token E now x t e = Inr (make_output (Some [t]) text q,
            e\<lparr>e_sched := ?s1, e_decoders := (e_decoders e)(q_request q \<mapsto> decoder_of E q)\<rparr>)
        \<or> (\<exists>r st s'. sched_finish D x r now st ?s1 = Inr s'
            \<and> process_token E now x t e = Inr (make_output (Some [t]) text (obj x s'),
                e\<lparr>e_sched := s', e_decoders := (e_decoders e)(q_request q := None)\<rparr>))"
    proof -
      let ?ended = "\<lambda>e1 reason. engine_emit E now x t reason e1"
      have stay: "\<exists>text. engine_emit E now x t None (e\<lparr>e_sched := ?s1\<rparr>) = Inr (make_output (Some [t]) text q,
            e\<lparr>e_sched := ?s1, e_decoders := (e_decoders e)(q_request q \<mapsto> decoder_of E q)\<rparr>)" if "dl_stop dl = None"
        using that d0 feed d1 by (intro exI [of _ "dl_text dl"]) (simp add: engine_emit_def)
      have stop: "\<exists>text s'. sched_finish D x Stop now None ?s1 = Inr s' \<and>
          engine_emit E now x t None (e\<lparr>e_sched := ?s1\<rparr>) = Inr (make_output (Some [t]) text (obj x s'),
            e\<lparr>e_sched := s', e_decoders := (e_decoders e)(q_request q := None)\<rparr>)" if "dl_stop dl \<noteq> None"
        using that d0 feed D fin [of Stop None] by (auto simp add: engine_emit_def)
      have gone: "\<exists>text. engine_emit E now x t (Some r) (e\<lparr>e_sched := s'\<rparr>) = Inr (make_output (Some [t]) text (obj x s'),
            e\<lparr>e_sched := s', e_decoders := (e_decoders e)(q_request q := None)\<rparr>)" if "q_request (obj x s') = q_request q" for r s'
        using that d0 feed by (cases "dl_stop dl = None") (auto simp add: engine_emit_def split: prod.splits)
      show ?thesis
      proof (cases "check_stop t None q")
        case (Some r)
        let ?st = "if r = Stop then Some t else None"
        obtain s' where s': "sched_finish D x r now ?st ?s1 = Inr s'" "q_request (obj x s') = q_request q"
          using fin [of r ?st] by blast
        have "append_token D x t None now ?s = Inr (Some r, s')" using a Some s'(1) by (simp add: append_token_def)
        then have "process_token E now x t e = engine_emit E now x t (Some r) (e\<lparr>e_sched := s'\<rparr>)"
          by (simp add: process_token_def D)
        then show ?thesis using gone [OF s'(2), of r] s'(1) by metis
      next
        case None
        then have ap: "append_token D x t None now ?s = Inr (None, ?s1)" using a by (simp add: append_token_def)
        show ?thesis
        proof (cases "t \<in> en_eos E \<and> \<not> ignore_eos (q_sampling q)")
          case True
          obtain s' where s': "sched_finish D x Stop now (Some t) ?s1 = Inr s'" "q_request (obj x s') = q_request q"
            using fin [of Stop "Some t"] by blast
          have "process_token E now x t e = engine_emit E now x t (Some Stop) (e\<lparr>e_sched := s'\<rparr>)"
            using ap True s'(1) by (simp add: process_token_def D)
          then show ?thesis using gone [OF s'(2), of Stop] s'(1) by metis
        next
          case False
          then have p: "process_token E now x t e = engine_emit E now x t None (e\<lparr>e_sched := ?s1\<rparr>)"
            using ap by (auto simp add: process_token_def D)
          show ?thesis
          proof (cases "dl_stop dl = None")
            case True
            then show ?thesis using stay p by metis
          next
            case False
            then show ?thesis using stop p by metis
          qed
        qed
      qed
    qed
  qed
qed

abbreviation pool_size :: "sched \<Rightarrow> nat" where
  "pool_size s \<equiv> a_num_blocks (bm_alloc (s_bm s))"

definition took :: "digest \<Rightarrow> env \<Rightarrow> nat \<Rightarrow> int \<Rightarrow> engine \<Rightarrow> request_output \<Rightarrow> engine \<Rightarrow> bool" where
  "took D E x t e out e' \<longleftrightarrow> sched_inv D (e_sched e') \<and> decoders_ok E e'
     \<and> gained t (obj x (e_sched e)) (obj x (e_sched e')) \<and> (\<forall>y. y \<noteq> x \<longrightarrow> obj y (e_sched e') = obj y (e_sched e))
     \<and> set (s_running (e_sched e)) - {x} \<subseteq> set (s_running (e_sched e'))
     \<and> s_config (e_sched e') = s_config (e_sched e) \<and> s_counter (e_sched e') = s_counter (e_sched e)
     \<and> pool_size (e_sched e') = pool_size (e_sched e)
     \<and> e' = e\<lparr>e_sched := e_sched e', e_decoders := e_decoders e'\<rparr>
     \<and> o_request out = q_request (obj x (e_sched e)) \<and> o_new_tokens out = [t]
     \<and> o_output_tokens out = length (q_output (obj x (e_sched e')))
     \<and> everyone (e_sched e) - {x} \<subseteq> everyone (e_sched e') \<and> everyone (e_sched e') \<subseteq> everyone (e_sched e)
     \<and> (o_finished out \<longleftrightarrow> x \<notin> everyone (e_sched e'))
     \<and> (if x \<in> everyone (e_sched e')
        then \<exists>now q. seq_append_token t now (obj x (e_sched e)) = Inr q \<and> e_sched e' = put x q (e_sched e)
        else is_finished (obj x (e_sched e')))"

lemma token_gained: "seq_append_token t now q = Inr q' \<Longrightarrow> gained t q q'"
  by (auto simp: seq_append_token_def gained_def Let_def split: if_splits)

lemma finished_gained: "gained t q q' \<Longrightarrow> gained t q ((seq_finish r now st q')\<lparr>q_table := []\<rparr>)"
  by (auto simp: gained_def seq_finish_def)

lemma decoders_upd:
  assumes dec: "decoders_ok E e" and inv: "sched_inv D (e_sched e)" and x: "x \<in> everyone (e_sched e)"
    and r: "r = q_request (obj x (e_sched e))" and oth: "\<And>y. y \<noteq> x \<Longrightarrow> obj y s' = obj y (e_sched e)"
    and br: "s_by_request s' = (s_by_request (e_sched e))(r := v)" and v: "v = None \<or> v = Some x"
    and d: "d = map_option (\<lambda>x. decoder_of E (obj x s')) v"
  shows "decoders_ok E (e\<lparr>e_sched := s', e_decoders := (e_decoders e)(r := d)\<rparr>)"
proof -
  have "y \<noteq> x" if "s_by_request (e_sched e) r' = Some y" "r' \<noteq> r" for r' y
    using that inv r by (auto simp: sched_inv_def)
  then show ?thesis
    using dec oth d by (auto simp: decoders_ok_def br map_option_case split: option.splits)
qed

lemma process_token_ok:
  assumes inv: "sched_inv D (e_sched e)" and x: "x \<in> set (s_running (e_sched e))" and t: "fits64 t"
    and dec: "decoders_ok E e" and D: "en_digest E = D"
  shows "\<exists>out e'. process_token E now x t e = Inr (out, e') \<and> took D E x t e out e'
    \<and> (contents_ok D S kv (e_sched e) \<longrightarrow> messages_in D S (bsize (e_sched e)) (obj x (e_sched e')) \<longrightarrow>
       (q_preemptions (obj x (e_sched e)) = 0 \<longrightarrow> num_tokens (obj x (e_sched e)) \<le> q_computed (obj x (e_sched e))) \<longrightarrow>
       contents_ok D S kv (e_sched e'))"
proof -
  let ?s = "e_sched e"
  have xe: "x \<in> everyone ?s" using x by (simp add: everyone_def)
  obtain q tx where a: "seq_append_token t now (obj x ?s) = Inr q"
    and c: "process_token E now x t e = Inr (make_output (Some [t]) tx q,
            e\<lparr>e_sched := put x q ?s, e_decoders := (e_decoders e)(q_request q \<mapsto> decoder_of E q)\<rparr>)
        \<or> (\<exists>r st s'. sched_finish D x r now st (put x q ?s) = Inr s'
            \<and> process_token E now x t e = Inr (make_output (Some [t]) tx (obj x s'),
                e\<lparr>e_sched := s', e_decoders := (e_decoders e)(q_request q := None)\<rparr>))"
    using process_token_cases [OF inv x t dec D] by blast
  let ?s1 = "put x q ?s"
  note g = token_gained [OF a] and f = seq_append_token_fields [OF a]
  have inv1: "sched_inv D ?s1" by (rule put_token_ok [OF inv x t a])
  have ev1: "everyone ?s1 = everyone ?s" by (simp add: everyone_def)
  have br: "s_by_request ?s (q_request q) = Some x" using inv xe f by (simp add: sched_inv_def)
  have "\<not> is_finished q" using running_status [of D ?s x] inv xe x f by (simp add: sched_inv_def is_finished_def)
  have keep: "contents_ok D S kv ?s1"
    if "contents_ok D S kv ?s" "messages_in D S (bsize ?s) q" "q_preemptions (obj x ?s) = 0 \<longrightarrow> num_tokens (obj x ?s) \<le> q_computed (obj x ?s)"
    using append_contents [OF inv that(1) x a that(2)] that(3) g by (simp add: gained_def)
  from c show ?thesis
  proof (elim disjE exE conjE)
    assume p: "process_token E now x t e = Inr (make_output (Some [t]) tx q,
            e\<lparr>e_sched := ?s1, e_decoders := (e_decoders e)(q_request q \<mapsto> decoder_of E q)\<rparr>)"
    let ?e = "e\<lparr>e_sched := ?s1, e_decoders := (e_decoders e)(q_request q \<mapsto> decoder_of E q)\<rparr>"
    have "decoders_ok E ?e"
      by (rule decoders_upd [OF dec inv xe, of _ _ "Some x"]) (use f br in auto)
    then have "took D E x t e (make_output (Some [t]) tx q) ?e"
      using inv1 g f br xe ev1 a \<open>\<not> is_finished q\<close> by (auto simp: took_def make_output_def num_output_tokens_def)
    then show ?thesis using p keep by auto
  next
    fix r st s' assume s': "sched_finish D x r now st ?s1 = Inr s'"
      and p: "process_token E now x t e = Inr (make_output (Some [t]) tx (obj x s'),
                e\<lparr>e_sched := s', e_decoders := (e_decoders e)(q_request q := None)\<rparr>)"
    let ?e = "e\<lparr>e_sched := s', e_decoders := (e_decoders e)(q_request q := None)\<rparr>"
    have x1: "x \<in> everyone ?s1" using xe ev1 by simp
    have fo: "sched_inv D s' \<and> obj x s' = (seq_finish r now st q)\<lparr>q_table := []\<rparr> \<and> (\<forall>y. y \<noteq> x \<longrightarrow> obj y s' = obj y ?s)
        \<and> s_by_request s' = (s_by_request ?s)(q_request q := None) \<and> s_config s' = s_config ?s \<and> s_counter s' = s_counter ?s
        \<and> everyone s' = everyone ?s - {x} \<and> pool_size s' = pool_size ?s"
      using ev1 finish_ok [OF inv1 x1, of r now st] s' by auto
    have run: "set (s_running ?s) - {x} \<subseteq> set (s_running s')" using sched_finish_parts [OF s'] by auto (metis in_set_remove1)
    have gx: "gained t (obj x ?s) (obj x s')" using finished_gained [OF g] fo by simp
    have "decoders_ok E ?e"
      by (rule decoders_upd [OF dec inv xe, of _ _ None]) (use f fo in auto)
    then have "took D E x t e (make_output (Some [t]) tx (obj x s')) ?e"
      using fo gx run f unfolding took_def
      by (simp add: make_output_def num_output_tokens_def is_finished_def)
    moreover have "messages_in D S b (obj x s') = messages_in D S b q" for b
      by (rule messages_in_same) (use fo in \<open>simp_all add: token_ids_def\<close>)
    ultimately show ?thesis using p keep finish_contents [OF inv1 _ x1 s'] by auto
  qed
qed

section \<open>The loop over the sampled tokens\<close>

definition out_of :: "engine \<Rightarrow> engine \<Rightarrow> ssched \<times> int \<Rightarrow> request_output \<Rightarrow> bool" where
  "out_of e e' = (\<lambda>(d, t) out. o_request out = q_request (obj (d_seq d) (e_sched e)) \<and> o_new_tokens out = [t]
     \<and> o_output_tokens out = length (q_output (obj (d_seq d) (e_sched e')))
     \<and> (o_finished out \<longleftrightarrow> d_seq d \<notin> everyone (e_sched e')))"

definition pair_new :: "engine \<Rightarrow> ssched \<times> int \<Rightarrow> bool" where
  "pair_new e = (\<lambda>(d, t). d_seq d \<in> set (s_running (e_sched e)) \<and> fits64 t)"

definition pair_done :: "engine \<Rightarrow> engine \<Rightarrow> ssched \<times> int \<Rightarrow> bool" where
  "pair_done e e' = (\<lambda>(d, t). gained t (obj (d_seq d) (e_sched e)) (obj (d_seq d) (e_sched e')))"

definition pair_contents :: "digest \<Rightarrow> bytes set \<Rightarrow> engine \<Rightarrow> engine \<Rightarrow> ssched \<times> int \<Rightarrow> bool" where
  "pair_contents D S e e' = (\<lambda>(d, t). messages_in D S (bsize (e_sched e)) (obj (d_seq d) (e_sched e'))
     \<and> (q_preemptions (obj (d_seq d) (e_sched e)) = 0 \<longrightarrow>
          num_tokens (obj (d_seq d) (e_sched e)) \<le> q_computed (obj (d_seq d) (e_sched e))))"

definition looped :: "digest \<Rightarrow> env \<Rightarrow> (ssched \<times> int) list \<Rightarrow> engine \<Rightarrow> request_output list \<Rightarrow> engine \<Rightarrow> bool" where
  "looped D E ps e outs e' \<longleftrightarrow> sched_inv D (e_sched e') \<and> decoders_ok E e'
     \<and> list_all (pair_done e e') ps \<and> list_all2 (out_of e e') ps outs
     \<and> (\<forall>y. y \<notin> (\<lambda>(d, t). d_seq d) ` set ps \<longrightarrow>
          obj y (e_sched e') = obj y (e_sched e) \<and> (y \<in> everyone (e_sched e') \<longleftrightarrow> y \<in> everyone (e_sched e)))
     \<and> s_config (e_sched e') = s_config (e_sched e) \<and> s_counter (e_sched e') = s_counter (e_sched e)
     \<and> pool_size (e_sched e') = pool_size (e_sched e)
     \<and> e' = e\<lparr>e_sched := e_sched e', e_decoders := e_decoders e'\<rparr>"

lemma process_loop_ok:
  assumes "sched_inv D (e_sched e)" "decoders_ok E e" "en_digest E = D"
    and "distinct (map (\<lambda>(d, t). d_seq d) ps)" "list_all (pair_new e) ps"
  shows "\<exists>outs e'. process_loop E now ps e = Inr (outs, e') \<and> looped D E ps e outs e'
     \<and> (contents_ok D S kv (e_sched e) \<longrightarrow> list_all (pair_contents D S e e') ps \<longrightarrow> contents_ok D S kv (e_sched e'))"
  using assms
proof (induction ps arbitrary: e)
  case Nil
  then show ?case by (intro exI [of _ "[]"] exI [of _ e]) (simp add: looped_def)
next
  case (Cons p ps)
  obtain d t where p: "p = (d, t)" by fastforce
  let ?x = "d_seq d" and ?s = "e_sched e"
  have x: "?x \<in> set (s_running ?s)" "fits64 t" using Cons.prems(5) p by (simp_all add: pair_new_def)
  have nx: "?x \<noteq> d_seq d'" if "(d', t') \<in> set ps" for d' t' using Cons.prems(4) p that by force
  have xe: "?x \<in> everyone ?s" using x by (simp add: everyone_def)
  have nf: "\<not> is_finished (obj ?x ?s)"
    using running_status [of D ?s ?x] Cons.prems(1) xe x by (simp add: sched_inv_def is_finished_def)
  obtain out e1 where 1: "process_token E now ?x t e = Inr (out, e1)" "took D E ?x t e out e1"
    "contents_ok D S kv ?s \<longrightarrow> messages_in D S (bsize ?s) (obj ?x (e_sched e1)) \<longrightarrow>
       (q_preemptions (obj ?x ?s) = 0 \<longrightarrow> num_tokens (obj ?x ?s) \<le> q_computed (obj ?x ?s)) \<longrightarrow> contents_ok D S kv (e_sched e1)"
    using process_token_ok [OF Cons.prems(1) x Cons.prems(2,3)] by blast
  note T = 1(2) [unfolded took_def]
  have o1: "obj (d_seq d') (e_sched e1) = obj (d_seq d') ?s" if "(d', t') \<in> set ps" for d' t' using nx [OF that] T by metis
  have bs1: "bsize (e_sched e1) = bsize ?s" using T Cons.prems(1) by (simp add: sched_inv_def)
  have new: "list_all (pair_new e1) ps"
    using Cons.prems(5) nx T by (fastforce simp: list_all_iff pair_new_def)
  have "distinct (map (\<lambda>(d, t). d_seq d) ps)" using Cons.prems(4) by simp
  from Cons.IH [OF _ _ Cons.prems(3) this new] T
  obtain outs e2 where 2: "process_loop E now ps e1 = Inr (outs, e2)" "looped D E ps e1 outs e2"
    "contents_ok D S kv (e_sched e1) \<longrightarrow> list_all (pair_contents D S e1 e2) ps \<longrightarrow> contents_ok D S kv (e_sched e2)"
    by blast
  note L = 2(2) [unfolded looped_def]
  have nps: "?x \<notin> (\<lambda>(d, t). d_seq d) ` set ps" using nx by fastforce
  have x2: "obj ?x (e_sched e2) = obj ?x (e_sched e1)" "?x \<in> everyone (e_sched e2) \<longleftrightarrow> ?x \<in> everyone (e_sched e1)"
    using L nps by blast+
  have ge: "pair_done e1 e2 q \<longleftrightarrow> pair_done e e2 q" "out_of e1 e2 q = out_of e e2 q"
    "pair_contents D S e1 e2 q \<longleftrightarrow> pair_contents D S e e2 q" if "q \<in> set ps" for q
    using that o1 bs1 by (auto simp: pair_done_def out_of_def pair_contents_def fun_eq_iff split: prod.splits)
  have "looped D E (p # ps) e (out # outs) e2"
    unfolding looped_def
  proof (intro conjI allI impI)
    show "list_all (pair_done e e2) (p # ps)"
      using T L x2 ge(1) p by (auto simp: list_all_iff pair_done_def)
    show "list_all2 (out_of e e2) (p # ps) (out # outs)"
    proof -
      have "list_all2 (out_of e1 e2) ps outs" using L by blast
      then have "list_all2 (out_of e e2) ps outs"
        by (rule list.rel_mono_strong) (simp add: ge(2))
      moreover have "out_of e e2 p out" using T x2 p by (simp add: out_of_def)
      ultimately show ?thesis by simp
    qed
    show "e2 = e\<lparr>e_sched := e_sched e2, e_decoders := e_decoders e2\<rparr>"
    proof -
      have "e1 = e\<lparr>e_sched := e_sched e1, e_decoders := e_decoders e1\<rparr>"
        "e2 = e1\<lparr>e_sched := e_sched e2, e_decoders := e_decoders e2\<rparr>" using T L by blast+
      then show ?thesis by (cases e, cases e1, cases e2) simp
    qed
    fix y assume "y \<notin> (\<lambda>(d, t). d_seq d) ` set (p # ps)"
    then have "y \<noteq> ?x" "y \<notin> (\<lambda>(d, t). d_seq d) ` set ps" using p by auto
    then show "obj y (e_sched e2) = obj y ?s" "y \<in> everyone (e_sched e2) \<longleftrightarrow> y \<in> everyone ?s" using T L by auto
  qed (use T L in simp_all)
  moreover have "process_loop E now (p # ps) e = Inr (out # outs, e2)" using 1(1) 2(1) nf p by simp
  moreover have "contents_ok D S kv (e_sched e2)"
    if "contents_ok D S kv ?s" "list_all (pair_contents D S e e2) (p # ps)"
    using that 1(3) 2(3) x2 ge(3) p by (simp add: list_all_iff pair_contents_def)
  ultimately show ?case by blast
qed

section \<open>The invariant of the engine\<close>

text \<open>
  \<open>faithful\<close>: the output is what a dense cache that only ever saw this request would generate.
  With chunked prefill it is promised for sequences that were never preempted.
\<close>

definition faithful :: "next_token \<Rightarrow> seqn \<Rightarrow> bool" where
  "faithful M q \<longleftrightarrow> q_output q = dense_generate M (q_sampling q) (q_lora q) (q_prompt q) (length (q_output q))"

definition promised :: "sched \<Rightarrow> seqn \<Rightarrow> bool" where
  "promised s q \<longleftrightarrow> \<not> enable_chunked_prefill (s_config s) \<or> q_preemptions q = 0"

text \<open>\<open>P\<close> selects requests by their sampling parameters; here it is all of them.\<close>

definition all_faithful :: "(sampling \<Rightarrow> bool) \<Rightarrow> next_token \<Rightarrow> sched \<Rightarrow> bool" where
  "all_faithful P M s \<longleftrightarrow>
     (\<forall>x < s_counter s. P (q_sampling (obj x s)) \<longrightarrow> promised s (obj x s) \<longrightarrow> faithful M (obj x s))"

definition engine_inv :: "(sampling \<Rightarrow> bool) \<Rightarrow> bytes set \<Rightarrow> env \<Rightarrow> engine \<Rightarrow> bool" where
  "engine_inv P S E e \<longleftrightarrow> sched_inv (en_digest E) (e_sched e) \<and> contents_ok (en_digest E) S (e_kv e) (e_sched e)
     \<and> decoders_ok E e \<and> all_faithful P (en_model E) (e_sched e)"

abbreviation engine_ok :: "bytes set \<Rightarrow> env \<Rightarrow> engine \<Rightarrow> bool" where
  "engine_ok \<equiv> engine_inv (\<lambda>_. True)"

lemmas engine_ok_def = engine_inv_def [of "\<lambda>_. True"]

text \<open>The messages the requests of a state stand for, finished ones included, are in \<open>S\<close>.\<close>

definition seen :: "bytes set \<Rightarrow> env \<Rightarrow> engine \<Rightarrow> bool" where
  "seen S E e \<longleftrightarrow> (\<forall>x < s_counter (e_sched e). messages_in (en_digest E) S (bsize (e_sched e)) (obj x (e_sched e)))"

lemma faithful_same:
  "q_output q' = q_output q \<Longrightarrow> q_prompt q' = q_prompt q \<Longrightarrow> q_lora q' = q_lora q \<Longrightarrow> q_sampling q' = q_sampling q \<Longrightarrow>
   faithful M q' = faithful M q"
  by (simp add: faithful_def)

lemma world_faithful:
  assumes w: "world s s'" and f: "all_faithful P M s" shows "all_faithful P M s'"
  unfolding all_faithful_def
proof (intro allI impI)
  fix x assume x: "x < s_counter s'" "P (q_sampling (obj x s'))" "promised s' (obj x s')"
  have same: "same_seq (obj x s) (obj x s')" "s_config s' = s_config s" "s_counter s' = s_counter s"
    using w by (simp_all add: world_def)
  then have "promised s (obj x s)" "P (q_sampling (obj x s))" using x(2,3) by (auto simp: promised_def same_seq_def)
  then have "faithful M (obj x s)" using f x(1) same(3) by (simp add: all_faithful_def)
  moreover have "faithful M (obj x s') = faithful M (obj x s)"
    by (rule faithful_same) (use same(1) in \<open>auto simp: same_seq_def\<close>)
  ultimately show "faithful M (obj x s')" by simp
qed

lemma world_decoders: "world (e_sched e) s \<Longrightarrow> decoders_ok E e \<Longrightarrow> decoders_ok E (e\<lparr>e_sched := s\<rparr>)"
proof -
  assume w: "world (e_sched e) s" and d: "decoders_ok E e"
  have "decoder_of E (obj x s) = decoder_of E (obj x (e_sched e))" for x
  proof -
    have "same_seq (obj x (e_sched e)) (obj x s)" using w by (simp add: world_def)
    then show ?thesis unfolding decoder_of_def same_seq_def by presburger
  qed
  moreover have "s_by_request s = s_by_request (e_sched e)" using w by (simp add: world_def)
  ultimately show ?thesis using d by (simp add: decoders_ok_def)
qed

lemma dense_token_faithful:
  assumes g: "gained t q q'" and f: "faithful M q" and t: "t = dense_token M q (num_tokens q)"
  shows "faithful M q'"
proof -
  have ts: "q_prompt q @ q_output q = token_ids q" by (simp add: token_ids_def)
  have "t = M (q_sampling q) (history_of (q_sampling q) (token_ids q)) (kv_prefix (q_lora q) (token_ids q))"
    using t by (simp add: dense_token_def token_history_def history_of_def num_tokens_token_ids)
  then show ?thesis
    using g f by (simp add: faithful_def gained_def Let_def ts)
qed

text \<open>Where a promised sequence is sampled, all of its tokens have been computed.\<close>

lemma sampled_complete:
  assumes inv: "sched_inv D s" and b: "batch_ok s out" and st: "staged_batch D S kv s out"
    and d: "d \<in> set (sampled out)" and p: "promised s (obj (d_seq d) s)"
  shows "d_context_len d = num_tokens (obj (d_seq d) s)"
proof -
  have ds: "d \<in> set (out_scheduled out)" "samples_token d" using d by (simp_all add: sampled_def)
  note f = item_facts [OF batch_item(1) [OF inv b ds(1)], folded obj_def]
  have i: "caught_up (obj (d_seq d) s) (item_start d)"
    "\<not> enable_chunked_prefill (s_config s) \<longrightarrow> d_context_len d = num_tokens (obj (d_seq d) s)"
    using st ds(1) by (auto simp: staged_batch_def item_staged_def)
  show ?thesis
  proof (cases "enable_chunked_prefill (s_config s)")
    case True
    then have "q_output (obj (d_seq d) s) = [] \<or> num_tokens (obj (d_seq d) s) \<le> item_start d + 1"
      using i(1) p by (simp add: caught_up_def promised_def)
    moreover have "item_start d + 1 \<le> d_context_len d" using f(1,2) by (simp add: item_start_def)
    moreover have "num_prompt_tokens (obj (d_seq d) s) \<le> d_context_len d" using f(8) ds(2) by simp
    ultimately show ?thesis using f(3,4) by (auto simp: num_tokens_def num_prompt_tokens_def)
  qed (use i(2) in simp)
qed

text \<open>What one step did: the batch, and the output for each sampled item.\<close>

definition stepped :: "bytes set \<Rightarrow> env \<Rightarrow> rat \<Rightarrow> engine \<Rightarrow> request_output list \<Rightarrow> engine \<Rightarrow> bool" where
  "stepped S E now e outs e' \<longleftrightarrow> (\<exists>out s kv. schedule (en_digest E) now (e_sched e) = Inr (out, s) \<and> world (e_sched e) s
     \<and> batch_ok s out \<and> e_closed e' = e_closed e
     \<and> looped (en_digest E) E (map (\<lambda>d. (d, dense_token (en_model E) (obj (d_seq d) s) (d_context_len d))) (sampled out))
          (e\<lparr>e_sched := s, e_kv := kv\<rparr>) outs (e'\<lparr>e_generated := e_generated e\<rparr>)
     \<and> e_generated e' = e_generated e + length outs)"

lemma engine_step_ok:
  assumes ok: "engine_inv P S E e" and dg: "digest_ok (en_digest E) S" and op: "\<not> e_closed e"
    and M: "\<forall>p h ks. fits64 (en_model E p h ks)"
  shows "\<exists>outs e'. engine_step E now e = Inr (outs, e') \<and> stepped S E now e outs e'
    \<and> (seen S E e' \<longrightarrow> engine_inv P S E e')"
proof -
  let ?D = "en_digest E" and ?M = "en_model E"
  have inv: "sched_inv ?D (e_sched e)" and c: "contents_ok ?D S (e_kv e) (e_sched e)"
    and dec: "decoders_ok E e" and fa: "all_faithful P ?M (e_sched e)" using ok by (simp_all add: engine_inv_def)
  obtain out s where s: "schedule ?D now (e_sched e) = Inr (out, s)" "sched_inv ?D s" "world (e_sched e) s" "batch_ok s out"
    using schedule_ok [OF inv] by blast
  note st = schedule_staged [OF inv c dg s(1)]
  have fs: "all_faithful P ?M s" by (rule world_faithful [OF s(3) fa])
  show ?thesis
  proof (cases "out_is_empty out")
    case True
    have run: "engine_step E now e = Inr ([], e\<lparr>e_sched := s\<rparr>)" using s(1) True op by (simp add: engine_step_def)
    have nil: "out_scheduled out = []" using True by (simp add: out_is_empty_def)
    have c': "contents_ok ?D S (e_kv e) s"
      using st nil by (simp add: staged_batch_def contents_ok_def)
    have d': "decoders_ok E (e\<lparr>e_sched := s\<rparr>)" by (rule world_decoders [OF s(3) dec])
    have "stepped S E now e [] (e\<lparr>e_sched := s\<rparr>)"
      unfolding stepped_def
      by (intro exI [of _ out] exI [of _ s] exI [of _ "e_kv e"])
        (use s nil d' in \<open>simp add: looped_def sampled_def decoders_ok_def\<close>)
    then show ?thesis using run c' d' s(2) fs by (auto simp: engine_inv_def)
  next
    case False
    let ?tok = "\<lambda>d. dense_token ?M (obj (d_seq d) s) (d_context_len d)"
    let ?ps = "map (\<lambda>d. (d, ?tok d)) (sampled out)"
    obtain kv where kv: "execute ?M (cfg_block_size (s_config s)) s out (e_kv e)
        = Inr (\<lparr>so_items = sampled out, so_tokens = map ?tok (sampled out)\<rparr>, kv)" "contents_ok ?D S kv s"
      using execute_ok [OF s(2,4) st False, of ?M] by blast
    let ?e = "e\<lparr>e_sched := s, e_kv := kv\<rparr>"
    have ps: "step_pairs \<lparr>so_items = sampled out, so_tokens = map ?tok (sampled out)\<rparr> = ?ps"
      by (simp add: step_pairs_def zip_map2 zip_same_conv_map)
    have d1: "decoders_ok E ?e" using world_decoders [OF s(3) dec] by (simp add: decoders_ok_def)
    have dist: "distinct (map (\<lambda>(d, t). d_seq d) ?ps)"
      using s(4) by (simp add: batch_ok_def sampled_def o_def distinct_map_filter)
    have mem: "d_seq d \<in> set (s_running s)" if "d \<in> set (sampled out)" for d
      using s(4) that by (auto simp: batch_ok_def sampled_def)
    have new: "list_all (pair_new ?e) ?ps"
      using mem M by (auto simp: list_all_iff pair_new_def dense_token_def)
    obtain outs e2 where 2: "process_loop E now ?ps ?e = Inr (outs, e2)" "looped ?D E ?ps ?e outs e2"
      "contents_ok ?D S kv s \<longrightarrow> list_all (pair_contents ?D S ?e e2) ?ps \<longrightarrow> contents_ok ?D S kv (e_sched e2)"
      using process_loop_ok [of ?D ?e E ?ps now S kv] s(2) d1 dist new by auto
    note L = 2(2) [unfolded looped_def]
    let ?e2 = "e2\<lparr>e_generated := e_generated e2 + length outs\<rparr>"
    have e2: "e_generated e2 = e_generated e" "e_kv e2 = kv" "e_closed e2 = e_closed e"
    proof -
      have "e2 = ?e\<lparr>e_sched := e_sched e2, e_decoders := e_decoders e2\<rparr>" using L by blast
      then show "e_generated e2 = e_generated e" "e_kv e2 = kv" "e_closed e2 = e_closed e"
        by (metis engine.select_convs engine.surjective engine.update_convs(1,2,3))+
    qed
    have run: "engine_step E now e = Inr (outs, ?e2)"
      using s(1) False op kv(1) ps 2(1) by (simp add: engine_step_def engine_process_def)
    have "stepped S E now e outs ?e2"
      unfolding stepped_def
    proof (intro exI [of _ out] exI [of _ s] exI [of _ kv] conjI)
      have "?e2\<lparr>e_generated := e_generated e\<rparr> = e2" using e2(1) by (cases e2) simp
      then show "looped ?D E ?ps ?e outs (?e2\<lparr>e_generated := e_generated e\<rparr>)" using 2(2) by simp
    qed (use s e2 in simp_all)
    moreover have "engine_inv P S E ?e2" if seen: "seen S E ?e2"
    proof -
      have g: "gained (?tok d) (obj (d_seq d) s) (obj (d_seq d) (e_sched e2))" if "d \<in> set (sampled out)" for d
        using L that by (auto simp: list_all_iff pair_done_def)
      have cnt: "x < s_counter (e_sched e2)" if "x \<in> everyone s" for x
        using that s(2) L by (simp add: sched_inv_def)
      have bs: "bsize (e_sched e2) = bsize s" using L s(2) by (simp add: sched_inv_def)
      have "pair_contents ?D S ?e e2 (d, ?tok d)" if d: "d \<in> set (sampled out)" for d
      proof -
        have "d_seq d \<in> everyone s" using mem [OF d] by (simp add: everyone_def)
        then have "messages_in ?D S (bsize s) (obj (d_seq d) (e_sched e2))"
          using seen cnt bs by (simp add: seen_def)
        moreover have "num_tokens (obj (d_seq d) s) \<le> q_computed (obj (d_seq d) s)" if "q_preemptions (obj (d_seq d) s) = 0"
        proof -
          have "d_context_len d = num_tokens (obj (d_seq d) s)"
            using sampled_complete [OF s(2,4) st d] that by (simp add: promised_def)
          moreover have "d \<in> set (out_scheduled out)" using d by (simp add: sampled_def)
          ultimately show ?thesis using item_facts(3) [OF batch_item(1) [OF s(2,4)]] by (simp add: obj_def)
        qed
        ultimately show ?thesis by (simp add: pair_contents_def)
      qed
      then have "list_all (pair_contents ?D S ?e e2) ?ps" by (simp add: list_all_iff)
      then have c2: "contents_ok ?D S kv (e_sched e2)" using 2(3) kv(2) by blast
      have "all_faithful P ?M (e_sched e2)"
        unfolding all_faithful_def
      proof (intro allI impI)
        fix x assume x: "x < s_counter (e_sched e2)" "P (q_sampling (obj x (e_sched e2)))"
          "promised (e_sched e2) (obj x (e_sched e2))"
        have xs: "x < s_counter s" "s_config (e_sched e2) = s_config s" using x L by simp_all
        show "faithful ?M (obj x (e_sched e2))"
        proof (cases "x \<in> d_seq ` set (sampled out)")
          case True
          then obtain d where d: "d \<in> set (sampled out)" "x = d_seq d" by blast
          have p: "promised s (obj x s)" "P (q_sampling (obj x s))"
            using x(2,3) xs(2) g [OF d(1)] d(2) by (simp_all add: promised_def gained_def)
          then have "faithful ?M (obj x s)" using fs xs by (simp add: all_faithful_def)
          then show ?thesis
            using dense_token_faithful [OF g [OF d(1)]] sampled_complete [OF s(2,4) st d(1)] p d(2) by simp
        next
          case False
          then have "obj x (e_sched e2) = obj x s" using L by (auto simp: image_image)
          then show ?thesis using fs xs x(2,3) by (simp add: all_faithful_def promised_def)
        qed
      qed
      moreover have "decoders_ok E ?e2" using L by (simp add: decoders_ok_def)
      ultimately show ?thesis using L c2 e2(2) by (simp add: engine_inv_def)
    qed
    ultimately show ?thesis using run by blast
  qed
qed

end
