(* ===== verification/Engine_Reach.thy ===== *)
theory Engine_Reach
  imports Engine
begin

text \<open>
  The states an engine can be in: whatever a client does, in any order, from a fresh engine.
  \<open>engine_run S E n cfg\<close> restricts the clients in two ways only: token ids and adapter slots fit 64
  bits (\<open>torch.int64\<close>, and the digest encodes them in eight bytes), and the messages hashed during
  the run stay in \<open>S\<close>, a set on which the digest has no collision.
\<close>

datatype engine_call =
    Submit string "utext + int list" "sampling option" string int int rat
  | Cancel string rat
  | StepAt rat
  | CloseEngine

definition call_fits :: "env \<Rightarrow> engine_call \<Rightarrow> bool" where
  "call_fits E c = (case c of Submit rid prompt params tenant prio lora arrival \<Rightarrow> encodable lora (prompt_ids E prompt)
     | _ \<Rightarrow> True)"

definition engine_do :: "env \<Rightarrow> engine_call \<Rightarrow> engine \<Rightarrow> py_error + (request_output list \<times> engine)" where
  "engine_do E c e = (case c of
     Submit rid prompt params tenant prio lora arrival \<Rightarrow>
       rbind (engine_add E rid prompt params tenant prio lora arrival e) (\<lambda>(_, e'). Inr ([], e'))
   | Cancel rid now \<Rightarrow> rbind (engine_abort E rid now e) (\<lambda>(_, e'). Inr ([], e'))
   | StepAt now \<Rightarrow> engine_step E now e
   | CloseEngine \<Rightarrow> Inr ([], engine_close e))"

inductive engine_run :: "bytes set \<Rightarrow> env \<Rightarrow> nat \<Rightarrow> scheduler_config \<Rightarrow> engine \<Rightarrow> bool" for S E n cfg where
  engine_fresh: "engine_init n cfg = Inr e \<Longrightarrow> engine_run S E n cfg e"
| engine_call: "engine_run S E n cfg e \<Longrightarrow> call_fits E c \<Longrightarrow> engine_do E c e = Inr (outs, e') \<Longrightarrow> seen S E e' \<Longrightarrow>
     engine_run S E n cfg e'"

text \<open>What is asked of the environment: no collision on \<open>S\<close>, and sampled ids fit 64 bits.\<close>

definition env_ok :: "bytes set \<Rightarrow> env \<Rightarrow> bool" where
  "env_ok S E \<longleftrightarrow> digest_ok (en_digest E) S \<and> (\<forall>p h ks. fits64 (en_model E p h ks))"

section \<open>The invariant holds in all of them\<close>

lemma engine_init_ok:
  assumes "engine_init n cfg = Inr e"
  shows "engine_inv P S E e \<and> s_config (e_sched e) = cfg \<and> \<not> e_closed e \<and> pool_size (e_sched e) = n"
proof -
  obtain m s where m: "bm_create (int n) (int (cfg_block_size cfg)) (enable_prefix_caching cfg) = Inr m"
    and s: "sched_init cfg (Some m) = Inr s"
    and e: "e = \<lparr>e_sched = s, e_kv = (\<lambda>_. Blank), e_decoders = Map.empty, e_generated = 0, e_prompted = 0, e_closed = False\<rparr>"
    using assms by (auto simp: engine_init_def)
  note i = bm_create_inv [OF m]
  have f: "s_bm s = m" "s_running s = []" "s_preempted s = []" "s_seqs s = Map.empty" "s_config s = cfg"
    "s_waiting s = wq_init (policy cfg = Tenant_Fair) (tenant_weights cfg)" "s_by_request s = Map.empty"
    "s_counter s = 0" "bm_block_size m = cfg_block_size cfg"
    using s by (auto simp: sched_init_def)
  have n: "a_num_blocks (bm_alloc m) = n"
    using m by (auto simp: bm_create_def bm_init_def alloc_init_def pc_init_def Let_def split: if_splits option.splits)
  have w: "wq_items (wq_init f w) = []" "wq_inv ten (wq_init f w)" for f w ten
    by (simp_all add: wq_init_def wq_items_def wq_inv_def)
  have inv: "sched_inv (en_digest E) s"
    using i f w by (simp add: sched_inv_def core_def queue_ok_def everyone_def)
  have c: "c_by_block (bm_cache m) = Map.empty"
    using m by (auto simp: bm_create_def bm_init_def no_cache_def pc_init_def Let_def split: if_splits option.splits)
  have "contents_ok (en_digest E) S kv s" for kv
    using c f w by (simp add: contents_ok_def cache_holds_def everyone_def)
  then show ?thesis
    using inv f e n by (simp add: engine_inv_def decoders_ok_def all_faithful_def)
qed

lemma engine_add_ok:
  assumes ok: "engine_inv P S E e" and enc: "encodable lora (prompt_ids E prompt)" and cl: "e_closed e \<longrightarrow> everyone (e_sched e) = {}"
    and r: "engine_add E rid prompt params tenant prio lora arrival e = Inr (x, e')" and seen: "seen S E e'"
  shows "engine_inv P S E e' \<and> \<not> e_closed e' \<and> s_config (e_sched e') = s_config (e_sched e)
     \<and> pool_size (e_sched e') = pool_size (e_sched e)"
proof -
  let ?D = "en_digest E" and ?s = "e_sched e"
  have inv: "sched_inv ?D ?s" and c: "contents_ok ?D S (e_kv e) ?s" and dec: "decoders_ok E e"
    and fa: "all_faithful P (en_model E) ?s" using ok by (simp_all add: engine_inv_def)
  obtain s where s: "add_request rid (prompt_ids E prompt) params tenant prio lora arrival ?s = Inr (x, s)"
    and e': "e' = e\<lparr>e_sched := s, e_decoders := (e_decoders e)(rid \<mapsto> sd_create (stop_strings (q_sampling (obj x s))) []),
               e_prompted := e_prompted e + length (prompt_ids E prompt)\<rparr>" and op: "\<not> e_closed e"
    using r by (auto simp: engine_add_def Let_def)
  have a: "sched_inv ?D s" "everyone s = insert x (everyone ?s)" "x \<notin> everyone ?s" "s_by_request s rid = Some x"
    "\<And>y. y \<noteq> x \<Longrightarrow> obj y s = obj y ?s"
    using add_request_ok [OF inv enc s] by auto
  have f: "q_output (obj x s) = []" "s_by_request s = (s_by_request ?s)(rid \<mapsto> x)" "x = s_counter ?s"
    "s_counter s = s_counter ?s + 1" "s_config s = s_config ?s" "pool_size s = pool_size ?s"
    using s by (auto simp: add_request_def add_sequence_def seq_init_def split: if_splits)
  have bs: "bsize s = bsize ?s" using a(1) inv f(5) by (simp add: sched_inv_def)
  have "messages_in ?D S (bsize ?s) (obj x s)" using seen f bs unfolding seen_def e' by simp
  then have "contents_ok ?D S (e_kv e) s" by (rule add_request_contents [OF inv c enc s])
  moreover have "decoders_ok E e'"
  proof -
    have ne: "y \<noteq> x" if "s_by_request ?s r = Some y" for r y using that inv a(3) by (auto simp: sched_inv_def)
    have "decoder_of E (obj x s) = sd_create (stop_strings (q_sampling (obj x s))) []" using f(1) by (simp add: decoder_of_def)
    then show ?thesis
      using dec ne a(5) unfolding decoders_ok_def e' by (auto simp: f(2) map_option_case split: option.splits)
  qed
  moreover have "all_faithful P (en_model E) s"
  proof -
    have "faithful (en_model E) (obj x s)" using f(1) by (simp add: faithful_def)
    then show ?thesis using fa a(5) f(3-5) unfolding all_faithful_def promised_def by (metis Suc_eq_plus1 less_SucE)
  qed
  ultimately show ?thesis using a(1) f(5,6) op by (simp add: engine_inv_def decoders_ok_def e')
qed

lemma engine_abort_ok:
  assumes ok: "engine_inv P S E e"
  shows "\<exists>hit e'. engine_abort E rid now e = Inr (hit, e') \<and> engine_inv P S E e'
     \<and> (hit \<longleftrightarrow> s_by_request (e_sched e) rid \<noteq> None) \<and> s_by_request (e_sched e') rid = None
     \<and> e_closed e' = e_closed e \<and> s_config (e_sched e') = s_config (e_sched e)
     \<and> everyone (e_sched e') \<subseteq> everyone (e_sched e) \<and> pool_size (e_sched e') = pool_size (e_sched e)"
proof (cases "s_by_request (e_sched e) rid")
  case None
  have "e_decoders e rid = None" using ok None by (simp add: engine_inv_def decoders_ok_def)
  then have "e\<lparr>e_decoders := (e_decoders e)(rid := None)\<rparr> = e" by (cases e) (simp add: fun_upd_idem)
  then have "engine_abort E rid now e = Inr (False, e)"
    using None by (simp add: engine_abort_def sched_abort_def)
  then show ?thesis using ok None by auto
next
  case (Some x)
  let ?D = "en_digest E" and ?s = "e_sched e"
  have inv: "sched_inv ?D ?s" and c: "contents_ok ?D S (e_kv e) ?s" and dec: "decoders_ok E e"
    and fa: "all_faithful P (en_model E) ?s" using ok by (simp_all add: engine_inv_def)
  have x: "x \<in> everyone ?s" "q_request (obj x ?s) = rid" using inv Some by (auto simp: sched_inv_def)
  obtain s where s: "sched_finish ?D x Abort now None ?s = Inr s" "sched_inv ?D s" "everyone s = everyone ?s - {x}"
    "obj x s = (seq_finish Abort now None (obj x ?s))\<lparr>q_table := []\<rparr>" "\<forall>y. y \<noteq> x \<longrightarrow> obj y s = obj y ?s"
    "s_by_request s = (s_by_request ?s)(rid := None)" "s_config s = s_config ?s" "s_counter s = s_counter ?s"
    "pool_size s = pool_size ?s"
    using finish_ok [OF inv x(1)] x(2) by blast
  let ?e = "e\<lparr>e_sched := s, e_decoders := (e_decoders e)(rid := None)\<rparr>"
  have run: "engine_abort E rid now e = Inr (True, ?e)" using Some s(1) by (simp add: engine_abort_def sched_abort_def)
  have "decoders_ok E ?e"
    by (rule decoders_upd [OF dec inv x(1), of _ _ None]) (use x(2) s(5,6) in auto)
  moreover have "contents_ok ?D S (e_kv e) s" by (rule finish_contents [OF inv c x(1) s(1)])
  moreover have "all_faithful P (en_model E) s"
    unfolding all_faithful_def
  proof (intro allI impI)
    fix y assume y: "y < s_counter s" "P (q_sampling (obj y s))" "promised s (obj y s)"
    show "faithful (en_model E) (obj y s)"
    proof (cases "y = x")
      case True
      have "promised ?s (obj x ?s)" "P (q_sampling (obj x ?s))" using y(2,3) True s(4,7) by (simp_all add: promised_def finish_same)
      then have "faithful (en_model E) (obj x ?s)" using fa y(1) True s(8) by (simp add: all_faithful_def)
      moreover have "faithful (en_model E) (obj x s) = faithful (en_model E) (obj x ?s)"
        by (rule faithful_same) (simp_all add: s(4) finish_same)
      ultimately show ?thesis using True by simp
    next
      case False
      then show ?thesis using y fa s(5,7,8) by (simp add: all_faithful_def promised_def)
    qed
  qed
  ultimately have "engine_inv P S E ?e" using s(2) by (simp add: engine_inv_def)
  then show ?thesis using run Some s by (intro exI [of _ True] exI [of _ ?e]) auto
qed

lemma engine_close_ok:
  assumes ok: "engine_inv P S E e"
  shows "engine_inv P S E (engine_close e) \<and> e_closed (engine_close e) \<and> s_config (e_sched (engine_close e)) = s_config (e_sched e)
     \<and> pool_size (e_sched (engine_close e)) = pool_size (e_sched e)
     \<and> ((e_closed e \<longrightarrow> everyone (e_sched e) = {}) \<longrightarrow> everyone (e_sched (engine_close e)) = {})"
proof (cases "e_closed e")
  case True
  then show ?thesis using ok by (simp add: engine_close_def)
next
  case False
  let ?D = "en_digest E" and ?s = "e_sched e"
  have inv: "sched_inv ?D ?s" and fa: "all_faithful P (en_model E) ?s" using ok by (simp_all add: engine_inv_def)
  have "s_config (sched_reset ?s) = s_config ?s" "s_counter (sched_reset ?s) = s_counter ?s" "obj x (sched_reset ?s) = obj x ?s"
    "s_by_request (sched_reset ?s) = Map.empty" "pool_size (sched_reset ?s) = pool_size ?s" for x
    by (simp_all add: sched_reset_def obj_def bm_reset_def alloc_reset_def)
  then show ?thesis
    using reset_ok [OF inv] reset_contents [OF inv] fa False
    by (simp add: engine_inv_def engine_close_def decoders_ok_def all_faithful_def promised_def)
qed

definition run_ok :: "bytes set \<Rightarrow> env \<Rightarrow> nat \<Rightarrow> scheduler_config \<Rightarrow> engine \<Rightarrow> bool" where
  "run_ok S E n cfg e \<longleftrightarrow> engine_ok S E e \<and> s_config (e_sched e) = cfg \<and> pool_size (e_sched e) = n \<and> (e_closed e \<longrightarrow> everyone (e_sched e) = {})"

lemma stepped_fields:
  assumes "stepped S E now e outs e'"
  shows "s_config (e_sched e') = s_config (e_sched e)" "e_closed e' = e_closed e"
    "pool_size (e_sched e') = pool_size (e_sched e)"
  using assms by (auto simp: stepped_def looped_def world_def)

lemma engine_run_ok:
  assumes env: "env_ok S E" and r: "engine_run S E n cfg e"
  shows "run_ok S E n cfg e"
  using r
proof induction
  case (engine_fresh e)
  then show ?case using engine_init_ok [OF engine_fresh] by (simp add: run_ok_def)
next
  case (engine_call e c outs e')
  have ok: "engine_ok S E e" and cfg: "s_config (e_sched e) = cfg" and cl: "e_closed e \<longrightarrow> everyone (e_sched e) = {}"
    and sz: "pool_size (e_sched e) = n"
    using engine_call.IH by (simp_all add: run_ok_def)
  show ?case
  proof (cases c)
    case (Submit rid prompt params tenant prio lora arrival)
    then obtain x where "engine_add E rid prompt params tenant prio lora arrival e = Inr (x, e')"
      using engine_call.hyps(3) by (auto simp: engine_do_def)
    from engine_add_ok [OF ok _ cl this engine_call.hyps(4)] engine_call.hyps(2) Submit
    show ?thesis using cfg sz by (simp add: call_fits_def run_ok_def)
  next
    case (Cancel rid now)
    then show ?thesis
      using engine_call.hyps(3) engine_abort_ok [OF ok, of rid now] cfg cl sz by (auto simp: engine_do_def run_ok_def)
  next
    case (StepAt now)
    then have s: "engine_step E now e = Inr (outs, e')" using engine_call.hyps(3) by (simp add: engine_do_def)
    then have op: "\<not> e_closed e" by (auto simp: engine_step_def)
    have env': "digest_ok (en_digest E) S" "\<forall>p h ks. fits64 (en_model E p h ks)" using env by (simp_all add: env_ok_def)
    from engine_step_ok [OF ok env'(1) op env'(2), of now] s engine_call.hyps(4)
    have "stepped S E now e outs e'" "engine_ok S E e'" by auto
    then show ?thesis using stepped_fields op cfg sz by (metis run_ok_def)
  next
    case CloseEngine
    then show ?thesis
      using engine_call.hyps(3) engine_close_ok [OF ok] cfg cl sz by (auto simp: engine_do_def run_ok_def)
  qed
qed

end
