(* ===== verification/Engine_Runs.thy ===== *)
theory Engine_Runs
  imports Engine_Reach
begin

text \<open>
  What holds of every state an engine reaches, whatever requests come, are cancelled and are
  stepped in whatever order, and the concrete runs that show it is not vacuous.
\<close>

section \<open>Concrete runs\<close>

text \<open>A run that checks the restrictions of \<open>engine_run\<close> after each call.\<close>

fun engine_path ::
  "bytes set \<Rightarrow> env \<Rightarrow> engine_call list \<Rightarrow> engine \<Rightarrow> (request_output list \<times> engine) option" where
  "engine_path S E [] e = Some ([], e)"
| "engine_path S E (c # cs) e =
     (if \<not> call_fits E c then None
      else case engine_do E c e of
        Inl err \<Rightarrow> None
      | Inr (outs, e') \<Rightarrow>
          if seen S E e' then map_option (\<lambda>(os, e2). (outs @ os, e2)) (engine_path S E cs e') else None)"

lemma engine_path_run: "engine_run S E n cfg e \<Longrightarrow> engine_path S E cs e = Some (os, e') \<Longrightarrow> engine_run S E n cfg e'"
proof (induction cs arbitrary: e os)
  case Nil
  then show ?case by simp
next
  case (Cons c cs)
  then obtain outs e1 os1 where "call_fits E c" "engine_do E c e = Inr (outs, e1)" "seen S E e1"
    "engine_path S E cs e1 = Some (os1, e')"
    by (auto split: if_splits sum.splits)
  then show ?case using Cons.IH engine_call Cons.prems(1) by blast
qed

definition run_from :: "nat \<Rightarrow> scheduler_config \<Rightarrow> engine" where
  "run_from n cfg = (case engine_init n cfg of Inr e \<Rightarrow> e)"

text \<open>A model that counts on from the last token it attends to, and a byte-copying digest.\<close>

definition count_model :: next_token where
  "count_model p history ks = (case last ks of KV pos l t ctx \<Rightarrow> (t + 1) mod 1000 | Blank \<Rightarrow> 0)"

definition last_bytes :: digest where
  "last_bytes m = drop (length m - 16) m"

definition count_env :: env where
  "count_env = \<lparr>en_digest = last_bytes, en_encode = map int, en_decode = map nat, en_eos = {999},
     en_model = count_model\<rparr>"

lemma count_model_fits: "fits64 (count_model p h ks)"
proof (cases "last ks")
  case (KV pos l t ctx)
  have "0 \<le> (t + 1) mod 1000" "(t + 1) mod 1000 < 1000" by simp_all
  moreover have "(2::int) ^ 63 = 9223372036854775808" by simp
  ultimately have "- (2 ^ 63) \<le> (t + 1) mod 1000 \<and> (t + 1) mod 1000 < 2 ^ 63" by linarith
  then show ?thesis by (simp only: count_model_def fits64_def KV kv.case)
qed (simp add: count_model_def fits64_def)

text \<open>Two requests that share the block of their first two tokens.\<close>

definition pair_config :: scheduler_config where
  "pair_config = \<lparr>max_num_seqs = 4, max_num_batched_tokens = 8, cfg_block_size = 2,
     cfg_num_blocks = Some 8, enable_chunked_prefill = True, enable_prefix_caching = True,
     policy = Fcfs, tenant_weights = []\<rparr>"

definition pair_calls :: "engine_call list" where
  "pair_calls = [Submit ''a'' (Inr [5, 6, 7]) None ''t'' 0 0 0, StepAt 1,
     Submit ''b'' (Inl [5, 6, 8]) None ''t'' 0 0 0, StepAt 2]"

definition pair_messages :: "bytes set" where
  "pair_messages = chain_messages last_bytes 2 0 [5, 6, 7, 8] 2 \<union> chain_messages last_bytes 2 0 [5, 6, 8, 9] 2"

definition pair_engine :: engine where
  "pair_engine = snd (the (engine_path pair_messages count_env pair_calls (run_from 8 pair_config)))"

lemma run_from_eq:
  "1 \<le> cfg_block_size cfg \<Longrightarrow> engine_init n cfg = Inr (run_from n cfg)"
  using bm_create_inv [of "int n" "int (cfg_block_size cfg)" "enable_prefix_caching cfg"]
    bm_create_returns [of "int n" "int (cfg_block_size cfg)" "enable_prefix_caching cfg"]
  by (auto simp: run_from_def engine_init_def sched_init_def)

lemma pair_env_ok: "env_ok pair_messages count_env"
proof -
  have "digest_ok last_bytes pair_messages" by code_simp
  then show ?thesis using count_model_fits by (simp add: env_ok_def count_env_def)
qed

definition pair_view :: "engine \<Rightarrow> nat \<times> nat list \<times> seqn \<times> bool" where
  "pair_view e = (s_counter (e_sched e), s_running (e_sched e), obj 1 (e_sched e), e_closed e)"

lemma pair_run:
  "map_option (pair_view \<circ> snd) (engine_path pair_messages count_env pair_calls (run_from 8 pair_config))
     = Some (2, [0, 1], \<lparr>q_id = 1, q_request = ''b'', q_prompt = [5, 6, 8], q_sampling = sampling_default,
         q_tenant = ''t'', q_priority = 0, q_lora = 0, q_output = [9], q_table = [0, 2], q_computed = 3,
         q_status = Running, q_reason = None, q_stop_token = None,
         q_timing = \<lparr>t_arrival = Some 0, t_first_scheduled = Some 2, t_first_token = Some 2, t_finish = None,
           num_cached_prompt_tokens = 2\<rparr>, q_preemptions = 0\<rparr>, False)"
  by code_simp

lemma pair_path:
  obtains os where "engine_path pair_messages count_env pair_calls (run_from 8 pair_config) = Some (os, pair_engine)"
  using pair_run by (auto simp: pair_engine_def)

lemma pair_reachable: "engine_run pair_messages count_env 8 pair_config pair_engine"
proof -
  have "engine_run pair_messages count_env 8 pair_config (run_from 8 pair_config)"
    using run_from_eq [of pair_config 8] by (intro engine_fresh) (simp add: pair_config_def)
  moreover obtain os where "engine_path pair_messages count_env pair_calls (run_from 8 pair_config) = Some (os, pair_engine)"
    by (rule pair_path)
  ultimately show ?thesis by (rule engine_path_run)
qed

lemma pair_facts:
  "s_counter (e_sched pair_engine) = 2" "s_running (e_sched pair_engine) = [0, 1]" "e_closed pair_engine = False"
  "q_preemptions (obj 1 (e_sched pair_engine)) = 0" "q_output (obj 1 (e_sched pair_engine)) = [9]"
  "q_table (obj 1 (e_sched pair_engine)) = [0, 2]" "q_computed (obj 1 (e_sched pair_engine)) = 3"
  "q_prompt (obj 1 (e_sched pair_engine)) = [5, 6, 8]" "q_lora (obj 1 (e_sched pair_engine)) = 0"
  "q_sampling (obj 1 (e_sched pair_engine)) = sampling_default" "q_request (obj 1 (e_sched pair_engine)) = ''b''"
  using pair_run by (auto simp: pair_engine_def pair_view_def)

text \<open>Two requests on a pool of four one-token blocks; the second has the lower priority.\<close>

definition chunk_config :: scheduler_config where
  "chunk_config = \<lparr>max_num_seqs = 4, max_num_batched_tokens = 2, cfg_block_size = 1,
     cfg_num_blocks = Some 4, enable_chunked_prefill = True, enable_prefix_caching = False,
     policy = Fcfs, tenant_weights = []\<rparr>"

definition chunk_calls :: "engine_call list" where
  "chunk_calls = [Submit ''h'' (Inr [1]) (Some (sampling_default\<lparr>max_tokens := 3\<rparr>)) ''t'' 1 0 0,
     Submit ''a'' (Inr [5]) None ''t'' 0 0 0, StepAt 1, StepAt 2, StepAt 3, StepAt 4]"

text \<open>The tokens a client of request \<open>rid\<close> received.\<close>

definition received :: "string \<Rightarrow> request_output list \<Rightarrow> int list" where
  "received rid outs = concat (map o_new_tokens (filter (\<lambda>out. o_request out = rid) outs))"

fun engine_calls :: "env \<Rightarrow> engine_call list \<Rightarrow> engine \<Rightarrow> py_error + (request_output list \<times> engine)" where
  "engine_calls E [] e = Inr ([], e)"
| "engine_calls E (c # cs) e =
     rbind (engine_do E c e) (\<lambda>(outs, e1). rbind (engine_calls E cs e1) (\<lambda>(os, e2). Inr (outs @ os, e2)))"

section \<open>Shared facts\<close>

lemma sd_run_fields:
  "dt_tokens (sd_detok (sd_run decode cs s)) = dt_tokens (sd_detok s) @ concat cs \<and>
   sm_stop (sd_matcher (sd_run decode cs s)) = sm_stop (sd_matcher s)"
proof (induction cs arbitrary: s)
  case Nil
  then show ?case by simp
next
  case (Cons c cs)
  have "dt_tokens (snd (detok_append decode c d)) = dt_tokens d @ c" for d
    by (simp add: detok_append_def Let_def)
  moreover have "sm_stop (snd (sm_feed t m)) = sm_stop m" for t m
    by (simp add: sm_feed_def Let_def split: option.splits prod.splits)
  ultimately show ?case
    using Cons.IH [of "snd (sd_feed decode c s)"] by (simp add: sd_feed_def split: prod.splits) (metis snd_conv)
qed

lemma decoder_of_fields:
  "dt_tokens (sd_detok (decoder_of E q)) = q_output q \<and>
   sm_stop (sd_matcher (decoder_of E q)) = filter (\<lambda>s. s \<noteq> []) (stop_strings (q_sampling q))"
  using sd_run_fields [of "en_decode E" "map (\<lambda>t. [t]) (q_output q)" "sd_create (stop_strings (q_sampling q)) []"]
  by (simp add: decoder_of_def sd_create_def detok_init_def sm_init_def Let_def)

text \<open>What a step means for the request index.\<close>

lemma stepped_accounts:
  assumes st: "stepped S E now e outs e'" and inv: "sched_inv (en_digest E) (e_sched e)"
  shows "distinct (map o_request outs) \<and> e_generated e' = e_generated e + length outs
    \<and> list_all (\<lambda>out. length (o_new_tokens out) = 1 \<and> s_by_request (e_sched e) (o_request out) \<noteq> None
        \<and> (o_finished out \<longleftrightarrow> s_by_request (e_sched e') (o_request out) = None)) outs
    \<and> (\<forall>r. r \<notin> o_request ` set outs \<longrightarrow> s_by_request (e_sched e') r = s_by_request (e_sched e) r)"
proof -
  obtain out s kv where w: "world (e_sched e) s" and b: "batch_ok s out"
    and L: "looped (en_digest E) E (map (\<lambda>d. (d, dense_token (en_model E) (obj (d_seq d) s) (d_context_len d))) (sampled out))
          (e\<lparr>e_sched := s, e_kv := kv\<rparr>) outs (e'\<lparr>e_generated := e_generated e\<rparr>)"
    and g: "e_generated e' = e_generated e + length outs"
    using st by (auto simp: stepped_def)
  let ?ds = "sampled out" and ?s' = "e_sched e'"
  have inv': "sched_inv (en_digest E) ?s'" using L by (simp add: looped_def)
  have br: "s_by_request (e_sched e) r = Some x \<longleftrightarrow> x \<in> everyone (e_sched e) \<and> q_request (obj x (e_sched e)) = r"
    "s_by_request ?s' r = Some x \<longleftrightarrow> x \<in> everyone ?s' \<and> q_request (obj x ?s') = r" for r x
    using inv inv' by (simp_all add: sched_inv_def)
  have same: "q_request (obj x s) = q_request (obj x (e_sched e))" "everyone s = everyone (e_sched e)" for x
    using w by (simp_all add: world_def same_seq_def)
  have mem: "d_seq d \<in> everyone (e_sched e)" if "d \<in> set ?ds" for d
    using b that same(2) by (auto simp: batch_ok_def sampled_def everyone_def)
  have keep: "q_request (obj x ?s') = q_request (obj x (e_sched e))" for x
  proof (cases "x \<in> d_seq ` set ?ds")
    case True
    then show ?thesis using L same(1) by (auto simp: looped_def list_all_iff pair_done_def gained_def)
  next
    case False
    then show ?thesis using L same(1) by (auto simp: looped_def image_image)
  qed
  have "list_all2 (\<lambda>d out. o_request out = q_request (obj (d_seq d) (e_sched e)) \<and> length (o_new_tokens out) = 1
      \<and> (o_finished out \<longleftrightarrow> d_seq d \<notin> everyone ?s')) ?ds outs"
  proof -
    have "list_all2 (\<lambda>d. out_of (e\<lparr>e_sched := s, e_kv := kv\<rparr>) (e'\<lparr>e_generated := e_generated e\<rparr>)
        (d, dense_token (en_model E) (obj (d_seq d) s) (d_context_len d))) ?ds outs"
      using L unfolding looped_def list.rel_map by blast
    then show ?thesis by (rule list.rel_mono_strong) (simp add: out_of_def same(1))
  qed
  then have rel: "length ?ds = length outs" "\<And>i. i < length outs \<Longrightarrow> o_request (outs ! i) = q_request (obj (d_seq (?ds ! i)) (e_sched e))
      \<and> length (o_new_tokens (outs ! i)) = 1 \<and> (o_finished (outs ! i) \<longleftrightarrow> d_seq (?ds ! i) \<notin> everyone ?s')"
    by (auto simp: list_all2_conv_all_nth)
  have rq: "map o_request outs = map (\<lambda>d. q_request (obj (d_seq d) (e_sched e))) ?ds"
    using rel by (intro nth_equalityI) simp_all
  have inj: "x = y" if "x \<in> everyone (e_sched e)" "y \<in> everyone (e_sched e)"
      "q_request (obj x (e_sched e)) = q_request (obj y (e_sched e))" for x y
    using that br(1) by (metis option.inject)
  have "distinct (map d_seq ?ds)" using b by (simp add: batch_ok_def sampled_def distinct_map_filter)
  then have "distinct (map o_request outs)"
    unfolding rq using inj mem by (auto simp: distinct_map inj_on_def)
  moreover have "length (o_new_tokens o1) = 1 \<and> s_by_request (e_sched e) (o_request o1) \<noteq> None
        \<and> (o_finished o1 \<longleftrightarrow> s_by_request ?s' (o_request o1) = None)" if o1: "o1 \<in> set outs" for o1
  proof -
    obtain i where i: "i < length outs" "o1 = outs ! i" using o1 by (metis in_set_conv_nth)
    let ?d = "?ds ! i"
    have d: "?d \<in> set ?ds" using i rel(1) by simp
    have "s_by_request (e_sched e) (o_request o1) = Some (d_seq ?d)" using br(1) rel(2) [OF i(1)] i(2) mem [OF d] by simp
    moreover have "d_seq ?d \<in> everyone ?s' \<longleftrightarrow> s_by_request ?s' (o_request o1) \<noteq> None"
    proof
      assume "d_seq ?d \<in> everyone ?s'"
      then have "s_by_request ?s' (o_request o1) = Some (d_seq ?d)" using br(2) keep rel(2) [OF i(1)] i(2) by simp
      then show "s_by_request ?s' (o_request o1) \<noteq> None" by simp
    next
      assume "s_by_request ?s' (o_request o1) \<noteq> None"
      then obtain y where y: "y \<in> everyone ?s'" "q_request (obj y ?s') = o_request o1" using br(2) by auto
      have "y \<in> everyone (e_sched e)" using y(1) L same(2) mem by (force simp: looped_def image_image)
      then have "y = d_seq ?d" using inj [OF _ mem [OF d]] y(2) keep rel(2) [OF i(1)] i(2) by simp
      then show "d_seq ?d \<in> everyone ?s'" using y(1) by simp
    qed
    ultimately show ?thesis using rel(2) [OF i(1)] i(2) by simp
  qed
  moreover have "s_by_request ?s' r = s_by_request (e_sched e) r" if r: "r \<notin> o_request ` set outs" for r
  proof -
    have "o_request ` set outs = (\<lambda>d. q_request (obj (d_seq d) (e_sched e))) ` set ?ds" using rq by (metis list.set_map)
    then have "x \<notin> d_seq ` set ?ds" if "q_request (obj x (e_sched e)) = r" for x using r that by auto
    then have "s_by_request ?s' r = Some x \<longleftrightarrow> s_by_request (e_sched e) r = Some x" for x
      using br keep same(2) L by (auto simp: looped_def image_image)
    then show ?thesis by (metis not_None_eq)
  qed
  ultimately show ?thesis using g by (simp add: list_all_iff)
qed

lemma item_indices:
  assumes inv: "sched_inv D s" and b: "batch_ok s out" and d: "d \<in> set (out_scheduled out)"
  shows "list_all (\<lambda>bl. bl < pool_size s) (d_block_table d) \<and> list_all (\<lambda>slot. slot < pool_size s * bsize s) (d_slots d)
    \<and> d_context_len d \<le> length (d_block_table d) * bsize s"
proof -
  note i = batch_item [OF inv b d]
  have ctx: "d_context_len d \<le> length (d_block_table d) * bsize s"
    and sl: "d_slots d = map (slot_at (bsize s) (d_block_table d)) [item_start d..<d_context_len d]"
    using i(1) unfolding item_ok_def Let_def by blast+
  have bl: "bl < pool_size s" if "bl \<in> set (d_block_table d)" for bl
  proof -
    have "bl \<in># refs (s_seqs s) (s_running s)" unfolding i(4) using that by simp
    then show ?thesis using i(5) counted_bound by (auto simp: bm_inv_def pool_inv_def)
  qed
  have "slot < pool_size s * bsize s" if slot: "slot \<in> set (d_slots d)" for slot
  proof -
    have "slot \<in> slot_at (bsize s) (d_block_table d) ` set [item_start d..<d_context_len d]"
      using slot unfolding sl by (simp only: list.set_map)
    then obtain p where p: "p \<in> set [item_start d..<d_context_len d]" "slot = slot_at (bsize s) (d_block_table d) p" by blast
    have "p div bsize s < length (d_block_table d)" using item_position(1) [OF i(1,6) p(1)] .
    then have "Suc (d_block_table d ! (p div bsize s)) * bsize s \<le> pool_size s * bsize s"
      using bl by (intro mult_le_mono1) (simp add: Suc_leI)
    moreover have "p mod bsize s < bsize s" using i(6) by simp
    ultimately show ?thesis unfolding p(2) slot_at_def by simp
  qed
  then show ?thesis using bl ctx by (auto simp: list_all_iff)
qed

lemma pair_seen: "seen pair_messages count_env (engine_close pair_engine)"
proof -
  have "map_option (\<lambda>(os, e). seen pair_messages count_env (engine_close e))
      (engine_path pair_messages count_env pair_calls (run_from 8 pair_config)) = Some True"
    by code_simp
  then show ?thesis by (auto simp: pair_engine_def)
qed

section \<open>Properties\<close>



text \<open>C5: The pool holds every running request's own entries. In every state an engine reaches, the
  slot of each computed position of each running request holds the entry a dense cache of this
  request has at this position, although blocks are shared, reused after eviction and rewritten by
  other requests.\<close>

theorem pool_holds_own_entries:
  assumes "env_ok S E" and "engine_run S E n cfg e" and "x \<in> set (s_running (e_sched e))"
    and "p < q_computed (obj x (e_sched e))"
  shows "e_kv e (slot_at (cfg_block_size cfg) (q_table (obj x (e_sched e))) p)
    = kv_prefix (q_lora (obj x (e_sched e))) (token_ids (obj x (e_sched e))) ! p"
proof -
  have r: "run_ok S E n cfg e" by (rule engine_run_ok [OF assms(1,2)])
  then have "bsize (e_sched e) = cfg_block_size cfg" by (simp add: run_ok_def engine_ok_def sched_inv_def)
  then show ?thesis using r assms(3,4) by (auto simp: run_ok_def engine_ok_def contents_ok_def holds_def)
qed

theorem pool_holds_own_entries_witness:
  "e_kv pair_engine (slot_at (cfg_block_size pair_config) [0, 2] 2)
    = kv_prefix 0 (token_ids (obj 1 (e_sched pair_engine))) ! 2"
  using pool_holds_own_entries [OF pair_env_ok pair_reachable, of 1 2] pair_facts by simp



text \<open>C19: Every request in flight has its decoder, and nobody else has one. In every state an
  engine reaches, the decoders are those of the requests in flight; a request's decoder has been
  fed the request's output tokens, all of them and in order, and looks for the request's own stop
  strings.\<close>

theorem decoders_follow_requests:
  assumes "env_ok S E" and "engine_run S E n cfg e"
  shows "dom (e_decoders e) = dom (s_by_request (e_sched e))
    \<and> (\<forall>r x d. s_by_request (e_sched e) r = Some x \<longrightarrow> e_decoders e r = Some d \<longrightarrow>
         dt_tokens (sd_detok d) = q_output (obj x (e_sched e))
         \<and> sm_stop (sd_matcher d) = filter (\<lambda>s. s \<noteq> []) (stop_strings (q_sampling (obj x (e_sched e)))))"
proof -
  have "decoders_ok E e" using engine_run_ok [OF assms] by (simp add: run_ok_def engine_ok_def)
  then show ?thesis
    by (simp add: decoders_ok_def dom_def decoder_of_fields)
qed

theorem decoders_follow_requests_witness:
  "dom (e_decoders pair_engine) = dom (s_by_request (e_sched pair_engine))"
  using decoders_follow_requests [OF pair_env_ok pair_reachable] by blast

text \<open>C14: The indices a step hands to the kernels are indices of the pool's tensors. Whatever step
  comes next in a reachable engine, every block table entry of every item is a block of the pool,
  every slot it writes is a row of the flat view, and its table covers its context.\<close>

theorem kernel_indices_in_bounds:
  assumes "env_ok S E" and "engine_run S E n cfg e"
    and "schedule (en_digest E) now (e_sched e) = Inr (out, s)" and "d \<in> set (out_scheduled out)"
  shows "list_all (\<lambda>b. b < n) (d_block_table d) \<and> list_all (\<lambda>slot. slot < n * cfg_block_size cfg) (d_slots d)
    \<and> d_context_len d \<le> length (d_block_table d) * cfg_block_size cfg"
proof -
  have r: "run_ok S E n cfg e" by (rule engine_run_ok [OF assms(1,2)])
  then have inv: "sched_inv (en_digest E) (e_sched e)" by (simp add: run_ok_def engine_ok_def)
  have s: "sched_inv (en_digest E) s" "batch_ok s out" "world (e_sched e) s"
    using schedule_ok [OF inv, of now] assms(3) by auto
  then have sz: "pool_size s = n" "bsize s = cfg_block_size cfg" using r by (auto simp: world_def run_ok_def sched_inv_def)
  from item_indices [OF s(1,2) assms(4)] show ?thesis unfolding sz .
qed

theorem kernel_indices_in_bounds_witness:
  "\<exists>out s. schedule last_bytes 3 (e_sched pair_engine) = Inr (out, s)
    \<and> list_all (\<lambda>d. list_all (\<lambda>slot. slot < 16) (d_slots d)) (out_scheduled out)"
proof -
  have "sched_inv last_bytes (e_sched pair_engine)"
    using engine_run_ok [OF pair_env_ok pair_reachable] by (simp add: run_ok_def engine_ok_def count_env_def)
  then obtain out s where s: "schedule last_bytes 3 (e_sched pair_engine) = Inr (out, s)" using schedule_ok by blast
  have "list_all (\<lambda>slot. slot < 16) (d_slots d)" if "d \<in> set (out_scheduled out)" for d
    using kernel_indices_in_bounds [OF pair_env_ok pair_reachable _ that, of 3 s] s
    by (simp add: count_env_def pair_config_def)
  then show ?thesis using s by (auto simp: list_all_iff)
qed

text \<open>C20: A closed engine is inert: nothing is in flight and no decoder is left, requests and steps
  raise \<open>RuntimeError\<close>, aborting finds nothing, and closing again changes nothing.\<close>

theorem closed_engine_is_inert:
  assumes "env_ok S E" and "engine_run S E n cfg e" and "e_closed e"
  shows "\<not> engine_unfinished e \<and> e_decoders e = Map.empty
    \<and> engine_add E rid prompt params tenant prio lora arrival e = Inl RuntimeError
    \<and> engine_step E now e = Inl RuntimeError \<and> engine_abort E rid now e = Inr (False, e) \<and> engine_close e = e"
proof -
  have r: "run_ok S E n cfg e" by (rule engine_run_ok [OF assms(1,2)])
  then have "s_by_request (e_sched e) = Map.empty"
    using assms(3) by (auto simp: run_ok_def engine_ok_def sched_inv_def fun_eq_iff)
  moreover from this have "e_decoders e = Map.empty" using r by (auto simp: run_ok_def engine_ok_def decoders_ok_def)
  moreover from calculation have "e\<lparr>e_decoders := (e_decoders e)(rid := None)\<rparr> = e" by (cases e) (simp add: fun_upd_idem)
  ultimately show ?thesis
    using assms(3)
    by (simp add: engine_unfinished_def has_unfinished_def engine_add_def engine_step_def engine_close_def
        engine_abort_def sched_abort_def)
qed

theorem closed_engine_is_inert_witness:
  "engine_step count_env 4 (engine_close pair_engine) = Inl RuntimeError"
proof -
  have "seen pair_messages count_env (engine_close pair_engine)"
    using engine_run_ok [OF pair_env_ok pair_reachable] pair_seen by blast
  then have "engine_run pair_messages count_env 8 pair_config (engine_close pair_engine)"
    using engine_call [OF pair_reachable, of CloseEngine "[]"] by (simp add: call_fits_def engine_do_def)
  from closed_engine_is_inert [OF pair_env_ok this, of _ _ _ _ _ _ _ 4] show ?thesis
    using engine_close_ok by (simp add: engine_close_def)
qed


end
