(* ===== verification/Engine_Effects.thy ===== *)
theory Engine_Effects
  imports Engine_Runs
begin

text \<open>
  What each call does to the requests of an engine, in the form its clients use: \<open>gave f e e'\<close>
  says that from \<open>e\<close> to \<open>e'\<close> every request in flight gained the tokens \<open>f\<close> lists for it, the
  others none, and none of them changed its identity.
\<close>

definition same_request :: "seqn \<Rightarrow> seqn \<Rightarrow> bool" where
  "same_request q q' \<longleftrightarrow> q_request q' = q_request q \<and> q_prompt q' = q_prompt q \<and> q_sampling q' = q_sampling q
     \<and> q_lora q' = q_lora q"

definition gave :: "(string \<Rightarrow> int list) \<Rightarrow> engine \<Rightarrow> engine \<Rightarrow> bool" where
  "gave f e e' \<longleftrightarrow> s_counter (e_sched e) \<le> s_counter (e_sched e') \<and> bsize (e_sched e') = bsize (e_sched e)
     \<and> (\<forall>x < s_counter (e_sched e). same_request (obj x (e_sched e)) (obj x (e_sched e'))
          \<and> q_output (obj x (e_sched e')) = q_output (obj x (e_sched e))
              @ (if x \<in> everyone (e_sched e) then f (q_request (obj x (e_sched e))) else []))"

lemma chain_messages_append:
  "k * bs \<le> length tokens \<Longrightarrow> chain_messages D bs lora (tokens @ rest) k = chain_messages D bs lora tokens k"
proof (induction k)
  case (Suc k)
  then have "k * bs \<le> length tokens" "bs \<le> length tokens - k * bs" by simp_all
  then show ?case using Suc.IH by (simp add: prefix_hash_append block_slice_def)
qed simp

lemma gave_seen:
  assumes g: "gave f e e'" and s: "seen S E e'" shows "seen S E e"
  unfolding seen_def
proof (intro allI impI)
  fix x assume x: "x < s_counter (e_sched e)"
  let ?q = "obj x (e_sched e)" and ?q' = "obj x (e_sched e')" and ?bs = "bsize (e_sched e)"
  obtain ys where q: "q_lora ?q' = q_lora ?q" "token_ids ?q' = token_ids ?q @ ys"
    using g x by (auto simp: gave_def same_request_def token_ids_def)
  have "messages_in (en_digest E) S ?bs ?q'" using g s x by (simp add: gave_def seen_def)
  moreover have "num_tokens ?q div ?bs \<le> num_tokens ?q' div ?bs"
    using q(2) by (intro div_le_mono) (simp add: num_tokens_token_ids)
  ultimately have "chain_messages (en_digest E) ?bs (q_lora ?q) (token_ids ?q @ ys) (num_tokens ?q div ?bs) \<subseteq> S"
    using chain_messages_mono unfolding messages_in_def q by blast
  then show "messages_in (en_digest E) S ?bs ?q"
    by (simp add: messages_in_def num_tokens_token_ids chain_messages_append)
qed

section \<open>The calls\<close>

lemma add_gave:
  assumes inv: "sched_inv (en_digest E) (e_sched e)" and enc: "encodable lora (prompt_ids E prompt)"
    and r: "engine_add E rid prompt params tenant prio lora arrival e = Inr (x, e')"
  shows "gave (\<lambda>_. []) e e' \<and> s_by_request (e_sched e) rid = None
     \<and> s_by_request (e_sched e') = (s_by_request (e_sched e))(rid \<mapsto> x) \<and> x = s_counter (e_sched e) \<and> x < s_counter (e_sched e')
     \<and> q_request (obj x (e_sched e')) = rid \<and> q_prompt (obj x (e_sched e')) = prompt_ids E prompt
     \<and> q_sampling (obj x (e_sched e')) = (case params of None \<Rightarrow> sampling_default | Some p \<Rightarrow> p)
     \<and> q_lora (obj x (e_sched e')) = lora \<and> q_output (obj x (e_sched e')) = []
     \<and> e_closed e' = e_closed e \<and> sched_inv (en_digest E) (e_sched e')"
proof -
  let ?s = "e_sched e"
  obtain s where s: "add_request rid (prompt_ids E prompt) params tenant prio lora arrival ?s = Inr (x, s)"
    and e': "e' = e\<lparr>e_sched := s, e_decoders := (e_decoders e)(rid \<mapsto> sd_create (stop_strings (q_sampling (obj x s))) []),
               e_prompted := e_prompted e + length (prompt_ids E prompt)\<rparr>"
    using r by (auto simp: engine_add_def Let_def)
  have a: "sched_inv (en_digest E) s" "\<And>y. y \<noteq> x \<Longrightarrow> obj y s = obj y ?s"
    using add_request_ok [OF inv enc s] by auto
  have f: "s_by_request ?s rid = None" "s_by_request s = (s_by_request ?s)(rid \<mapsto> x)" "x = s_counter ?s"
    "s_counter s = s_counter ?s + 1" "s_config s = s_config ?s" "q_request (obj x s) = rid"
    "q_prompt (obj x s) = prompt_ids E prompt" "q_output (obj x s) = []" "q_lora (obj x s) = lora"
    "q_sampling (obj x s) = (case params of None \<Rightarrow> sampling_default | Some p \<Rightarrow> p)"
    using s by (auto simp: add_request_def add_sequence_def seq_init_def split: if_splits)
  have "bsize s = bsize ?s" using a(1) inv f(5) by (simp add: sched_inv_def)
  then show ?thesis using f a by (auto simp: gave_def e' same_request_def)
qed

lemma abort_gave:
  assumes inv: "sched_inv (en_digest E) (e_sched e)"
  shows "\<exists>hit e'. engine_abort E rid now e = Inr (hit, e') \<and> gave (\<lambda>_. []) e e'
     \<and> s_by_request (e_sched e') = (s_by_request (e_sched e))(rid := None)
     \<and> e_closed e' = e_closed e \<and> sched_inv (en_digest E) (e_sched e')"
proof (cases "s_by_request (e_sched e) rid")
  case None
  then show ?thesis using inv by (auto simp: engine_abort_def sched_abort_def gave_def same_request_def fun_upd_idem)
next
  case (Some x)
  let ?D = "en_digest E" and ?s = "e_sched e"
  have x: "x \<in> everyone ?s" "q_request (obj x ?s) = rid" using inv Some by (auto simp: sched_inv_def)
  obtain s where s: "sched_finish ?D x Abort now None ?s = Inr s" "sched_inv ?D s"
    "obj x s = (seq_finish Abort now None (obj x ?s))\<lparr>q_table := []\<rparr>" "\<forall>y. y \<noteq> x \<longrightarrow> obj y s = obj y ?s"
    "s_by_request s = (s_by_request ?s)(rid := None)" "s_config s = s_config ?s" "s_counter s = s_counter ?s"
    using finish_ok [OF inv x(1)] x(2) by blast
  have "bsize s = bsize ?s" using s(2,6) inv by (simp add: sched_inv_def)
  moreover have "same_request (obj x ?s) (obj x s) \<and> q_output (obj x s) = q_output (obj x ?s)"
    using s(3) by (simp add: same_request_def seq_finish_def)
  then have "same_request (obj y ?s) (obj y s) \<and> q_output (obj y s) = q_output (obj y ?s)" for y
    using s(4) by (cases "y = x") (simp_all add: same_request_def)
  ultimately show ?thesis
    using Some s by (auto simp: engine_abort_def sched_abort_def gave_def)
qed

lemma close_gave:
  assumes ok: "engine_ok S E e"
  shows "gave (\<lambda>_. []) e (engine_close e)"
proof -
  have "sched_inv (en_digest E) (e_sched e)" "sched_inv (en_digest E) (e_sched (engine_close e))"
    using ok engine_close_ok [OF ok] by (simp_all add: engine_ok_def)
  then have "bsize (e_sched (engine_close e)) = bsize (e_sched e)"
    using engine_close_ok [OF ok] by (simp add: sched_inv_def)
  then show ?thesis
    by (auto simp: gave_def engine_close_def sched_reset_def obj_def same_request_def)
qed

lemma received_none: "r \<notin> o_request ` set outs \<Longrightarrow> received r outs = []"
  by (auto simp: received_def filter_empty_conv)

lemma received_one:
  "distinct (map o_request outs) \<Longrightarrow> out \<in> set outs \<Longrightarrow> received (o_request out) outs = o_new_tokens out"
proof (induction outs)
  case (Cons y outs)
  then show ?case
    using received_none [of "o_request y" outs] by (cases "out = y") (auto simp: received_def)
qed simp

lemma step_gave:
  assumes st: "stepped S E now e outs e'" and inv: "sched_inv (en_digest E) (e_sched e)"
  shows "gave (\<lambda>r. received r outs) e e' \<and> everyone (e_sched e') \<subseteq> everyone (e_sched e)
     \<and> sched_inv (en_digest E) (e_sched e')"
proof -
  obtain out s kv where w: "world (e_sched e) s" and b: "batch_ok s out"
    and L: "looped (en_digest E) E (map (\<lambda>d. (d, dense_token (en_model E) (obj (d_seq d) s) (d_context_len d))) (sampled out))
          (e\<lparr>e_sched := s, e_kv := kv\<rparr>) outs (e'\<lparr>e_generated := e_generated e\<rparr>)"
    using st by (auto simp: stepped_def)
  let ?ds = "sampled out" and ?s' = "e_sched e'" and ?t = "\<lambda>d. dense_token (en_model E) (obj (d_seq d) s) (d_context_len d)"
  have inv': "sched_inv (en_digest E) ?s'" using L by (simp add: looped_def)
  have same: "same_seq (obj x (e_sched e)) (obj x s)" "everyone s = everyone (e_sched e)" for x
    using w by (simp_all add: world_def)
  have acc: "distinct (map o_request outs)" using stepped_accounts [OF st inv] by blast
  have mem: "d_seq d \<in> everyone (e_sched e)" if "d \<in> set ?ds" for d
    using b that same(2) by (auto simp: batch_ok_def sampled_def everyone_def)
  have "list_all2 (\<lambda>d out. o_request out = q_request (obj (d_seq d) (e_sched e)) \<and> o_new_tokens out = [?t d]) ?ds outs"
  proof -
    have "list_all2 (\<lambda>d. out_of (e\<lparr>e_sched := s, e_kv := kv\<rparr>) (e'\<lparr>e_generated := e_generated e\<rparr>) (d, ?t d)) ?ds outs"
      using L unfolding looped_def list.rel_map by blast
    then show ?thesis by (rule list.rel_mono_strong) (use same(1) in \<open>simp add: out_of_def same_seq_def\<close>)
  qed
  then have rel: "length ?ds = length outs" "\<And>i. i < length outs \<Longrightarrow> o_request (outs ! i) = q_request (obj (d_seq (?ds ! i)) (e_sched e))
      \<and> o_new_tokens (outs ! i) = [?t (?ds ! i)]"
    by (auto simp: list_all2_conv_all_nth)
  have rq: "map o_request outs = map (\<lambda>d. q_request (obj (d_seq d) (e_sched e))) ?ds"
    using rel by (intro nth_equalityI) simp_all
  have inj: "x = y" if "x \<in> everyone (e_sched e)" "y \<in> everyone (e_sched e)"
      "q_request (obj x (e_sched e)) = q_request (obj y (e_sched e))" for x y
    using that inv unfolding sched_inv_def by (metis option.inject)
  have "same_request (obj x (e_sched e)) (obj x ?s') \<and> q_output (obj x ?s') = q_output (obj x (e_sched e))
      @ (if x \<in> everyone (e_sched e) then received (q_request (obj x (e_sched e))) outs else [])" for x
  proof (cases "x \<in> d_seq ` set ?ds")
    case True
    then obtain i where i: "i < length ?ds" "x = d_seq (?ds ! i)" by (metis imageE in_set_conv_nth)
    have "gained (?t (?ds ! i)) (obj x s) (obj x ?s')"
      using L i by (auto simp: looped_def list_all_iff pair_done_def)
    moreover have "received (o_request (outs ! i)) outs = [?t (?ds ! i)]"
      using received_one [OF acc, of "outs ! i"] rel i by simp
    moreover have "x \<in> everyone (e_sched e)" using mem i by simp
    ultimately show ?thesis
      using same(1) [of x] rel i by (auto simp: gained_def same_request_def same_seq_def)
  next
    case False
    then have o: "obj x ?s' = obj x s" using L by (auto simp: looped_def image_image)
    have rq': "o_request ` set outs = (\<lambda>d. q_request (obj (d_seq d) (e_sched e))) ` set ?ds" using rq by (metis list.set_map)
    then have "received (q_request (obj x (e_sched e))) outs = []" if "x \<in> everyone (e_sched e)"
      proof (intro received_none notI)
      assume "q_request (obj x (e_sched e)) \<in> o_request ` set outs"
      then obtain d where d: "d \<in> set ?ds" "q_request (obj x (e_sched e)) = q_request (obj (d_seq d) (e_sched e))"
        unfolding rq' by blast
      show False using inj [OF that mem [OF d(1)] d(2)] d(1) False by simp
    qed
    then show ?thesis using o same(1) [of x] by (auto simp: same_request_def same_seq_def)
  qed
  moreover have "s_counter ?s' = s_counter (e_sched e)" "s_config ?s' = s_config (e_sched e)" using L w by (simp_all add: looped_def world_def)
  moreover from this have "bsize ?s' = bsize (e_sched e)" using inv inv' by (simp add: sched_inv_def)
  moreover have "everyone ?s' \<subseteq> everyone (e_sched e)" using L same(2) mem by (force simp: looped_def image_image)
  ultimately show ?thesis using inv' by (simp add: gave_def)
qed

lemma add_refusals: "engine_add E rid prompt params tenant prio lora arrival e = Inl err \<Longrightarrow> err \<in> {ValueError, RuntimeError}"
  by (auto simp: engine_add_def add_request_def add_sequence_def seq_init_def Let_def rbind_case split: if_splits sum.splits)

end
