(* ===== verification/Async_Engine.thy ===== *)
theory Async_Engine
  imports Engine_Effects
begin

text \<open>
  The asynchronous engine, class \<open>AsyncLLMEngine\<close> of
  \<open>src/turboserve/engine/runtime/async_engine.py\<close>: one loop that owns the engine, one queue per
  request, and the generators that read them.

  A coroutine runs undisturbed from one \<open>await\<close> or \<open>yield\<close> to the next, so each such stretch is one
  function here, and \<open>as_loop\<close> and \<open>co_at\<close> say where a coroutine is suspended. Streams are objects,
  addressed by their position in \<open>as_store\<close>; \<open>st_queue\<close> lists all that was ever put on a stream's queue
  and \<open>co_taken\<close> how much of it its generator has taken. The generator of stream \<open>k\<close> is entry \<open>k\<close> of
  \<open>as_consumers\<close>.
\<close>

section \<open>State\<close>

text \<open>\<open>AsyncEngineDeadError\<close>, or the exception with which the engine refused a request.\<close>

datatype async_error = Engine_Dead | Refused py_error

datatype queue_item = Delta request_output | Raised async_error

record pending_request =
  p_request :: string
  p_prompt :: "utext + int list"
  p_sampling :: "sampling option"
  p_tenant :: string
  p_priority :: int
  p_lora :: int
  p_arrival :: rat
  p_queue :: nat

record stream =
  st_queue :: "queue_item list"
  st_finished :: bool

text \<open>
  A generator waits in \<open>stream.queue.get()\<close>, or at its \<open>yield\<close> after an item that was or was not
  the final one, or it has ended.
\<close>

datatype paused = At_Get | At_Yield bool | Ended

record consumer =
  co_call :: pending_request
  co_taken :: nat
  co_at :: paused

text \<open>
  Where the task of \<open>_run\<close> is: there is none or it is done; it is about to run; it waits in
  \<open>_wait_for_work\<close>; or it waits for the thread, which has not or has run the step.
\<close>

datatype loop_at = Stopped | Ready | Parked | Launched | Returned "py_error + request_output list"

record async =
  as_engine :: engine
  as_pending :: "pending_request list"
  as_aborting :: "string list"
  as_streams :: "(string \<times> nat) list"
  as_store :: "stream list"
  as_consumers :: "consumer list"
  as_wake :: bool
  as_loop :: loop_at
  as_error :: bool
  as_closed :: bool

definition async_init :: "engine \<Rightarrow> async" where
  "async_init e = \<lparr>as_engine = e, as_pending = [], as_aborting = [], as_streams = [], as_store = [],
     as_consumers = [], as_wake = False, as_loop = Stopped, as_error = False, as_closed = False\<rparr>"

definition put_item :: "nat \<Rightarrow> queue_item \<Rightarrow> async \<Rightarrow> async" where
  "put_item k it a = a\<lparr>as_store := (as_store a)[k := (as_store a ! k)\<lparr>st_queue := st_queue (as_store a ! k) @ [it]\<rparr>]\<rparr>"

definition async_running :: "async \<Rightarrow> bool" where
  "async_running a \<longleftrightarrow> as_loop a \<noteq> Stopped"

definition async_healthy :: "async \<Rightarrow> bool" where
  "async_healthy a \<longleftrightarrow> \<not> as_error a \<and> \<not> as_closed a"

section \<open>Lifecycle\<close>

definition async_start :: "async \<Rightarrow> async_error + async" where
  "async_start a =
     (if as_closed a then Inl Engine_Dead
      else if async_running a then Inr a
      else Inr (a\<lparr>as_error := False, as_loop := Ready\<rparr>))"

text \<open>\<open>_fail_all\<close>.\<close>

definition fail_all :: "async_error \<Rightarrow> async \<Rightarrow> async" where
  "fail_all err a =
     (fold (\<lambda>(r, k) a. if st_finished (as_store a ! k) then a else put_item k (Raised err) a) (as_streams a) a)
       \<lparr>as_streams := []\<rparr>"

text \<open>
  \<open>close\<close>. Cancelling the task delivers nothing it had in hand: a step that has run is not dispatched.
\<close>

definition async_close :: "async \<Rightarrow> async" where
  "async_close a =
     (if as_closed a then a
      else let a1 = fail_all Engine_Dead (a\<lparr>as_closed := True, as_loop := Stopped\<rparr>)
           in a1\<lparr>as_engine := engine_close (as_engine a1)\<rparr>)"

section \<open>The loop\<close>

text \<open>The exceptions \<open>_drain_pending\<close> catches, subclasses of \<open>RuntimeError\<close> included.\<close>

definition refusal :: "py_error \<Rightarrow> bool" where
  "refusal err \<longleftrightarrow> err \<in> {ValueError, RuntimeError, OutOfBlocksError, InvalidBlockError, BlockAllocatorError}"

fun drain_pending :: "env \<Rightarrow> pending_request list \<Rightarrow> async \<Rightarrow> py_error option \<times> async" where
  "drain_pending E [] a = (None, a)"
| "drain_pending E (p # ps) a =
     (let a1 = a\<lparr>as_pending := ps\<rparr> in
      case engine_add E (p_request p) (p_prompt p) (p_sampling p) (p_tenant p) (p_priority p) (p_lora p)
             (p_arrival p) (as_engine a1) of
        Inr (x, e) \<Rightarrow> drain_pending E ps (a1\<lparr>as_engine := e\<rparr>)
      | Inl err \<Rightarrow>
          if refusal err
          then drain_pending E ps (put_item (p_queue p) (Raised (Refused err))
                 (a1\<lparr>as_streams := dict_del (p_request p) (as_streams a1)\<rparr>))
          else (Some err, a1))"

definition abort_output :: "string \<Rightarrow> request_output" where
  "abort_output rid = \<lparr>o_request = rid, o_new_tokens = [], o_text = [], o_finished = True, o_reason = Some Abort,
     o_timing = timing_empty, o_prompt_tokens = 0, o_output_tokens = 0, o_cached = 0\<rparr>"

fun drain_aborts :: "env \<Rightarrow> rat \<Rightarrow> string list \<Rightarrow> async \<Rightarrow> py_error option \<times> async" where
  "drain_aborts E now [] a = (None, a)"
| "drain_aborts E now (r # rs) a =
     (let a1 = a\<lparr>as_aborting := rs\<rparr> in
      case engine_abort E r now (as_engine a1) of
        Inl err \<Rightarrow> (Some err, a1)
      | Inr (hit, e) \<Rightarrow>
          let a2 = a1\<lparr>as_engine := e, as_streams := dict_del r (as_streams a1)\<rparr> in
          drain_aborts E now rs
            (case map_of (as_streams a1) r of
               None \<Rightarrow> a2
             | Some k \<Rightarrow> if st_finished (as_store a2 ! k) then a2
                         else put_item k (Delta (abort_output r)) a2))"

fun dispatch :: "request_output list \<Rightarrow> async \<Rightarrow> async" where
  "dispatch [] a = a"
| "dispatch (out # outs) a =
     dispatch outs
       (case map_of (as_streams a) (o_request out) of
          None \<Rightarrow> a
        | Some k \<Rightarrow>
            let a1 = put_item k (Delta out) a in
            if o_finished out
            then a1\<lparr>as_store := (as_store a1)[k := (as_store a1 ! k)\<lparr>st_finished := True\<rparr>],
                    as_streams := dict_del (o_request out) (as_streams a1)\<rparr>
            else a1)"

text \<open>The handler of \<open>_run\<close> for whatever the engine raised.\<close>

definition loop_dies :: "async \<Rightarrow> async" where
  "loop_dies a = fail_all Engine_Dead (a\<lparr>as_error := True, as_loop := Stopped\<rparr>)"

text \<open>The head of \<open>_wait_for_work\<close>; with work queued the loop goes on instead of waiting.\<close>

definition wait_for_work :: "async \<Rightarrow> async" where
  "wait_for_work a = a\<lparr>as_wake := False,
     as_loop := (if as_pending a \<noteq> [] \<or> as_aborting a \<noteq> [] then Ready else Parked)\<rparr>"

text \<open>The loop of \<open>_run\<close> from its head to the next \<open>await\<close>.\<close>

definition loop_turn :: "env \<Rightarrow> rat \<Rightarrow> async \<Rightarrow> async" where
  "loop_turn E now a =
     (case drain_pending E (as_pending a) a of
        (Some err, a1) \<Rightarrow> loop_dies a1
      | (None, a1) \<Rightarrow>
          (case drain_aborts E now (as_aborting a1) a1 of
             (Some err, a2) \<Rightarrow> loop_dies a2
           | (None, a2) \<Rightarrow> if engine_unfinished (as_engine a2) then a2\<lparr>as_loop := Launched\<rparr> else wait_for_work a2))"

text \<open>
  The event loop resumes the task: a new one, one that was woken or timed out, or one whose step
  has returned.
\<close>

definition loop_resume :: "env \<Rightarrow> rat \<Rightarrow> async \<Rightarrow> async option" where
  "loop_resume E now a =
     (case as_loop a of
        Stopped \<Rightarrow> None
      | Launched \<Rightarrow> None
      | Ready \<Rightarrow> Some (loop_turn E now a)
      | Parked \<Rightarrow> Some (loop_turn E now (a\<lparr>as_loop := Ready\<rparr>))
      | Returned (Inl err) \<Rightarrow> Some (loop_dies a)
      | Returned (Inr outs) \<Rightarrow> Some (loop_turn E now (dispatch outs (a\<lparr>as_loop := Ready\<rparr>))))"

text \<open>The step on its thread.\<close>

definition thread_step :: "env \<Rightarrow> rat \<Rightarrow> async \<Rightarrow> async option" where
  "thread_step E now a =
     (if as_loop a \<noteq> Launched then None
      else case engine_step E now (as_engine a) of
        Inl err \<Rightarrow> Some (a\<lparr>as_loop := Returned (Inl err)\<rparr>)
      | Inr (outs, e) \<Rightarrow> Some (a\<lparr>as_engine := e, as_loop := Returned (Inr outs)\<rparr>))"

section \<open>The generators\<close>

definition abort_nowait :: "string \<Rightarrow> async \<Rightarrow> async" where
  "abort_nowait rid a = a\<lparr>as_aborting := as_aborting a @ [rid], as_wake := True\<rparr>"

text \<open>
  \<open>generate\<close> up to its first \<open>get\<close>; \<open>p\<close> carries the arguments. What raises before the \<open>try\<close>
  registers nothing.
\<close>

definition async_generate :: "pending_request \<Rightarrow> async \<Rightarrow> (async_error + nat) \<times> async" where
  "async_generate p a =
     (if as_closed a \<or> as_error a then (Inl Engine_Dead, a)
      else case async_start a of
        Inl err \<Rightarrow> (Inl err, a)
      | Inr a1 \<Rightarrow>
          if map_of (as_streams a1) (p_request p) \<noteq> None then (Inl (Refused ValueError), a1)
          else let k = length (as_store a1); p' = p\<lparr>p_queue := k\<rparr> in
            (Inr k, a1\<lparr>as_store := as_store a1 @ [\<lparr>st_queue = [], st_finished = False\<rparr>],
               as_streams := as_streams a1 @ [(p_request p, k)],
               as_pending := as_pending a1 @ [p'],
               as_consumers := as_consumers a1 @ [\<lparr>co_call = p', co_taken = 0, co_at = At_Get\<rparr>],
               as_wake := True\<rparr>))"

definition set_consumer :: "nat \<Rightarrow> consumer \<Rightarrow> async \<Rightarrow> async" where
  "set_consumer k c a = a\<lparr>as_consumers := (as_consumers a)[k := c]\<rparr>"

text \<open>\<open>get\<close> returns: the item is yielded, or raised through the \<open>finally\<close>.\<close>

definition gen_take :: "nat \<Rightarrow> async \<Rightarrow> async option" where
  "gen_take k a =
     (if length (as_consumers a) \<le> k then None
      else let c = as_consumers a ! k; q = st_queue (as_store a ! k) in
        if co_at c \<noteq> At_Get \<or> length q \<le> co_taken c then None
        else case q ! co_taken c of
          Delta out \<Rightarrow> Some (set_consumer k (c\<lparr>co_taken := co_taken c + 1, co_at := At_Yield (o_finished out)\<rparr>) a)
        | Raised err \<Rightarrow> Some (abort_nowait (p_request (co_call c))
                          (set_consumer k (c\<lparr>co_taken := co_taken c + 1, co_at := Ended\<rparr>) a)))"

text \<open>The consumer asks for the next item: after the final one the generator returns.\<close>

definition gen_resume :: "nat \<Rightarrow> async \<Rightarrow> async option" where
  "gen_resume k a =
     (if length (as_consumers a) \<le> k then None
      else let c = as_consumers a ! k in
        case co_at c of
          At_Yield finished \<Rightarrow> Some (set_consumer k (c\<lparr>co_at := if finished then Ended else At_Get\<rparr>) a)
        | _ \<Rightarrow> None)"

text \<open>The generator is closed or cancelled where it is suspended.\<close>

definition gen_close :: "nat \<Rightarrow> async \<Rightarrow> async option" where
  "gen_close k a =
     (if length (as_consumers a) \<le> k then None
      else let c = as_consumers a ! k in
        if co_at c = Ended then None
        else Some (abort_nowait (p_request (co_call c)) (set_consumer k (c\<lparr>co_at := Ended\<rparr>) a)))"

section \<open>Interleavings\<close>

datatype async_event =
    Generate pending_request
  | Take nat
  | Ask nat
  | Leave nat
  | Abort_Call string
  | Resume_Loop rat
  | Run_Thread rat
  | Start_Loop
  | Close_Async

definition async_do :: "env \<Rightarrow> async_event \<Rightarrow> async \<Rightarrow> async option" where
  "async_do E ev a = (case ev of
     Generate p \<Rightarrow> Some (snd (async_generate p a))
   | Take k \<Rightarrow> gen_take k a
   | Ask k \<Rightarrow> gen_resume k a
   | Leave k \<Rightarrow> gen_close k a
   | Abort_Call rid \<Rightarrow> Some (abort_nowait rid a)
   | Resume_Loop now \<Rightarrow> loop_resume E now a
   | Run_Thread now \<Rightarrow> thread_step E now a
   | Start_Loop \<Rightarrow> (case async_start a of Inl err \<Rightarrow> Some a | Inr a' \<Rightarrow> Some a')
   | Close_Async \<Rightarrow> Some (async_close a))"

definition event_fits :: "env \<Rightarrow> async_event \<Rightarrow> bool" where
  "event_fits E ev = (case ev of Generate p \<Rightarrow> encodable (p_lora p) (prompt_ids E (p_prompt p)) | _ \<Rightarrow> True)"

inductive async_run :: "bytes set \<Rightarrow> env \<Rightarrow> nat \<Rightarrow> scheduler_config \<Rightarrow> async \<Rightarrow> bool" for S E n cfg where
  async_fresh: "engine_init n cfg = Inr e \<Longrightarrow> async_run S E n cfg (async_init e)"
| async_event: "async_run S E n cfg a \<Longrightarrow> event_fits E ev \<Longrightarrow> async_do E ev a = Some a' \<Longrightarrow> seen S E (as_engine a') \<Longrightarrow>
     async_run S E n cfg a'"

end
