(* ===== verification/Async_Inv.thy ===== *)
theory Async_Inv
  imports Async_Engine
begin

text \<open>
  The invariant of the asynchronous engine. \<open>logs_ok\<close> is the protocol between a stream and its
  generator, \<open>intake_ok\<close> where the requests are between the client and the engine, and
  \<open>tokens_ok\<close> what the streams have received. \<open>tr\<close> are the outputs of a step that are
  not dispatched yet, \<open>pend\<close> the arrivals the loop will still hand over.
\<close>

section \<open>Streams and their generators\<close>

definition terminal :: "queue_item \<Rightarrow> bool" where
  "terminal it = (case it of Raised err \<Rightarrow> True | Delta out \<Rightarrow> o_finished out)"

definition delivered :: "stream \<Rightarrow> int list" where
  "delivered st = concat (map (\<lambda>it. case it of Delta out \<Rightarrow> o_new_tokens out | Raised err \<Rightarrow> []) (st_queue st))"

definition is_open :: "(string \<times> nat) list \<Rightarrow> consumer list \<Rightarrow> nat \<Rightarrow> bool" where
  "is_open D cs k \<longleftrightarrow> map_of D (p_request (co_call (cs ! k))) = Some k"

definition log_ok :: "bool \<Rightarrow> stream \<Rightarrow> bool" where
  "log_ok reg st \<longleftrightarrow>
     (if reg then \<not> st_finished st \<and> list_all (\<lambda>it. \<not> terminal it) (st_queue st)
      else \<exists>xs t. st_queue st = xs @ [t] \<and> terminal t \<and> list_all (\<lambda>it. \<not> terminal it) xs)"

definition consumer_ok :: "stream \<Rightarrow> consumer \<Rightarrow> bool" where
  "consumer_ok st c \<longleftrightarrow> co_taken c \<le> length (st_queue st)
     \<and> (case co_at c of
          At_Get \<Rightarrow> list_all (\<lambda>it. \<not> terminal it) (take (co_taken c) (st_queue st))
        | At_Yield b \<Rightarrow> 0 < co_taken c \<and> list_all (\<lambda>it. \<not> terminal it) (take (co_taken c - 1) (st_queue st))
            \<and> (\<exists>out. st_queue st ! (co_taken c - 1) = Delta out \<and> o_finished out = b)
        | Ended \<Rightarrow> True)"

definition logs_ok :: "(string \<times> nat) list \<Rightarrow> stream list \<Rightarrow> consumer list \<Rightarrow> bool" where
  "logs_ok D sts cs \<longleftrightarrow> length cs = length sts \<and> distinct (map fst D)
     \<and> (\<forall>(r, k) \<in> set D. k < length sts \<and> p_request (co_call (cs ! k)) = r)
     \<and> (\<forall>k < length sts. p_queue (co_call (cs ! k)) = k \<and> log_ok (is_open D cs k) (sts ! k)
          \<and> consumer_ok (sts ! k) (cs ! k))"

lemma delivered_put [simp]:
  "delivered (st\<lparr>st_queue := st_queue st @ [Delta out]\<rparr>) = delivered st @ o_new_tokens out"
  "delivered (st\<lparr>st_queue := st_queue st @ [Raised err]\<rparr>) = delivered st"
  "delivered (st\<lparr>st_finished := b\<rparr>) = delivered st"
  by (simp_all add: delivered_def)

lemma consumer_grows: "consumer_ok st c \<Longrightarrow> st_queue st' = st_queue st @ ys \<Longrightarrow> consumer_ok st' c"
  by (auto simp: consumer_ok_def nth_append split: paused.splits)

lemma logs_openD:
  assumes "logs_ok D sts cs" "map_of D r = Some k"
  shows "k < length sts" "p_request (co_call (cs ! k)) = r" "is_open D cs k"
  using assms map_of_SomeD [OF assms(2)] by (auto simp: logs_ok_def is_open_def)

lemma is_open_del: "is_open (dict_del r D) cs k \<longleftrightarrow> is_open D cs k \<and> p_request (co_call (cs ! k)) \<noteq> r"
  by (simp add: is_open_def map_of_dict_del)

text \<open>An item is put on an open stream: it stays open, or the item is terminal and closes it.\<close>

lemma logs_put:
  assumes L: "logs_ok D sts cs" and r: "map_of D r = Some k" and it: "\<not> terminal it"
  shows "logs_ok D (sts[k := (sts ! k)\<lparr>st_queue := st_queue (sts ! k) @ [it]\<rparr>]) cs"
proof -
  note k = logs_openD [OF L r]
  let ?st = "(sts ! k)\<lparr>st_queue := st_queue (sts ! k) @ [it]\<rparr>"
  have old: "log_ok (is_open D cs j) (sts ! j)" if "j < length sts" for j using L that unfolding logs_ok_def by blast
  have "log_ok True (sts ! k)" using old [OF k(1)] k(3) by simp
  then have "log_ok True ?st" using it by (simp add: log_ok_def)
  then have "log_ok (is_open D cs j) (sts[k := ?st] ! j)" if "j < length sts" for j
    using old that k(1,3) by (cases "j = k") simp_all
  moreover have "consumer_ok (sts[k := ?st] ! j) (cs ! j)" if "j < length sts" for j
    using L k(1) that consumer_grows [of "sts ! k" _ ?st] by (cases "j = k") (simp_all add: logs_ok_def)
  ultimately show ?thesis using L by (simp add: logs_ok_def)
qed

lemma logs_end:
  assumes L: "logs_ok D sts cs" and r: "map_of D r = Some k" and it: "terminal it" and st: "st_queue st = st_queue (sts ! k) @ [it]"
  shows "logs_ok (dict_del r D) (sts[k := st]) cs"
proof -
  note k = logs_openD [OF L r]
  have old: "log_ok (is_open D cs j) (sts ! j)" if "j < length sts" for j using L that unfolding logs_ok_def by blast
  have "log_ok True (sts ! k)" using old [OF k(1)] k(3) by simp
  then have "log_ok False st" using it by (simp add: log_ok_def st)
  moreover have "is_open (dict_del r D) cs j = is_open D cs j" if "j \<noteq> k" for j
    using that r unfolding is_open_del by (auto simp: is_open_def)
  moreover have "\<not> is_open (dict_del r D) cs k" using k(2) by (simp add: is_open_del)
  ultimately have "log_ok (is_open (dict_del r D) cs j) (sts[k := st] ! j)" if "j < length sts" for j
    using old that k(1) by (cases "j = k") simp_all
  moreover have "consumer_ok (sts[k := st] ! j) (cs ! j)" if "j < length sts" for j
    using L k(1) that consumer_grows [OF _ st] by (cases "j = k") (simp_all add: logs_ok_def)
  moreover have "distinct (map fst (dict_del r D))" using L by (simp add: logs_ok_def keys_dict_del)
  ultimately show ?thesis
    using L dict_del_all [of D "\<lambda>r k. k < length sts \<and> p_request (co_call (cs ! k)) = r"] by (simp add: logs_ok_def)
qed

lemma logs_new:
  assumes L: "logs_ok D sts cs" and r: "map_of D (p_request p) = None"
    and p: "p' = p\<lparr>p_queue := length sts\<rparr>" "c = \<lparr>co_call = p', co_taken = 0, co_at = At_Get\<rparr>"
  shows "logs_ok (D @ [(p_request p, length sts)]) (sts @ [\<lparr>st_queue = [], st_finished = False\<rparr>]) (cs @ [c])"
proof -
  let ?D = "D @ [(p_request p, length sts)]"
  have len: "length cs = length sts" using L by (simp add: logs_ok_def)
  have old: "is_open ?D (cs @ [c]) k = is_open D cs k" if "k < length sts" for k
    using that len by (auto simp: is_open_def nth_append map_add_def split: option.splits)
  have "is_open ?D (cs @ [c]) (length sts)" using r p len by (simp add: is_open_def nth_append map_add_def)
  moreover have "p_request p \<notin> fst ` set D" using r by (simp add: map_of_eq_None_iff)
  ultimately show ?thesis
    using L old p
    by (fastforce simp: logs_ok_def nth_append less_Suc_eq log_ok_def consumer_ok_def split: prod.splits)
qed

lemma logs_consumer:
  assumes L: "logs_ok D sts cs" and k: "k < length cs" and c: "co_call c = co_call (cs ! k)" "consumer_ok (sts ! k) c"
  shows "logs_ok D sts (cs[k := c])"
proof -
  have same: "co_call (cs[k := c] ! j) = co_call (cs ! j)" if "j < length cs" for j
    using that c(1) by (cases "j = k") simp_all
  have "is_open D (cs[k := c]) j = is_open D cs j" if "j < length cs" for j
    using same [OF that] by (simp add: is_open_def)
  moreover have "consumer_ok (sts ! j) (cs[k := c] ! j)" if "j < length cs" for j
    using L that c(2) by (cases "j = k") (simp_all add: logs_ok_def)
  ultimately show ?thesis
    using L same by (auto simp: logs_ok_def split: prod.splits)
qed

section \<open>Where the requests are\<close>

definition intake_ok ::
  "env \<Rightarrow> request_output list \<Rightarrow> pending_request list \<Rightarrow> (string \<times> nat) list \<Rightarrow> (string \<rightharpoonup> nat)
     \<Rightarrow> stream list \<Rightarrow> consumer list \<Rightarrow> bool" where
  "intake_ok E tr pend D fl sts cs \<longleftrightarrow> distinct (map p_request pend) \<and> distinct (map o_request tr)
     \<and> (\<forall>p \<in> set pend. map_of D (p_request p) = Some (p_queue p) \<and> co_call (cs ! p_queue p) = p
          \<and> st_queue (sts ! p_queue p) = [] \<and> fl (p_request p) = None \<and> p_request p \<notin> o_request ` set tr
          \<and> encodable (p_lora p) (prompt_ids E (p_prompt p)))
     \<and> (\<forall>out \<in> set tr. map_of D (o_request out) \<noteq> None \<and> (o_finished out \<longleftrightarrow> fl (o_request out) = None))
     \<and> (\<forall>r. fl r \<noteq> None \<longrightarrow> map_of D r \<noteq> None)
     \<and> (\<forall>r. map_of D r \<noteq> None \<longrightarrow> r \<in> p_request ` set pend \<or> fl r \<noteq> None \<or> r \<in> o_request ` set tr)"

section \<open>What the streams have received\<close>

definition same_call :: "env \<Rightarrow> pending_request \<Rightarrow> seqn \<Rightarrow> bool" where
  "same_call E p q \<longleftrightarrow> q_request q = p_request p \<and> q_prompt q = prompt_ids E (p_prompt p)
     \<and> q_sampling q = (case p_sampling p of None \<Rightarrow> sampling_default | Some sp \<Rightarrow> sp) \<and> q_lora q = p_lora p"

text \<open>A stream that ended with an output got the whole of the request's output, any other a prefix.\<close>

definition got_all :: "stream \<Rightarrow> seqn \<Rightarrow> bool" where
  "got_all st q \<longleftrightarrow> prefix (delivered st) (q_output q)
     \<and> (\<forall>out. last (st_queue st) = Delta out \<longrightarrow> delivered st = q_output q)"

text \<open>Sequence \<open>x\<close> of the engine is the one of call \<open>k\<close>, and its output is where it belongs.\<close>

definition serves :: "env \<Rightarrow> request_output list \<Rightarrow> bool \<Rightarrow> sched \<Rightarrow> stream \<Rightarrow> pending_request \<Rightarrow> nat \<Rightarrow> bool" where
  "serves E tr reg s st p x \<longleftrightarrow> x < s_counter s \<and> same_call E p (obj x s)
     \<and> (if reg then q_output (obj x s) = delivered st @ received (p_request p) tr
               \<and> (s_by_request s (p_request p) = None \<or> s_by_request s (p_request p) = Some x)
        else x \<notin> everyone s \<and> got_all st (obj x s))"

definition tokens_ok ::
  "env \<Rightarrow> request_output list \<Rightarrow> pending_request list \<Rightarrow> (string \<times> nat) list \<Rightarrow> sched \<Rightarrow> stream list \<Rightarrow> consumer list \<Rightarrow> bool"
where
  "tokens_ok E tr pend D s sts cs \<longleftrightarrow> (\<forall>k < length sts. co_call (cs ! k) \<in> set pend
     \<or> \<not> is_open D cs k \<and> delivered (sts ! k) = []
     \<or> (\<exists>x. serves E tr (is_open D cs k) s (sts ! k) (co_call (cs ! k)) x))"

lemma in_everyone:
  "sched_inv D s \<Longrightarrow> x \<in> everyone s \<longleftrightarrow> s_by_request s (q_request (obj x s)) = Some x"
  by (simp add: sched_inv_def)

text \<open>
  An operation of the engine that gives nobody tokens; it may end request \<open>p\<close>, or admit a new
  one under its name once its own stream is closed.
\<close>

lemma serves_gave:
  assumes g: "gave (\<lambda>_. []) e e'" and inv: "sched_inv D (e_sched e)" "sched_inv D (e_sched e')"
    and fl: "s_by_request (e_sched e') (p_request p) = s_by_request (e_sched e) (p_request p)
      \<or> s_by_request (e_sched e') (p_request p) = None
      \<or> \<not> reg \<and> s_by_request (e_sched e') (p_request p) = Some (s_counter (e_sched e))"
    and s: "serves E tr reg (e_sched e) st p x"
  shows "serves E tr reg (e_sched e') st p x"
proof -
  have x: "x < s_counter (e_sched e)" "q_request (obj x (e_sched e)) = p_request p" using s by (simp_all add: serves_def same_call_def)
  have r: "same_request (obj x (e_sched e)) (obj x (e_sched e'))" "q_output (obj x (e_sched e')) = q_output (obj x (e_sched e))"
    "s_counter (e_sched e) \<le> s_counter (e_sched e')"
    using g x by (simp_all add: gave_def)
  then have "x \<in> everyone (e_sched e') \<longrightarrow> x \<in> everyone (e_sched e)"
    using in_everyone [OF inv(1), of x] in_everyone [OF inv(2), of x] x fl by (auto simp: same_request_def)
  then show ?thesis using r s fl by (auto simp: serves_def same_call_def same_request_def got_all_def)
qed

lemma serves_end:
  assumes inv: "sched_inv D s" and fl: "s_by_request s (p_request p) = None"
    and s: "serves E tr True s st p x" and d: "delivered st' = q_output (obj x s)"
  shows "serves E tr' False s st' p x"
  using in_everyone [OF inv, of x] fl s d by (auto simp: serves_def same_call_def got_all_def)

section \<open>All of it\<close>

text \<open>A closed engine hands nothing over any more.\<close>

definition waiting_calls :: "async \<Rightarrow> pending_request list" where
  "waiting_calls a = (if as_closed a then [] else as_pending a)"

definition base_ok :: "env \<Rightarrow> request_output list \<Rightarrow> async \<Rightarrow> bool" where
  "base_ok E tr a \<longleftrightarrow> sched_inv (en_digest E) (e_sched (as_engine a)) \<and> \<not> as_error a
     \<and> e_closed (as_engine a) = as_closed a \<and> (as_closed a \<longrightarrow> as_streams a = [])
     \<and> logs_ok (as_streams a) (as_store a) (as_consumers a)
     \<and> intake_ok E tr (waiting_calls a) (as_streams a) (s_by_request (e_sched (as_engine a))) (as_store a) (as_consumers a)
     \<and> tokens_ok E tr (waiting_calls a) (as_streams a) (e_sched (as_engine a)) (as_store a) (as_consumers a)"

definition transit :: "async \<Rightarrow> request_output list" where
  "transit a = (case as_loop a of Returned (Inr outs) \<Rightarrow> outs | _ \<Rightarrow> [])"

text \<open>
  The loop: it stands still only while there is nothing to do, and it never holds an exception.
\<close>

definition loop_ok :: "async \<Rightarrow> bool" where
  "loop_ok a \<longleftrightarrow> (\<forall>err. as_loop a \<noteq> Returned (Inl err)) \<and> (as_closed a \<longrightarrow> as_loop a = Stopped)
     \<and> (as_loop a = Stopped \<longrightarrow> as_streams a = [])
     \<and> (as_loop a = Parked \<longrightarrow> s_by_request (e_sched (as_engine a)) = Map.empty
          \<and> (as_pending a \<noteq> [] \<or> as_aborting a \<noteq> [] \<longrightarrow> as_wake a))"

definition async_ok :: "bytes set \<Rightarrow> env \<Rightarrow> nat \<Rightarrow> scheduler_config \<Rightarrow> async \<Rightarrow> bool" where
  "async_ok S E n cfg a \<longleftrightarrow> engine_run S E n cfg (as_engine a) \<and> base_ok E (transit a) a \<and> loop_ok a"

end
