(* ===== verification/Async_Moves.thy ===== *)
theory Async_Moves
  imports Async_Inv
begin

text \<open>How each move of a request between client, loop and engine keeps the invariant.\<close>

section \<open>From the queue of arrivals into the engine\<close>

lemma intake_call:
  assumes "intake_ok E tr pend D fl sts cs" "p \<in> set pend"
  shows "is_open D cs (p_queue p)" "map_of D (p_request p) = Some (p_queue p)" "st_queue (sts ! p_queue p) = []"
    "fl (p_request p) = None" "p_request p \<notin> o_request ` set tr" "encodable (p_lora p) (prompt_ids E (p_prompt p))"
    "co_call (cs ! p_queue p) = p"
  using assms by (auto simp: intake_ok_def is_open_def)

lemma intake_admit:
  assumes I: "intake_ok E [] (p # ps) D fl sts cs"
  shows "intake_ok E [] ps D (fl(p_request p \<mapsto> x)) sts cs"
proof -
  have d: "distinct (map p_request ps)" "p_request p \<notin> p_request ` set ps" using I by (simp_all add: intake_ok_def)
  have q: "map_of D (p_request q) = Some (p_queue q) \<and> co_call (cs ! p_queue q) = q \<and> st_queue (sts ! p_queue q) = []
      \<and> fl (p_request q) = None \<and> encodable (p_lora q) (prompt_ids E (p_prompt q))" if "q \<in> set (p # ps)" for q
    using I that unfolding intake_ok_def by auto
  have r: "fl r \<noteq> None \<longrightarrow> map_of D r \<noteq> None" "map_of D r \<noteq> None \<longrightarrow> r \<in> p_request ` set (p # ps) \<or> fl r \<noteq> None" for r
    using I unfolding intake_ok_def list.set(1) image_empty by blast+
  have "p_request q' \<noteq> p_request p" if "q' \<in> set ps" for q'
    using d(2) imageI [OF that, of p_request] by metis
  moreover have "map_of D (p_request p) \<noteq> None" using q [of p] by simp
  ultimately show ?thesis
    unfolding intake_ok_def using d(1) q r by simp metis
qed

lemma tokens_admit:
  assumes T: "tokens_ok E [] (p # ps) D (e_sched e) sts cs"
    and I: "intake_ok E [] (p # ps) D (s_by_request (e_sched e)) sts cs"
    and L: "logs_ok D sts cs" and inv: "sched_inv (en_digest E) (e_sched e)"
    and add: "engine_add E (p_request p) (p_prompt p) (p_sampling p) (p_tenant p) (p_priority p) (p_lora p) (p_arrival p) e
      = Inr (x, e')"
  shows "tokens_ok E [] ps D (e_sched e') sts cs"
  unfolding tokens_ok_def
proof (intro allI impI)
  fix k assume k: "k < length sts"
  note c = intake_call [OF I, of p, simplified]
  note a = add_gave [OF inv c(6) add]
  let ?s' = "e_sched e'"
  show "co_call (cs ! k) \<in> set ps \<or> \<not> is_open D cs k \<and> delivered (sts ! k) = []
     \<or> (\<exists>y. serves E [] (is_open D cs k) ?s' (sts ! k) (co_call (cs ! k)) y)"
  proof (cases "co_call (cs ! k) = p")
    case True
    then have kp: "k = p_queue p" using L k by (auto simp: logs_ok_def)
    have "serves E [] True ?s' (sts ! k) p x"
      using a c(3) kp by (auto simp: serves_def same_call_def received_def delivered_def)
    then show ?thesis using c(1) kp True by auto
  next
    case False
    have fl: "s_by_request ?s' (p_request (co_call (cs ! k))) = s_by_request (e_sched e) (p_request (co_call (cs ! k)))
      \<or> s_by_request ?s' (p_request (co_call (cs ! k))) = None
      \<or> \<not> is_open D cs k \<and> s_by_request ?s' (p_request (co_call (cs ! k))) = Some (s_counter (e_sched e))"
      using a c False by (auto simp: is_open_def)
    have inv': "sched_inv (en_digest E) ?s'" using a by blast
    have "co_call (cs ! k) \<in> set ps \<or> \<not> is_open D cs k \<and> delivered (sts ! k) = []
       \<or> (\<exists>y. serves E [] (is_open D cs k) (e_sched e) (sts ! k) (co_call (cs ! k)) y)"
      using T k False by (auto simp: tokens_ok_def)
    then show ?thesis using serves_gave [OF conjunct1 [OF a] inv inv' fl] by blast
  qed
qed

section \<open>Streams that end\<close>

lemma open_apart:
  assumes L: "logs_ok D sts cs" and r: "map_of D r = Some k" and j: "j < length sts" "j \<noteq> k"
  shows "is_open (dict_del r D) cs j = is_open D cs j" and "is_open D cs j \<Longrightarrow> p_request (co_call (cs ! j)) \<noteq> r"
  using assms unfolding is_open_del by (auto simp: is_open_def)

text \<open>Stream \<open>k\<close> of a request that is not in the engine any more is closed without a token.\<close>

lemma intake_end:
  assumes I: "intake_ok E [] pend D fl sts cs" and L: "logs_ok D sts cs" and r: "map_of D r = Some k"
    and pend: "pend' = filter (\<lambda>p. p_request p \<noteq> r) pend"
  shows "intake_ok E [] pend' (dict_del r D) (fl(r := None)) (sts[k := st]) cs"
proof -
  have "st_queue (sts[k := st] ! p_queue p) = []" if "p \<in> set pend" "p_request p \<noteq> r" for p
    using I that logs_openD(2) [OF L r] by (cases "p_queue p = k") (auto simp: intake_ok_def)
  then show ?thesis
    using I unfolding intake_ok_def pend by (auto simp: map_of_dict_del distinct_map_filter)
qed

lemma tokens_end:
  assumes T: "tokens_ok E [] pend D (e_sched e) sts cs" and L: "logs_ok D sts cs"
    and r: "map_of D r = Some k" and pend: "pend' = filter (\<lambda>p. p_request p \<noteq> r) pend"
    and I: "intake_ok E [] pend D fl sts cs"
    and inv: "sched_inv G (e_sched e)" "sched_inv G (e_sched e')" and g: "gave (\<lambda>_. []) e e'"
    and fl: "s_by_request (e_sched e') = (s_by_request (e_sched e))(r := None)" and st: "delivered st = delivered (sts ! k)"
  shows "tokens_ok E [] pend' (dict_del r D) (e_sched e') (sts[k := st]) cs"
  unfolding tokens_ok_def
proof (intro allI impI)
  fix j assume "j < length (sts[k := st])"
  then have j: "j < length sts" by simp
  let ?p = "co_call (cs ! j)" and ?s' = "e_sched e'" and ?D' = "dict_del r D"
  note k = logs_openD [OF L r]
  have fl': "s_by_request ?s' (p_request p) = s_by_request (e_sched e) (p_request p) \<or> s_by_request ?s' (p_request p) = None
     \<or> \<not> reg \<and> s_by_request ?s' (p_request p) = Some (s_counter (e_sched e))" for p reg by (simp add: fl)
  note keep = serves_gave [OF g inv fl']
  consider (pend) "?p \<in> set pend" | (none) "\<not> is_open D cs j" "delivered (sts ! j) = []"
    | (some) y where "serves E [] (is_open D cs j) (e_sched e) (sts ! j) ?p y"
    using T j by (auto simp: tokens_ok_def)
  then show "?p \<in> set pend' \<or> \<not> is_open ?D' cs j \<and> delivered (sts[k := st] ! j) = []
     \<or> (\<exists>x. serves E [] (is_open ?D' cs j) ?s' (sts[k := st] ! j) ?p x)"
  proof cases
    case pend
    have "delivered (sts ! j) = []" if "p_request ?p = r"
    proof -
      have "j = p_queue ?p" using L j by (simp add: logs_ok_def)
      then show ?thesis using intake_call(3) [OF I pend] by (simp add: delivered_def)
    qed
    then show ?thesis using pend st assms(4) k(1) by (cases "j = k") (auto simp: is_open_del)
  next
    case none
    then show ?thesis using st k(1) by (cases "j = k") (auto simp: is_open_del)
  next
    case (some y)
    note y = keep [OF some]
    show ?thesis
    proof (cases "j = k")
      case True
      have yk: "serves E [] True ?s' (sts ! k) (co_call (cs ! k)) y" using y True k(3) by simp
      then have "delivered st = q_output (obj y ?s')" by (simp add: serves_def st received_def)
      then have "serves E [] False ?s' st (co_call (cs ! k)) y"
        by (intro serves_end [OF inv(2) _ yk]) (simp_all add: k(2) fl)
      then show ?thesis using True k by (auto simp: is_open_del)
    next
      case False
      then show ?thesis using y open_apart(1) [OF L r j False] by auto
    qed
  qed
qed

section \<open>Dispatching the outputs of a step\<close>

lemma received_Cons: "received r (out # outs) = (if o_request out = r then o_new_tokens out else []) @ received r outs"
  by (simp add: received_def)

lemma intake_dispatch:
  assumes I: "intake_ok E (out # outs) pend D fl sts cs" and L: "logs_ok D sts cs" and r: "map_of D (o_request out) = Some k"
    and D': "D' = (if o_finished out then dict_del (o_request out) D else D)"
  shows "intake_ok E outs pend D' fl (sts[k := st]) cs"
proof -
  let ?r = "o_request out"
  have p: "p_request p \<noteq> ?r" "k \<noteq> p_queue p" if "p \<in> set pend" for p
  proof -
    show n: "p_request p \<noteq> ?r" using intake_call(5) [OF I that] by auto
    show "k \<noteq> p_queue p" using n intake_call(7) [OF I that] logs_openD(2) [OF L r] by auto
  qed
  have t: "o_request o' \<noteq> ?r" if "o' \<in> set outs" for o'
    using I imageI [OF that, of o_request] by (auto simp: intake_ok_def)
  have f: "o_finished out \<longleftrightarrow> fl ?r = None" using I by (simp add: intake_ok_def)
  show ?thesis
    using I p t f unfolding intake_ok_def D' by (auto simp: map_of_dict_del)
qed

lemma tokens_dispatch:
  assumes T: "tokens_ok E (out # outs) pend D s sts cs" and I: "intake_ok E (out # outs) pend D (s_by_request s) sts cs"
    and L: "logs_ok D sts cs" and inv: "sched_inv G s" and r: "map_of D (o_request out) = Some k"
    and D': "D' = (if o_finished out then dict_del (o_request out) D else D)"
    and st: "delivered st = delivered (sts ! k) @ o_new_tokens out"
  shows "tokens_ok E outs pend D' s (sts[k := st]) cs"
  unfolding tokens_ok_def
proof (intro allI impI)
  fix j assume "j < length (sts[k := st])"
  then have j: "j < length sts" by simp
  let ?p = "co_call (cs ! j)" and ?r = "o_request out"
  note k = logs_openD [OF L r]
  show "?p \<in> set pend \<or> \<not> is_open D' cs j \<and> delivered (sts[k := st] ! j) = []
     \<or> (\<exists>x. serves E outs (is_open D' cs j) s (sts[k := st] ! j) ?p x)"
  proof (cases "j = k")
    case True
    have "co_call (cs ! k) \<notin> set pend" using intake_call(5) [OF I] k(2) by auto
    then obtain x where x: "serves E (out # outs) True s (sts ! k) (co_call (cs ! k)) x"
      using T k(1,3) by (auto simp: tokens_ok_def)
    have "serves E outs (is_open D' cs k) s st (co_call (cs ! k)) x"
    proof (cases "o_finished out")
      case True
      have "s_by_request s (p_request (co_call (cs ! k))) = None" using I True k(2) by (simp add: intake_ok_def)
      moreover have "received (o_request out) outs = []" using I by (intro received_none) (simp add: intake_ok_def)
      then have "delivered st = q_output (obj x s)" using x st k(2) by (simp add: serves_def received_Cons)
      ultimately show ?thesis using serves_end [OF inv _ x, of st outs] k(2) by (simp add: D' True is_open_del)
    next
      case False
      then show ?thesis using x st k(2,3) by (simp add: D' serves_def received_Cons)
    qed
    then show ?thesis using True k(1) by auto
  next
    case False
    have op: "is_open D' cs j = is_open D cs j" using open_apart(1) [OF L r j False] by (simp add: D')
    have "serves E outs (is_open D cs j) s (sts ! j) ?p x" if "serves E (out # outs) (is_open D cs j) s (sts ! j) ?p x" for x
      using that open_apart(2) [OF L r j False] by (auto simp: serves_def received_Cons split: if_splits)
    then show ?thesis using T j False op by (auto simp: tokens_ok_def)
  qed
qed

section \<open>The state as a whole\<close>

text \<open>A stream is closed because its request was refused, or aborted.\<close>

lemma gave_refl [simp]: "gave (\<lambda>_. []) e e"
  by (simp add: gave_def same_request_def)

lemma base_end:
  assumes B: "base_ok E [] a" and cl: "\<not> as_closed a" and r: "map_of (as_streams a) r = Some k"
    and it: "terminal it" and d: "delivered (st\<lparr>st_queue := st_queue st @ [it]\<rparr>) = delivered st" and st: "st = as_store a ! k"
    and g: "gave (\<lambda>_. []) (as_engine a) e" and inv: "sched_inv (en_digest E) (e_sched e)"
    and fl: "s_by_request (e_sched e) = (s_by_request (e_sched (as_engine a)))(r := None)" and ec: "e_closed e = e_closed (as_engine a)"
    and b: "as_engine b = e" "as_pending b = filter (\<lambda>p. p_request p \<noteq> r) (as_pending a)" "as_store b = as_store a"
      "as_streams b = dict_del r (as_streams a)" "as_consumers b = as_consumers a" "as_error b = as_error a" "as_closed b = as_closed a"
  shows "base_ok E [] (put_item k it b)"
proof -
  have L: "logs_ok (as_streams a) (as_store a) (as_consumers a)"
    and I: "intake_ok E [] (as_pending a) (as_streams a) (s_by_request (e_sched (as_engine a))) (as_store a) (as_consumers a)"
    and T: "tokens_ok E [] (as_pending a) (as_streams a) (e_sched (as_engine a)) (as_store a) (as_consumers a)"
    and inv0: "sched_inv (en_digest E) (e_sched (as_engine a))"
    using B cl by (simp_all add: base_ok_def waiting_calls_def)
  have st': "delivered ((as_store a ! k)\<lparr>st_queue := st_queue (as_store a ! k) @ [it]\<rparr>) = delivered (as_store a ! k)"
    using d st by simp
  from logs_end [OF L r it, of "(as_store a ! k)\<lparr>st_queue := st_queue (as_store a ! k) @ [it]\<rparr>"]
    intake_end [OF I L r refl] tokens_end [OF T L r refl I inv0 inv g fl st']
  show ?thesis
    using B cl inv ec fl by (simp add: base_ok_def waiting_calls_def put_item_def b)
qed

text \<open>Aborting a request that has no stream changes nothing that matters.\<close>

lemma base_engine:
  assumes B: "base_ok E [] a" and g: "gave (\<lambda>_. []) (as_engine a) e" and inv: "sched_inv (en_digest E) (e_sched e)"
    and fl: "s_by_request (e_sched e) = s_by_request (e_sched (as_engine a))" and ec: "e_closed e = e_closed (as_engine a)"
  shows "base_ok E [] (a\<lparr>as_engine := e\<rparr>)"
proof -
  let ?s = "e_sched (as_engine a)"
  have inv0: "sched_inv (en_digest E) ?s" using B by (simp add: base_ok_def)
  have "serves E [] reg ?s st p x \<Longrightarrow> serves E [] reg (e_sched e) st p x" for reg st p x
    by (rule serves_gave [OF g inv0 inv]) (simp_all add: fl)
  then have "tokens_ok E [] pend D ?s sts cs \<Longrightarrow> tokens_ok E [] pend D (e_sched e) sts cs" for pend D sts cs
    unfolding tokens_ok_def by meson
  then have "tokens_ok E [] (waiting_calls a) (as_streams a) (e_sched e) (as_store a) (as_consumers a)"
    using B by (simp add: base_ok_def)
  then show ?thesis using B inv ec fl by (auto simp: base_ok_def waiting_calls_def)
qed

lemma base_fields:
  "base_ok E tr (a\<lparr>as_loop := l\<rparr>) = base_ok E tr a" "base_ok E tr (a\<lparr>as_wake := w\<rparr>) = base_ok E tr a"
  "base_ok E tr (a\<lparr>as_aborting := rs\<rparr>) = base_ok E tr a"
  by (simp_all add: base_ok_def waiting_calls_def)

end
