(* ===== verification/Async_Reach.thy ===== *)
theory Async_Reach
  imports Async_Moves
begin

text \<open>The loop and the generators keep the invariant, so it holds of whatever interleaving happened.\<close>

section \<open>The drains\<close>

text \<open>
  From \<open>e\<close> to \<open>e'\<close> only client calls happened: if what \<open>e'\<close> stands for is in \<open>S\<close>, so was all along.
\<close>

definition eng_later :: "bytes set \<Rightarrow> env \<Rightarrow> nat \<Rightarrow> scheduler_config \<Rightarrow> engine \<Rightarrow> engine \<Rightarrow> bool" where
  "eng_later S E n cfg e e' \<longleftrightarrow> (seen S E e' \<longrightarrow> seen S E e \<and> (engine_run S E n cfg e \<longrightarrow> engine_run S E n cfg e'))"

lemma eng_later_refl [simp]: "eng_later S E n cfg e e"
  by (simp add: eng_later_def)

lemma eng_later_trans: "eng_later S E n cfg e1 e2 \<Longrightarrow> eng_later S E n cfg e2 e3 \<Longrightarrow> eng_later S E n cfg e1 e3"
  by (simp add: eng_later_def)

lemma eng_later_call: "gave f e e' \<Longrightarrow> call_fits E c \<Longrightarrow> engine_do E c e = Inr (outs, e') \<Longrightarrow> eng_later S E n cfg e e'"
  using gave_seen engine_call by (fastforce simp: eng_later_def)

definition same_loop :: "async \<Rightarrow> async \<Rightarrow> bool" where
  "same_loop a a' \<longleftrightarrow> as_loop a' = as_loop a \<and> as_wake a' = as_wake a \<and> as_closed a' = as_closed a"

lemma same_loop_trans: "same_loop a b \<Longrightarrow> same_loop b c \<Longrightarrow> same_loop a c"
  by (simp add: same_loop_def)

lemma put_item_fields [simp]:
  "as_engine (put_item k it a) = as_engine a" "as_pending (put_item k it a) = as_pending a"
  "as_aborting (put_item k it a) = as_aborting a" "as_streams (put_item k it a) = as_streams a"
  "as_consumers (put_item k it a) = as_consumers a" "as_wake (put_item k it a) = as_wake a"
  "as_loop (put_item k it a) = as_loop a" "as_error (put_item k it a) = as_error a"
  "as_closed (put_item k it a) = as_closed a" "length (as_store (put_item k it a)) = length (as_store a)"
  by (simp_all add: put_item_def)

lemma base_same:
  "base_ok E tr a \<Longrightarrow> as_engine b = as_engine a \<Longrightarrow> as_pending b = as_pending a \<Longrightarrow> as_store b = as_store a \<Longrightarrow>
   as_streams b = as_streams a \<Longrightarrow> as_consumers b = as_consumers a \<Longrightarrow> as_error b = as_error a \<Longrightarrow> as_closed b = as_closed a \<Longrightarrow>
   base_ok E tr b"
  unfolding base_ok_def waiting_calls_def by presburger

lemma drain_pending_ok:
  assumes "base_ok E [] a" "\<not> as_closed a" "as_pending a = ps"
  shows "\<exists>a'. drain_pending E ps a = (None, a') \<and> base_ok E [] a' \<and> as_pending a' = [] \<and> as_aborting a' = as_aborting a
     \<and> same_loop a a' \<and> eng_later S E n cfg (as_engine a) (as_engine a')"
  using assms
proof (induction ps arbitrary: a)
  case Nil
  then show ?case by (simp add: same_loop_def)
next
  case (Cons p ps)
  have I: "intake_ok E [] (p # ps) (as_streams a) (s_by_request (e_sched (as_engine a))) (as_store a) (as_consumers a)"
    and T: "tokens_ok E [] (p # ps) (as_streams a) (e_sched (as_engine a)) (as_store a) (as_consumers a)"
    and L: "logs_ok (as_streams a) (as_store a) (as_consumers a)" and inv: "sched_inv (en_digest E) (e_sched (as_engine a))"
    using Cons.prems by (simp_all add: base_ok_def waiting_calls_def)
  note c = intake_call [OF I, of p, simplified]
  let ?a1 = "a\<lparr>as_pending := ps\<rparr>"
  show ?case
  proof (cases "engine_add E (p_request p) (p_prompt p) (p_sampling p) (p_tenant p) (p_priority p) (p_lora p)
             (p_arrival p) (as_engine a)")
    case (Inr xe)
    obtain x e where xe: "xe = (x, e)" by fastforce
    note add = Inr [unfolded xe]
    note g = add_gave [OF inv c(6) add]
    let ?b = "?a1\<lparr>as_engine := e\<rparr>"
    have "base_ok E [] ?b"
      using Cons.prems L g tokens_admit [OF T I L inv add] intake_admit [OF I, of x] by (simp add: base_ok_def waiting_calls_def)
    moreover have "eng_later S E n cfg (as_engine a) e"
      by (rule eng_later_call [OF conjunct1 [OF g], of _ "Submit (p_request p) (p_prompt p) (p_sampling p) (p_tenant p) (p_priority p) (p_lora p) (p_arrival p)"])
        (use c(6) add in \<open>simp_all add: call_fits_def engine_do_def\<close>)
    ultimately show ?thesis
      using Cons.IH [of ?b] Cons.prems(2) add by (auto simp: same_loop_def intro: eng_later_trans)
  next
    case (Inl err)
    let ?b = "?a1\<lparr>as_streams := dict_del (p_request p) (as_streams a)\<rparr>"
    have rf: "refusal err" using add_refusals [OF Inl] by (auto simp: refusal_def)
    have "filter (\<lambda>q. p_request q \<noteq> p_request p) ps = ps"
      using I by (auto simp: intake_ok_def filter_id_conv image_iff)
    then have "base_ok E [] (put_item (p_queue p) (Raised (Refused err)) ?b)"
      using Cons.prems(2,3) c(4)
      by (intro base_end [OF Cons.prems(1,2) c(2) _ _ refl gave_refl inv]) (simp_all add: terminal_def fun_upd_idem)
    then show ?thesis
      using Cons.IH [of "put_item (p_queue p) (Raised (Refused err)) ?b"] Cons.prems(2) Inl rf by (auto simp: same_loop_def)
  qed
qed

lemma drain_aborts_ok:
  assumes "base_ok E [] a" "\<not> as_closed a" "as_pending a = []"
  shows "\<exists>a'. drain_aborts E now rs a = (None, a') \<and> base_ok E [] a' \<and> as_pending a' = []
     \<and> as_aborting a' = (if rs = [] then as_aborting a else []) \<and> same_loop a a' \<and> eng_later S E n cfg (as_engine a) (as_engine a')
     \<and> (\<forall>r. s_by_request (e_sched (as_engine a')) r = (if r \<in> set rs then None else s_by_request (e_sched (as_engine a)) r))"
  using assms
proof (induction rs arbitrary: a)
  case Nil
  then show ?case by (simp add: same_loop_def)
next
  case (Cons r rs)
  have inv: "sched_inv (en_digest E) (e_sched (as_engine a))" and L: "logs_ok (as_streams a) (as_store a) (as_consumers a)"
    and I: "intake_ok E [] [] (as_streams a) (s_by_request (e_sched (as_engine a))) (as_store a) (as_consumers a)"
    using Cons.prems by (simp_all add: base_ok_def waiting_calls_def)
  obtain hit e where e: "engine_abort E r now (as_engine a) = Inr (hit, e)" "gave (\<lambda>_. []) (as_engine a) e"
    "s_by_request (e_sched e) = (s_by_request (e_sched (as_engine a)))(r := None)" "e_closed e = e_closed (as_engine a)"
    "sched_inv (en_digest E) (e_sched e)"
    using abort_gave [OF inv] by blast
  have lt: "eng_later S E n cfg (as_engine a) e"
    by (rule eng_later_call [OF e(2), of _ "Cancel r now"]) (use e(1) in \<open>simp_all add: call_fits_def engine_do_def\<close>)
  let ?b = "a\<lparr>as_aborting := rs, as_engine := e, as_streams := dict_del r (as_streams a)\<rparr>"
  let ?c = "case map_of (as_streams a) r of None \<Rightarrow> ?b
     | Some k \<Rightarrow> if st_finished (as_store a ! k) then ?b else put_item k (Delta (abort_output r)) ?b"
  have "base_ok E [] ?c \<and> as_engine ?c = e \<and> as_pending ?c = [] \<and> as_aborting ?c = rs \<and> same_loop a ?c"
  proof (cases "map_of (as_streams a) r")
    case None
    have "s_by_request (e_sched (as_engine a)) r = None" using I None unfolding intake_ok_def by blast
    then have "s_by_request (e_sched e) = s_by_request (e_sched (as_engine a))" using e(3) by (simp add: fun_upd_idem)
    moreover have "dict_del r (as_streams a) = as_streams a"
      using None dict_absent [of r "as_streams a"] by (simp add: map_of_eq_None_iff)
    ultimately show ?thesis
      using base_same [OF base_engine [OF Cons.prems(1) e(2,5) _ e(4)], of ?b] Cons.prems(3) None by (simp add: same_loop_def)
  next
    case (Some k)
    have "\<not> st_finished (as_store a ! k)"
      using L logs_openD [OF L Some] by (auto simp: logs_ok_def log_ok_def)
    moreover have "base_ok E [] (put_item k (Delta (abort_output r)) ?b)"
      by (rule base_end [OF Cons.prems(1,2) Some _ _ refl e(2,5,3,4)]) (use Cons.prems(3) in \<open>simp_all add: terminal_def abort_output_def\<close>)
    ultimately show ?thesis using Cons.prems(3) Some by (simp add: same_loop_def)
  qed
  then have c: "base_ok E [] ?c" "as_engine ?c = e" "as_pending ?c = []" "as_aborting ?c = rs" "same_loop a ?c" by blast+
  have run: "drain_aborts E now (r # rs) a = drain_aborts E now rs ?c"
    using e(1) by (simp add: Let_def split: option.split)
  have "\<not> as_closed ?c" using c(5) Cons.prems(2) by (simp add: same_loop_def)
  from Cons.IH [OF c(1) this c(3)]
  obtain a' where a': "drain_aborts E now rs ?c = (None, a')" "base_ok E [] a'" "as_pending a' = []"
    "as_aborting a' = (if rs = [] then rs else [])" "same_loop ?c a'" "eng_later S E n cfg e (as_engine a')"
    "\<forall>r'. s_by_request (e_sched (as_engine a')) r' = (if r' \<in> set rs then None else s_by_request (e_sched e) r')"
    unfolding c(2,4) by blast
  have "eng_later S E n cfg (as_engine a) (as_engine a')" "same_loop a a'"
    using eng_later_trans [OF lt a'(6)] same_loop_trans [OF c(5) a'(5)] by blast+
  then show ?case
    unfolding run using a'(1-4,7) e(3) by (intro exI [of _ a']) auto
qed

lemma dispatch_ok:
  assumes "base_ok E outs a" "\<not> as_closed a"
  shows "base_ok E [] (dispatch outs a) \<and> as_engine (dispatch outs a) = as_engine a \<and> same_loop a (dispatch outs a)
     \<and> as_aborting (dispatch outs a) = as_aborting a"
  using assms
proof (induction outs arbitrary: a)
  case Nil
  then show ?case by (simp add: same_loop_def)
next
  case (Cons out outs)
  let ?r = "o_request out"
  have I: "intake_ok E (out # outs) (as_pending a) (as_streams a) (s_by_request (e_sched (as_engine a))) (as_store a) (as_consumers a)"
    and T: "tokens_ok E (out # outs) (as_pending a) (as_streams a) (e_sched (as_engine a)) (as_store a) (as_consumers a)"
    and L: "logs_ok (as_streams a) (as_store a) (as_consumers a)" and inv: "sched_inv (en_digest E) (e_sched (as_engine a))"
    using Cons.prems by (simp_all add: base_ok_def waiting_calls_def)
  obtain k where r: "map_of (as_streams a) ?r = Some k" using I by (auto simp: intake_ok_def)
  note k = logs_openD [OF L r]
  let ?st0 = "(as_store a ! k)\<lparr>st_queue := st_queue (as_store a ! k) @ [Delta out]\<rparr>"
  let ?st = "if o_finished out then ?st0\<lparr>st_finished := True\<rparr> else ?st0"
  let ?D = "if o_finished out then dict_del ?r (as_streams a) else as_streams a"
  let ?b = "a\<lparr>as_store := (as_store a)[k := ?st], as_streams := ?D\<rparr>"
  have st: "delivered ?st = delivered (as_store a ! k) @ o_new_tokens out" by simp
  have run: "dispatch (out # outs) a = dispatch outs ?b"
    using r k(1) by (simp add: put_item_def Let_def)
  have "logs_ok ?D ((as_store a)[k := ?st]) (as_consumers a)"
    using logs_put [OF L r, of "Delta out"] logs_end [OF L r, of "Delta out" ?st] by (simp add: terminal_def)
  then have "base_ok E outs ?b"
    using Cons.prems intake_dispatch [OF I L r refl, of ?st] tokens_dispatch [OF T I L inv r refl st]
    by (simp add: base_ok_def waiting_calls_def)
  then show ?case
    unfolding run using Cons.IH [of ?b] Cons.prems(2) by (simp add: same_loop_def)
qed

section \<open>The loop\<close>

lemma loop_turn_ok:
  assumes B: "base_ok E [] a" and cl: "\<not> as_closed a" and lp: "as_loop a = Ready"
  shows "base_ok E [] (loop_turn E now a) \<and> loop_ok (loop_turn E now a) \<and> transit (loop_turn E now a) = []
     \<and> eng_later S E n cfg (as_engine a) (as_engine (loop_turn E now a)) \<and> as_pending (loop_turn E now a) = []
     \<and> (\<forall>r \<in> set (as_aborting a). s_by_request (e_sched (as_engine (loop_turn E now a))) r = None)"
proof -
  obtain b where b: "drain_pending E (as_pending a) a = (None, b)" "base_ok E [] b" "as_pending b = []"
    "as_aborting b = as_aborting a" "same_loop a b" "eng_later S E n cfg (as_engine a) (as_engine b)"
    using drain_pending_ok [OF B cl refl] by blast
  have "\<not> as_closed b" using b(5) cl by (simp add: same_loop_def)
  from drain_aborts_ok [OF b(2) this b(3), of now "as_aborting b" S n cfg]
  obtain c where c: "drain_aborts E now (as_aborting b) b = (None, c)" "base_ok E [] c" "as_pending c = []" "as_aborting c = []"
    "same_loop b c" "eng_later S E n cfg (as_engine b) (as_engine c)"
    "\<forall>r \<in> set (as_aborting a). s_by_request (e_sched (as_engine c)) r = None"
    unfolding b(4) by (auto split: if_splits)
  have inv: "sched_inv (en_digest E) (e_sched (as_engine c))" using c(2) by (simp add: base_ok_def)
  have t: "loop_turn E now a = (if engine_unfinished (as_engine c) then c\<lparr>as_loop := Launched\<rparr> else wait_for_work c)"
    using b(1) c(1) by (simp add: loop_turn_def)
  let ?t = "loop_turn E now a"
  have f: "as_engine ?t = as_engine c" "as_pending ?t = []" "as_store ?t = as_store c" "as_streams ?t = as_streams c"
    "as_consumers ?t = as_consumers c" "as_error ?t = as_error c" "as_closed ?t = as_closed c" "as_aborting ?t = []"
    "as_loop ?t = (if engine_unfinished (as_engine c) then Launched else Parked)"
    unfolding t wait_for_work_def using c(3,4) by auto
  have "as_closed ?t = False" using f(7) c(5) b(5) cl by (simp add: same_loop_def)
  moreover have "s_by_request (e_sched (as_engine c)) = Map.empty" if "\<not> engine_unfinished (as_engine c)"
    using that by (simp add: engine_unfinished_def has_unfinished_def)
  ultimately have "loop_ok ?t" unfolding loop_ok_def f by auto
  moreover have "base_ok E [] ?t" by (rule base_same [OF c(2)]) (use f c(3) in auto)
  moreover have "transit ?t = []" by (simp add: transit_def f(9))
  moreover have "eng_later S E n cfg (as_engine a) (as_engine ?t)" unfolding f by (rule eng_later_trans [OF b(6) c(6)])
  ultimately show ?thesis using c(7) f(1,2) by auto
qed

lemma thread_step_ok:
  assumes ok: "async_ok S E n cfg a" and env: "env_ok S E" and s: "thread_step E now a = Some a'" and sn: "seen S E (as_engine a')"
  shows "async_ok S E n cfg a'"
proof -
  let ?e = "as_engine a"
  have lp: "as_loop a = Launched" using s by (auto simp: thread_step_def split: if_splits)
  have run: "engine_run S E n cfg ?e" and B: "base_ok E [] a" and lo: "loop_ok a"
    using ok lp by (simp_all add: async_ok_def transit_def)
  have cl: "\<not> as_closed a" using lo lp by (auto simp: loop_ok_def)
  then have op: "\<not> e_closed ?e" using B by (simp add: base_ok_def)
  have eok: "engine_ok S E ?e" using engine_run_ok [OF env run] by (simp add: run_ok_def)
  then have inv: "sched_inv (en_digest E) (e_sched ?e)" by (simp add: engine_ok_def)
  have env': "digest_ok (en_digest E) S" "\<forall>p h ks. fits64 (en_model E p h ks)" using env by (simp_all add: env_ok_def)
  obtain outs e where st: "engine_step E now ?e = Inr (outs, e)" "stepped S E now ?e outs e"
    using engine_step_ok [OF eok env'(1) op env'(2), of now] by blast
  have a': "a' = a\<lparr>as_engine := e, as_loop := Returned (Inr outs)\<rparr>" using s st(1) lp by (simp add: thread_step_def)
  have run': "engine_run S E n cfg e"
    by (rule engine_call [OF run, of "StepAt now" outs]) (use st(1) sn a' in \<open>simp_all add: call_fits_def engine_do_def\<close>)
  note g = step_gave [OF st(2) inv] and acc = stepped_accounts [OF st(2) inv]
  let ?fl = "s_by_request (e_sched ?e)" and ?fl' = "s_by_request (e_sched e)"
  have inv': "sched_inv (en_digest E) (e_sched e)" using g by blast
  have I: "intake_ok E [] (as_pending a) (as_streams a) ?fl (as_store a) (as_consumers a)"
    and T: "tokens_ok E [] (as_pending a) (as_streams a) (e_sched ?e) (as_store a) (as_consumers a)"
    using B cl by (simp_all add: base_ok_def waiting_calls_def)
  have fl: "?fl' r = None \<or> ?fl' r = ?fl r" for r
  proof (cases "?fl' r")
    case (Some y)
    then have y: "y \<in> everyone (e_sched e)" "q_request (obj y (e_sched e)) = r" using inv' by (auto simp: sched_inv_def)
    then have ye: "y \<in> everyone (e_sched ?e)" using g by blast
    then have "y < s_counter (e_sched ?e)" using inv by (auto simp: sched_inv_def core_def)
    then have "q_request (obj y (e_sched ?e)) = r" using g y(2) by (simp add: gave_def same_request_def)
    then show ?thesis using in_everyone [OF inv] ye Some by simp
  qed simp
  have outs: "\<forall>out \<in> set outs. ?fl (o_request out) \<noteq> None \<and> (o_finished out \<longleftrightarrow> ?fl' (o_request out) = None)"
    and others: "\<And>r. r \<notin> o_request ` set outs \<Longrightarrow> ?fl' r = ?fl r" and dist: "distinct (map o_request outs)"
    using acc by (auto simp: list_all_iff)
  have I': "intake_ok E outs (as_pending a) (as_streams a) ?fl' (as_store a) (as_consumers a)"
    unfolding intake_ok_def
  proof (intro conjI ballI allI impI)
    show "distinct (map p_request (as_pending a))" using I by (simp add: intake_ok_def)
    show "distinct (map o_request outs)" by (rule dist)
  next
    fix p assume p: "p \<in> set (as_pending a)"
    note c = intake_call [OF I p]
    show "map_of (as_streams a) (p_request p) = Some (p_queue p)" "co_call (as_consumers a ! p_queue p) = p"
      "st_queue (as_store a ! p_queue p) = []" "encodable (p_lora p) (prompt_ids E (p_prompt p))" using c by auto
    show "?fl' (p_request p) = None" using c(4) fl [of "p_request p"] by auto
    show "p_request p \<notin> o_request ` set outs" using c(4) outs by auto
  next
    fix out assume "out \<in> set outs"
    then show "map_of (as_streams a) (o_request out) \<noteq> None" "o_finished out \<longleftrightarrow> ?fl' (o_request out) = None"
      using outs I by (auto simp: intake_ok_def)
  next
    fix r assume "?fl' r \<noteq> None"
    then have "?fl r \<noteq> None" using fl [of r] by auto
    then show "map_of (as_streams a) r \<noteq> None" using I by (auto simp: intake_ok_def)
  next
    fix r assume "map_of (as_streams a) r \<noteq> None"
    then have "r \<in> p_request ` set (as_pending a) \<or> ?fl r \<noteq> None" using I unfolding intake_ok_def by auto
    then show "r \<in> p_request ` set (as_pending a) \<or> ?fl' r \<noteq> None \<or> r \<in> o_request ` set outs" using others by metis
  qed
  have "serves E outs reg (e_sched e) t p x" if "serves E [] reg (e_sched ?e) t p x" for reg t p x
  proof -
    let ?q = "obj x (e_sched ?e)" and ?q' = "obj x (e_sched e)"
    have x: "x < s_counter (e_sched ?e)" "same_call E p ?q" using that by (simp_all add: serves_def)
    have k: "same_request ?q ?q'" "s_counter (e_sched ?e) \<le> s_counter (e_sched e)"
      "q_output ?q' = q_output ?q @ (if x \<in> everyone (e_sched ?e) then received (p_request p) outs else [])"
      using g x by (auto simp: gave_def same_call_def)
    have "received (p_request p) outs = []" if "x \<notin> everyone (e_sched ?e)" "reg"
    proof -
      have "?fl (p_request p) \<noteq> Some x" using in_everyone [OF inv, of x] x(2) that by (simp add: same_call_def)
      then have "?fl (p_request p) = None" using \<open>serves E [] reg (e_sched ?e) t p x\<close> that(2) by (auto simp: serves_def)
      then show ?thesis using outs by (intro received_none) auto
    qed
    moreover have "x \<in> everyone (e_sched e) \<Longrightarrow> x \<in> everyone (e_sched ?e)" using g by blast
    ultimately show ?thesis
      using that k x fl [of "p_request p"] by (auto simp: serves_def same_call_def same_request_def received_def got_all_def)
  qed
  then have T': "tokens_ok E outs (as_pending a) (as_streams a) (e_sched e) (as_store a) (as_consumers a)"
    using T unfolding tokens_ok_def by meson
  have "e_closed e = e_closed ?e" using stepped_fields(2) [OF st(2)] .
  then have "base_ok E outs a'" using B I' T' inv' cl by (simp add: base_ok_def waiting_calls_def a')
  moreover have "loop_ok a'" using lo cl by (simp add: loop_ok_def a')
  ultimately show ?thesis using run' by (simp add: async_ok_def transit_def a')
qed

lemma resume_turn:
  assumes ok: "async_ok S E n cfg a" and s: "loop_resume E now a = Some a'"
  shows "\<exists>b. a' = loop_turn E now b \<and> base_ok E [] b \<and> \<not> as_closed b \<and> as_loop b = Ready \<and> as_engine b = as_engine a
     \<and> as_aborting b = as_aborting a"
proof -
  have run: "engine_run S E n cfg (as_engine a)" and B: "base_ok E (transit a) a" and lo: "loop_ok a"
    using ok by (simp_all add: async_ok_def)
  have cl: "\<not> as_closed a" using lo s by (auto simp: loop_ok_def loop_resume_def)
  show ?thesis
  proof (cases "as_loop a")
    case Ready
    then show ?thesis using s B cl by (intro exI [of _ a]) (simp add: loop_resume_def transit_def)
  next
    case Parked
    then show ?thesis
      using s B cl by (intro exI [of _ "a\<lparr>as_loop := Ready\<rparr>"]) (simp add: loop_resume_def transit_def base_fields)
  next
    case (Returned r)
    then obtain outs where outs: "r = Inr outs" using lo by (cases r) (auto simp: loop_ok_def)
    let ?b = "a\<lparr>as_loop := Ready\<rparr>"
    have "base_ok E outs ?b" "\<not> as_closed ?b" using B cl Returned outs by (simp_all add: transit_def base_fields)
    from dispatch_ok [OF this] show ?thesis
      using s cl Returned outs by (intro exI [of _ "dispatch outs ?b"]) (simp add: loop_resume_def same_loop_def)
  qed (use s in \<open>simp_all add: loop_resume_def\<close>)
qed

lemma loop_resume_ok:
  assumes ok: "async_ok S E n cfg a" and s: "loop_resume E now a = Some a'" and sn: "seen S E (as_engine a')"
  shows "async_ok S E n cfg a'"
proof -
  obtain b where b: "a' = loop_turn E now b" "base_ok E [] b" "\<not> as_closed b" "as_loop b = Ready" "as_engine b = as_engine a"
    using resume_turn [OF ok s] by blast
  have run: "engine_run S E n cfg (as_engine a)" using ok by (simp add: async_ok_def)
  from loop_turn_ok [OF b(2-4), of now S n cfg] show ?thesis
    using b(1,5) run sn by (simp add: async_ok_def eng_later_def)
qed

section \<open>The generators\<close>

lemma base_consumer:
  assumes B: "base_ok E tr a" and k: "k < length (as_consumers a)" and c: "co_call c = co_call (as_consumers a ! k)"
    and ok: "consumer_ok (as_store a ! k) c"
  shows "base_ok E tr (set_consumer k c a)"
proof -
  let ?cs = "(as_consumers a)[k := c]"
  have L: "logs_ok (as_streams a) (as_store a) (as_consumers a)" using B by (simp add: base_ok_def)
  then have len: "length (as_consumers a) = length (as_store a)" by (simp add: logs_ok_def)
  have same: "co_call (?cs ! j) = co_call (as_consumers a ! j)" if "j < length (as_consumers a)" for j
    using that c by (cases "j = k") simp_all
  then have op: "is_open D ?cs j = is_open D (as_consumers a) j" if "j < length (as_store a)" for D j
    using that len by (simp add: is_open_def)
  have "co_call (?cs ! p_queue p) = co_call (as_consumers a ! p_queue p)" if "map_of (as_streams a) r = Some (p_queue p)" for p r
    using same logs_openD(1) [OF L that] len by simp
  then have "intake_ok E tr pend (as_streams a) fl (as_store a) ?cs" if "intake_ok E tr pend (as_streams a) fl (as_store a) (as_consumers a)" for pend fl
    using that same len unfolding intake_ok_def by metis
  moreover have "tokens_ok E tr pend (as_streams a) s (as_store a) ?cs" if "tokens_ok E tr pend (as_streams a) s (as_store a) (as_consumers a)" for pend s
    using that same op len by (simp add: tokens_ok_def)
  ultimately have "intake_ok E tr (waiting_calls a) (as_streams a) (s_by_request (e_sched (as_engine a))) (as_store a) ?cs"
    "tokens_ok E tr (waiting_calls a) (as_streams a) (e_sched (as_engine a)) (as_store a) ?cs"
    using B by (simp_all add: base_ok_def)
  then show ?thesis
    using B logs_consumer [OF L k c ok] by (auto simp: base_ok_def set_consumer_def waiting_calls_def)
qed

lemma base_abort_nowait: "base_ok E tr (abort_nowait r a) = base_ok E tr a"
  by (simp add: abort_nowait_def base_fields)

lemma transit_fields [simp]: "transit (abort_nowait r a) = transit a" "transit (set_consumer k c a) = transit a"
  by (simp_all add: transit_def abort_nowait_def set_consumer_def)

lemma loop_ok_fields: "loop_ok a \<Longrightarrow> loop_ok (abort_nowait r a)" "loop_ok (set_consumer k c a) = loop_ok a"
  by (auto simp: loop_ok_def abort_nowait_def set_consumer_def)

lemma async_consumer:
  assumes ok: "async_ok S E n cfg a" and k: "k < length (as_consumers a)" and c: "co_call c = co_call (as_consumers a ! k)"
    and c': "consumer_ok (as_store a ! k) c"
  shows "async_ok S E n cfg (set_consumer k c a)" "async_ok S E n cfg (abort_nowait r (set_consumer k c a))"
  using ok base_consumer [OF _ k c c'] loop_ok_fields(1) [of "set_consumer k c a"]
  by (simp_all add: async_ok_def base_abort_nowait loop_ok_fields(2)) (simp_all add: set_consumer_def abort_nowait_def)

lemma gen_ok:
  assumes ok: "async_ok S E n cfg a"
  shows "gen_take k a = Some a' \<Longrightarrow> async_ok S E n cfg a'" "gen_resume k a = Some a' \<Longrightarrow> async_ok S E n cfg a'"
    "gen_close k a = Some a' \<Longrightarrow> async_ok S E n cfg a'" "async_ok S E n cfg (abort_nowait r a)"
proof -
  have L: "logs_ok (as_streams a) (as_store a) (as_consumers a)" using ok by (simp add: async_ok_def base_ok_def)
  let ?c = "as_consumers a ! k" and ?st = "as_store a ! k"
  have C: "consumer_ok ?st ?c" if "k < length (as_consumers a)" using L that by (simp add: logs_ok_def)
  show "async_ok S E n cfg a'" if "gen_take k a = Some a'"
  proof -
    have g: "k < length (as_consumers a)" "co_at ?c = At_Get" "co_taken ?c < length (st_queue ?st)"
      using that by (auto simp: gen_take_def Let_def split: if_splits)
    show ?thesis
    proof (cases "st_queue ?st ! co_taken ?c")
      case (Delta out)
      have "consumer_ok ?st (?c\<lparr>co_taken := co_taken ?c + 1, co_at := At_Yield (o_finished out)\<rparr>)"
        using C [OF g(1)] g Delta by (simp add: consumer_ok_def)
      from async_consumer(1) [OF ok g(1) _ this] show ?thesis using that g Delta by (simp add: gen_take_def Let_def)
    next
      case (Raised err)
      have "consumer_ok ?st (?c\<lparr>co_taken := co_taken ?c + 1, co_at := Ended\<rparr>)"
        using C [OF g(1)] g by (simp add: consumer_ok_def)
      from async_consumer(2) [OF ok g(1) _ this] show ?thesis using that g Raised by (auto simp add: gen_take_def Let_def)
    qed
  qed
  show "async_ok S E n cfg a'" if r: "gen_resume k a = Some a'"
  proof -
    obtain b where g: "k < length (as_consumers a)" "co_at ?c = At_Yield b"
      "a' = set_consumer k (?c\<lparr>co_at := if b then Ended else At_Get\<rparr>) a"
      using r by (cases "co_at ?c") (auto simp: gen_resume_def Let_def split: if_splits)
    obtain m where "co_taken ?c = Suc m" "m < length (st_queue ?st)"
      using C [OF g(1)] g(2) by (cases "co_taken ?c") (auto simp: consumer_ok_def)
    then have "take (co_taken ?c) (st_queue ?st) = take (co_taken ?c - 1) (st_queue ?st) @ [st_queue ?st ! (co_taken ?c - 1)]"
      by (simp add: take_Suc_conv_app_nth)
    then have "consumer_ok ?st (?c\<lparr>co_at := if b then Ended else At_Get\<rparr>)"
      using C [OF g(1)] g(2) by (auto simp: consumer_ok_def terminal_def)
    from async_consumer(1) [OF ok g(1) _ this] show ?thesis using g(3) by simp
  qed
  show "async_ok S E n cfg a'" if "gen_close k a = Some a'"
  proof -
    have g: "k < length (as_consumers a)" "a' = abort_nowait (p_request (co_call ?c)) (set_consumer k (?c\<lparr>co_at := Ended\<rparr>) a)"
      using that by (auto simp: gen_close_def Let_def split: if_splits)
    have "consumer_ok ?st (?c\<lparr>co_at := Ended\<rparr>)" using C [OF g(1)] by (simp add: consumer_ok_def)
    from async_consumer(2) [OF ok g(1) _ this] show ?thesis using g(2) by simp
  qed
  show "async_ok S E n cfg (abort_nowait r a)"
    using ok loop_ok_fields(1) [of a r] by (simp add: async_ok_def base_abort_nowait) (simp add: abort_nowait_def)
qed

lemma start_ok:
  assumes ok: "async_ok S E n cfg a" and s: "async_start a = Inr a'"
  shows "async_ok S E n cfg a' \<and> \<not> as_closed a' \<and> as_loop a' \<noteq> Stopped \<and> as_engine a' = as_engine a"
proof (cases "async_running a")
  case True
  then show ?thesis using ok s by (auto simp: async_start_def async_running_def split: if_splits)
next
  case False
  then have a': "a' = a\<lparr>as_error := False, as_loop := Ready\<rparr>" "\<not> as_closed a" "as_loop a = Stopped"
    using s by (auto simp: async_start_def async_running_def split: if_splits)
  have "base_ok E (transit a) a" using ok by (simp add: async_ok_def)
  then have "base_ok E [] a'" using a'(3) by (auto simp: base_ok_def waiting_calls_def a'(1) transit_def)
  then show ?thesis using ok a' by (simp add: async_ok_def loop_ok_def transit_def)
qed

lemma intake_new:
  assumes I: "intake_ok E tr pend D fl sts cs" and L: "logs_ok D sts cs" and r: "map_of D (p_request p) = None"
    and p: "p' = p\<lparr>p_queue := length sts\<rparr>" "c = \<lparr>co_call = p', co_taken = 0, co_at = At_Get\<rparr>"
    and enc: "encodable (p_lora p) (prompt_ids E (p_prompt p))"
  shows "intake_ok E tr (pend @ [p']) (D @ [(p_request p, length sts)]) fl (sts @ [\<lparr>st_queue = [], st_finished = False\<rparr>]) (cs @ [c])"
proof -
  let ?D = "D @ [(p_request p, length sts)]" and ?r = "p_request p"
  have len: "length cs = length sts" using L by (simp add: logs_ok_def)
  have D: "map_of ?D r' = (if r' = ?r then Some (length sts) else map_of D r')" for r'
    using r by (auto simp: map_add_def split: option.splits)
  have q: "p_request q \<noteq> ?r" "p_queue q < length sts" if "q \<in> set pend" for q
    using intake_call(2) [OF I that] r logs_openD(1) [OF L] by auto
  have t: "o_request out \<noteq> ?r" if "out \<in> set tr" for out using I that r by (auto simp: intake_ok_def)
  have f: "fl ?r = None" using I r unfolding intake_ok_def by blast
  show ?thesis
    unfolding intake_ok_def
  proof (intro conjI ballI allI impI)
    have "?r \<notin> p_request ` set pend" using q(1) by (metis imageE)
    then show "distinct (map p_request (pend @ [p']))" using I by (simp add: intake_ok_def p)
    show "distinct (map o_request tr)" using I by (simp add: intake_ok_def)
  next
    fix q assume "q \<in> set (pend @ [p'])"
    then consider (old) "q \<in> set pend" | (new) "q = p'" by auto
    then have "map_of ?D (p_request q) = Some (p_queue q) \<and> co_call ((cs @ [c]) ! p_queue q) = q
      \<and> st_queue ((sts @ [\<lparr>st_queue = [], st_finished = False\<rparr>]) ! p_queue q) = [] \<and> fl (p_request q) = None
      \<and> p_request q \<notin> o_request ` set tr \<and> encodable (p_lora q) (prompt_ids E (p_prompt q))"
    proof cases
      case old
      note i = intake_call [OF I old]
      have "p_queue q < length cs" using q(2) [OF old] len by simp
      then show ?thesis using q [OF old] i(2-7) by (simp add: D nth_append)
    next
      case new
      have "?r \<notin> o_request ` set tr" using t by (metis imageE)
      then show ?thesis using f enc len r by (simp add: new p nth_append map_add_def)
    qed
    then show "map_of ?D (p_request q) = Some (p_queue q)" "co_call ((cs @ [c]) ! p_queue q) = q"
      "st_queue ((sts @ [\<lparr>st_queue = [], st_finished = False\<rparr>]) ! p_queue q) = []" "fl (p_request q) = None"
      "p_request q \<notin> o_request ` set tr" "encodable (p_lora q) (prompt_ids E (p_prompt q))"
      by blast+
  next
    fix out assume o: "out \<in> set tr"
    then show "map_of ?D (o_request out) \<noteq> None" "o_finished out \<longleftrightarrow> fl (o_request out) = None"
      using I t [OF o] D [of "o_request out"] by (auto simp: intake_ok_def)
  next
    fix r' assume "fl r' \<noteq> None"
    then show "map_of ?D r' \<noteq> None" using I f D [of r'] by (auto simp: intake_ok_def)
  next
    fix r' assume "map_of ?D r' \<noteq> None"
    then have "r' = ?r \<or> map_of D r' \<noteq> None" unfolding D by (auto split: if_splits)
    then show "r' \<in> p_request ` set (pend @ [p']) \<or> fl r' \<noteq> None \<or> r' \<in> o_request ` set tr"
      using I unfolding intake_ok_def by (auto simp: p)
  qed
qed

lemma tokens_new:
  assumes T: "tokens_ok E tr pend D s sts cs" and len: "length cs = length sts"
    and p: "p' = p\<lparr>p_queue := length sts\<rparr>" "c = \<lparr>co_call = p', co_taken = 0, co_at = At_Get\<rparr>"
  shows "tokens_ok E tr (pend @ [p']) (D @ [(p_request p, length sts)]) s (sts @ [st]) (cs @ [c])"
proof -
  have "is_open (D @ [(p_request p, length sts)]) (cs @ [c]) k = is_open D cs k" if "k < length sts" for k
    using that len by (auto simp: is_open_def nth_append map_add_def split: option.splits)
  then show ?thesis
    using T len unfolding tokens_ok_def by (auto simp: nth_append less_Suc_eq p)
qed

lemma generate_ok:
  assumes ok: "async_ok S E n cfg a" and enc: "encodable (p_lora p) (prompt_ids E (p_prompt p))"
  shows "async_ok S E n cfg (snd (async_generate p a))"
proof (cases "as_closed a \<or> as_error a")
  case True
  then show ?thesis using ok by (auto simp: async_generate_def)
next
  case False
  then obtain a1 where a1: "async_start a = Inr a1" by (cases "async_running a") (auto simp: async_start_def)
  note st = start_ok [OF ok a1]
  show ?thesis
  proof (cases "map_of (as_streams a1) (p_request p)")
    case (Some k)
    then show ?thesis using st False a1 by (simp add: async_generate_def)
  next
    case None
    have B: "base_ok E (transit a1) a1" and cl: "\<not> as_closed a1" and lo: "loop_ok a1" "as_loop a1 \<noteq> Stopped"
      using st by (auto simp: async_ok_def)
    then have I: "intake_ok E (transit a1) (as_pending a1) (as_streams a1) (s_by_request (e_sched (as_engine a1))) (as_store a1) (as_consumers a1)"
      and T: "tokens_ok E (transit a1) (as_pending a1) (as_streams a1) (e_sched (as_engine a1)) (as_store a1) (as_consumers a1)"
      and L: "logs_ok (as_streams a1) (as_store a1) (as_consumers a1)"
      by (simp_all add: base_ok_def waiting_calls_def)
    have len: "length (as_consumers a1) = length (as_store a1)" using L by (simp add: logs_ok_def)
    let ?a = "snd (async_generate p a)"
    have f: "?a = a1\<lparr>as_store := as_store a1 @ [\<lparr>st_queue = [], st_finished = False\<rparr>],
               as_streams := as_streams a1 @ [(p_request p, length (as_store a1))],
               as_pending := as_pending a1 @ [p\<lparr>p_queue := length (as_store a1)\<rparr>],
               as_consumers := as_consumers a1 @ [\<lparr>co_call = p\<lparr>p_queue := length (as_store a1)\<rparr>, co_taken = 0, co_at = At_Get\<rparr>],
               as_wake := True\<rparr>"
      using None False a1 by (simp add: async_generate_def Let_def)
    have "base_ok E (transit a1) ?a"
      using B cl logs_new [OF L None refl refl] intake_new [OF I L None refl refl enc] tokens_new [OF T len refl refl]
      by (simp add: base_ok_def waiting_calls_def f)
    moreover have "loop_ok ?a" using lo cl by (auto simp: loop_ok_def f)
    moreover have "transit ?a = transit a1" "as_engine ?a = as_engine a1" by (simp_all add: transit_def f)
    ultimately show ?thesis using st unfolding async_ok_def by metis
  qed
qed

section \<open>Closing\<close>

lemma fail_fold:
  assumes "logs_ok D (as_store a) cs"
  shows "\<exists>sts. fold (\<lambda>(r, k) a. if st_finished (as_store a ! k) then a else put_item k (Raised err) a) D a = a\<lparr>as_store := sts\<rparr>
     \<and> logs_ok [] sts cs \<and> length sts = length (as_store a) \<and> (\<forall>k < length sts. sts ! k = as_store a ! k
          \<or> delivered (sts ! k) = delivered (as_store a ! k) \<and> last (st_queue (sts ! k)) = Raised err)"
  using assms
proof (induction D arbitrary: a)
  case Nil
  then show ?case by (intro exI [of _ "as_store a"]) simp
next
  case (Cons rk D)
  obtain r k where rk: "rk = (r, k)" by fastforce
  let ?st = "(as_store a ! k)\<lparr>st_queue := st_queue (as_store a ! k) @ [Raised err]\<rparr>"
  have r: "map_of (rk # D) r = Some k" by (simp add: rk)
  note k = logs_openD [OF Cons.prems r]
  have "log_ok (is_open (rk # D) cs k) (as_store a ! k)" using Cons.prems k(1) unfolding logs_ok_def by blast
  then have nf: "\<not> st_finished (as_store a ! k)" using k(3) by (simp add: log_ok_def)
  have "r \<notin> fst ` set D" using Cons.prems by (auto simp: logs_ok_def rk)
  then have "dict_del r (rk # D) = D" using dict_absent [of r D] by (simp add: dict_del_def rk)
  then have "logs_ok D ((as_store a)[k := ?st]) cs"
    using logs_end [OF Cons.prems r, of "Raised err" ?st] by (simp add: terminal_def)
  from Cons.IH [of "a\<lparr>as_store := (as_store a)[k := ?st]\<rparr>"] this
  obtain sts where sts: "fold (\<lambda>(r, k) a. if st_finished (as_store a ! k) then a else put_item k (Raised err) a) D
      (a\<lparr>as_store := (as_store a)[k := ?st]\<rparr>) = a\<lparr>as_store := sts\<rparr>" "logs_ok [] sts cs" "length sts = length (as_store a)"
    "\<forall>j < length sts. sts ! j = (as_store a)[k := ?st] ! j
       \<or> delivered (sts ! j) = delivered ((as_store a)[k := ?st] ! j) \<and> last (st_queue (sts ! j)) = Raised err"
    by auto
  have "sts ! j = as_store a ! j \<or> delivered (sts ! j) = delivered (as_store a ! j) \<and> last (st_queue (sts ! j)) = Raised err"
    if "j < length sts" for j
    using sts(4) that k(1) by (cases "j = k") (auto simp: sts(3))
  then show ?case using sts nf by (intro exI [of _ sts]) (simp add: rk put_item_def)
qed

lemma close_ok:
  assumes ok: "async_ok S E n cfg a" and env: "env_ok S E" and sn: "seen S E (as_engine (async_close a))"
  shows "async_ok S E n cfg (async_close a)"
proof (cases "as_closed a")
  case True
  then show ?thesis using ok by (simp add: async_close_def)
next
  case False
  have run: "engine_run S E n cfg (as_engine a)" and B: "base_ok E (transit a) a" using ok by (simp_all add: async_ok_def)
  have L: "logs_ok (as_streams a) (as_store a) (as_consumers a)"
    and I: "intake_ok E (transit a) (as_pending a) (as_streams a) (s_by_request (e_sched (as_engine a))) (as_store a) (as_consumers a)"
    and T: "tokens_ok E (transit a) (as_pending a) (as_streams a) (e_sched (as_engine a)) (as_store a) (as_consumers a)"
    and inv: "sched_inv (en_digest E) (e_sched (as_engine a))" and er: "\<not> as_error a"
    using B False by (simp_all add: base_ok_def waiting_calls_def)
  let ?e = "engine_close (as_engine a)" and ?s = "e_sched (as_engine a)"
  have eok: "engine_ok S E (as_engine a)" using engine_run_ok [OF env run] by (simp add: run_ok_def)
  note c = engine_close_ok [OF eok] and g = close_gave [OF eok]
  have inv': "sched_inv (en_digest E) (e_sched ?e)" using c by (simp add: engine_ok_def)
  have "everyone (e_sched ?e) = {}" using c B False by (simp add: base_ok_def)
  then have fl: "s_by_request (e_sched ?e) = Map.empty" using inv' by (auto simp: sched_inv_def fun_eq_iff)
  obtain sts where sts: "fold (\<lambda>(r, k) a. if st_finished (as_store a ! k) then a else put_item k (Raised Engine_Dead) a) (as_streams a)
      (a\<lparr>as_closed := True, as_loop := Stopped\<rparr>) = a\<lparr>as_closed := True, as_loop := Stopped, as_store := sts\<rparr>"
    "logs_ok [] sts (as_consumers a)" "length sts = length (as_store a)" "\<forall>k < length sts. sts ! k = as_store a ! k
        \<or> delivered (sts ! k) = delivered (as_store a ! k) \<and> last (st_queue (sts ! k)) = Raised Engine_Dead"
    using fail_fold [of "as_streams a" "a\<lparr>as_closed := True, as_loop := Stopped\<rparr>" "as_consumers a" Engine_Dead] L by auto
  let ?a = "async_close a"
  have a: "?a = a\<lparr>as_closed := True, as_loop := Stopped, as_store := sts, as_streams := [], as_engine := ?e\<rparr>"
    using False sts(1) by (simp add: async_close_def fail_all_def Let_def)
  have "tokens_ok E [] [] [] (e_sched ?e) sts (as_consumers a)"
    unfolding tokens_ok_def
  proof (intro allI impI)
    fix k assume k: "k < length sts"
    let ?p = "co_call (as_consumers a ! k)" and ?op = "is_open (as_streams a) (as_consumers a) k"
    have d: "delivered (sts ! k) = delivered (as_store a ! k)" using sts(4) k by fastforce
    have no: "\<not> is_open [] (as_consumers a) k" by (simp add: is_open_def)
    consider "?p \<in> set (as_pending a)" | "delivered (as_store a ! k) = []"
      | x where "serves E (transit a) ?op ?s (as_store a ! k) ?p x"
      using T k sts(3) by (auto simp: tokens_ok_def)
    then show "?p \<in> set [] \<or> \<not> is_open [] (as_consumers a) k \<and> delivered (sts ! k) = []
       \<or> (\<exists>x. serves E [] (is_open [] (as_consumers a) k) (e_sched ?e) (sts ! k) ?p x)"
    proof cases
      case 1
      have "k = p_queue ?p" using L k sts(3) by (simp add: logs_ok_def)
      then have "delivered (as_store a ! k) = []" using intake_call(3) [OF I 1] by (simp add: delivered_def)
      then show ?thesis using no d by simp
    next
      case 2
      then show ?thesis using no d by simp
    next
      case (3 x)
      then have x: "x < s_counter ?s" "same_call E ?p (obj x ?s)" by (simp_all add: serves_def)
      have "log_ok False (sts ! k)" using sts(2) k by (auto simp: logs_ok_def is_open_def)
      moreover have "log_ok ?op (as_store a ! k)" using L k sts(3) by (simp add: logs_ok_def)
      ultimately have "?op \<longrightarrow> last (st_queue (sts ! k)) = Raised Engine_Dead"
        using sts(4) k by (fastforce simp: log_ok_def)
      then have got: "got_all (sts ! k) (obj x ?s)"
        using 3 sts(4) k by (cases ?op) (force simp: serves_def got_all_def)+
      have "same_request (obj x ?s) (obj x (e_sched ?e))" "q_output (obj x (e_sched ?e)) = q_output (obj x ?s)"
        "s_counter ?s \<le> s_counter (e_sched ?e)"
        using g x(1) by (simp_all add: gave_def)
      then have "serves E [] False (e_sched ?e) (sts ! k) ?p x"
        using x got \<open>everyone (e_sched ?e) = {}\<close> by (simp add: serves_def same_call_def same_request_def got_all_def)
      then show ?thesis using no by auto
    qed
  qed
  moreover have "intake_ok E [] [] [] (s_by_request (e_sched ?e)) sts (as_consumers a)" by (simp add: intake_ok_def fl)
  ultimately have "base_ok E [] ?a"
    using inv' er c sts(2) by (simp add: base_ok_def waiting_calls_def a)
  moreover have "engine_run S E n cfg ?e"
    by (rule engine_call [OF run, of CloseEngine "[]"]) (use sn a in \<open>simp_all add: call_fits_def engine_do_def\<close>)
  moreover have "loop_ok ?a" "transit ?a = []" "as_engine ?a = ?e" by (simp_all add: loop_ok_def a transit_def)
  ultimately show ?thesis unfolding async_ok_def by metis
qed

section \<open>Every interleaving\<close>

lemma async_run_ok:
  assumes env: "env_ok S E" and r: "async_run S E n cfg a"
  shows "async_ok S E n cfg a"
  using r
proof induction
  case (async_fresh e)
  have run: "engine_run S E n cfg e" by (rule engine_fresh [OF async_fresh])
  have i: "engine_ok S E e" "\<not> e_closed e" using engine_init_ok [OF async_fresh] by auto
  then have inv: "sched_inv (en_digest E) (e_sched e)" by (simp add: engine_ok_def)
  have fl: "s_by_request (e_sched e) = Map.empty"
    using async_fresh by (auto simp: engine_init_def sched_init_def split: if_splits)
  show ?case
    using run i inv fl
    by (simp add: async_ok_def base_ok_def async_init_def transit_def loop_ok_def logs_ok_def intake_ok_def tokens_ok_def waiting_calls_def)
next
  case (async_event a ev a')
  note ok = async_event.IH and s = async_event.hyps(3) and sn = async_event.hyps(4)
  show ?case
  proof (cases ev)
    case (Generate p)
    then show ?thesis using generate_ok [OF ok, of p] async_event.hyps(2) s by (simp add: event_fits_def async_do_def)
  next
    case (Take k)
    then show ?thesis using gen_ok(1) [OF ok] s by (simp add: async_do_def)
  next
    case (Ask k)
    then show ?thesis using gen_ok(2) [OF ok] s by (simp add: async_do_def)
  next
    case (Leave k)
    then show ?thesis using gen_ok(3) [OF ok] s by (simp add: async_do_def)
  next
    case (Abort_Call rid)
    then show ?thesis using gen_ok(4) [OF ok, of rid] s by (simp add: async_do_def)
  next
    case (Resume_Loop now)
    then show ?thesis using loop_resume_ok [OF ok _ sn, of now] s by (simp add: async_do_def)
  next
    case (Run_Thread now)
    then show ?thesis using thread_step_ok [OF ok env _ sn, of now] s by (simp add: async_do_def)
  next
    case Start_Loop
    then show ?thesis using start_ok [OF ok] ok s by (auto simp: async_do_def split: sum.splits)
  next
    case Close_Async
    then show ?thesis using close_ok [OF ok env] sn s by (simp add: async_do_def)
  qed
qed

end
