(* ===== verification/Async_Runs.thy ===== *)
theory Async_Runs
  imports Async_Reach
begin

text \<open>
  What every client of the asynchronous engine can rely on, whatever the interleaving of clients,
  loop and thread, and the concrete interleavings that show it is not vacuous.
\<close>

section \<open>Concrete interleavings\<close>

text \<open>
  Whether a map of requests is empty cannot be computed; in the states that occur it can be read
  off the lists of the scheduler.
\<close>

definition sched_busy :: "sched \<Rightarrow> bool" where
  "sched_busy s \<longleftrightarrow> s_running s \<noteq> [] \<or> s_preempted s \<noteq> [] \<or> wq_items (s_waiting s) \<noteq> []"

definition turn_exec :: "env \<Rightarrow> rat \<Rightarrow> async \<Rightarrow> async" where
  "turn_exec E now a =
     (case drain_pending E (as_pending a) a of
        (Some err, a1) \<Rightarrow> loop_dies a1
      | (None, a1) \<Rightarrow>
          (case drain_aborts E now (as_aborting a1) a1 of
             (Some err, a2) \<Rightarrow> loop_dies a2
           | (None, a2) \<Rightarrow> if sched_busy (e_sched (as_engine a2)) then a2\<lparr>as_loop := Launched\<rparr> else wait_for_work a2))"

definition do_exec :: "env \<Rightarrow> async_event \<Rightarrow> async \<Rightarrow> async option" where
  "do_exec E ev a = (case ev of
     Generate p \<Rightarrow> Some (snd (async_generate p a))
   | Take k \<Rightarrow> gen_take k a
   | Ask k \<Rightarrow> gen_resume k a
   | Leave k \<Rightarrow> gen_close k a
   | Abort_Call rid \<Rightarrow> Some (abort_nowait rid a)
   | Resume_Loop now \<Rightarrow>
       (case as_loop a of
          Ready \<Rightarrow> Some (turn_exec E now a)
        | Parked \<Rightarrow> Some (turn_exec E now (a\<lparr>as_loop := Ready\<rparr>))
        | Returned (Inr outs) \<Rightarrow> Some (turn_exec E now (dispatch outs (a\<lparr>as_loop := Ready\<rparr>)))
        | _ \<Rightarrow> None)
   | Run_Thread now \<Rightarrow> thread_step E now a
   | _ \<Rightarrow> None)"

lemma busy_iff: "sched_inv D s \<Longrightarrow> sched_busy s \<longleftrightarrow> has_unfinished s"
proof -
  assume inv: "sched_inv D s"
  have "sched_busy s \<longleftrightarrow> everyone s \<noteq> {}" by (auto simp: sched_busy_def everyone_def)
  moreover have "s_by_request s = Map.empty \<longleftrightarrow> everyone s = {}"
  proof
    assume "s_by_request s = Map.empty"
    then show "everyone s = {}" using in_everyone [OF inv] by auto
  next
    assume "everyone s = {}"
    then show "s_by_request s = Map.empty" using inv by (auto simp: sched_inv_def fun_eq_iff)
  qed
  ultimately show ?thesis by (simp add: has_unfinished_def)
qed

lemma turn_exec_eq:
  assumes B: "base_ok E [] a" and cl: "\<not> as_closed a"
  shows "turn_exec E now a = loop_turn E now a"
proof -
  obtain b where b: "drain_pending E (as_pending a) a = (None, b)" "base_ok E [] b" "as_pending b = []" "same_loop a b"
    using drain_pending_ok [OF B cl refl] by blast
  have "\<not> as_closed b" using b(4) cl by (simp add: same_loop_def)
  then obtain c where c: "drain_aborts E now (as_aborting b) b = (None, c)" "base_ok E [] c"
    using drain_aborts_ok [OF b(2) _ b(3)] by blast
  have "sched_inv (en_digest E) (e_sched (as_engine c))" using c(2) by (simp add: base_ok_def)
  then show ?thesis using b(1) c(1) busy_iff by (simp add: turn_exec_def loop_turn_def engine_unfinished_def)
qed

lemma do_exec_sound:
  assumes ok: "async_ok S E n cfg a" and r: "do_exec E ev a = Some a'"
  shows "async_do E ev a = Some a'"
proof (cases ev)
  case (Resume_Loop now)
  have B: "base_ok E (transit a) a" and lo: "loop_ok a" using ok by (simp_all add: async_ok_def)
  have cl: "\<not> as_closed a" using r lo Resume_Loop by (auto simp: loop_ok_def do_exec_def)
  show ?thesis
  proof (cases "as_loop a")
    case Ready
    then have "base_ok E [] a" using B by (simp add: transit_def)
    then show ?thesis using r Resume_Loop Ready turn_exec_eq cl by (simp add: do_exec_def async_do_def loop_resume_def)
  next
    case Parked
    then have "base_ok E [] (a\<lparr>as_loop := Ready\<rparr>)" using B by (simp add: transit_def base_fields)
    then show ?thesis using r Resume_Loop Parked turn_exec_eq cl by (simp add: do_exec_def async_do_def loop_resume_def)
  next
    case (Returned res)
    then obtain outs where outs: "res = Inr outs" using r Resume_Loop by (cases res) (auto simp: do_exec_def)
    let ?b = "a\<lparr>as_loop := Ready\<rparr>"
    have "base_ok E outs ?b" "\<not> as_closed ?b" using B cl Returned outs by (simp_all add: transit_def base_fields)
    from dispatch_ok [OF this] have "base_ok E [] (dispatch outs ?b)" "\<not> as_closed (dispatch outs ?b)"
      using cl by (simp_all add: same_loop_def)
    then show ?thesis using r Resume_Loop Returned outs turn_exec_eq by (simp add: do_exec_def async_do_def loop_resume_def)
  qed (use r Resume_Loop in \<open>simp_all add: do_exec_def\<close>)
qed (use r in \<open>simp_all add: do_exec_def async_do_def\<close>)

text \<open>An interleaving that checks the restrictions of \<open>async_run\<close> after each event.\<close>

fun async_path :: "bytes set \<Rightarrow> env \<Rightarrow> async_event list \<Rightarrow> async \<Rightarrow> async option" where
  "async_path S E [] a = Some a"
| "async_path S E (ev # evs) a =
     (if \<not> event_fits E ev then None
      else case do_exec E ev a of
        None \<Rightarrow> None
      | Some a' \<Rightarrow> if seen S E (as_engine a') then async_path S E evs a' else None)"

lemma async_path_run:
  assumes "env_ok S E" "async_run S E n cfg a" "async_path S E evs a = Some a'" shows "async_run S E n cfg a'"
  using assms(2,3)
proof (induction evs arbitrary: a)
  case (Cons ev evs)
  then obtain a1 where a1: "event_fits E ev" "do_exec E ev a = Some a1" "seen S E (as_engine a1)" "async_path S E evs a1 = Some a'"
    by (auto split: if_splits option.splits)
  have "async_do E ev a = Some a1" by (rule do_exec_sound [OF async_run_ok [OF assms(1) Cons.prems(1)] a1(2)])
  then show ?case using Cons.IH async_event a1 Cons.prems(1) by blast
qed simp

definition ask_for :: "string \<Rightarrow> int list \<Rightarrow> int \<Rightarrow> pending_request" where
  "ask_for rid prompt limit = \<lparr>p_request = rid, p_prompt = Inr prompt, p_sampling = Some (sampling_default\<lparr>max_tokens := limit\<rparr>),
     p_tenant = ''t'', p_priority = 0, p_lora = 0, p_arrival = 0, p_queue = 0\<rparr>"

text \<open>Two clients; the step that produced tokens for both has returned and is not dispatched yet.\<close>

definition duo_config :: scheduler_config where
  "duo_config = pair_config\<lparr>enable_chunked_prefill := False\<rparr>"

definition duo_events :: "async_event list" where
  "duo_events = [Generate (ask_for ''a'' [5, 6, 7] 9), Resume_Loop 1, Run_Thread 1,
     Generate (ask_for ''b'' [5, 6, 8] 9), Resume_Loop 2, Take 0, Run_Thread 2]"

definition duo_async :: async where
  "duo_async = the (async_path pair_messages count_env duo_events (async_init (run_from 8 duo_config)))"

lemma duo_run:
  "map_option (\<lambda>a. (map (\<lambda>st. delivered st) (as_store a), map co_at (as_consumers a), map co_taken (as_consumers a),
       map co_call (as_consumers a), map o_new_tokens (transit a)))
     (async_path pair_messages count_env duo_events (async_init (run_from 8 duo_config)))
   = Some ([[8], []], [At_Yield False, At_Get], [1, 0],
       [ask_for ''a'' [5, 6, 7] 9, (ask_for ''b'' [5, 6, 8] 9)\<lparr>p_queue := 1\<rparr>], [[9], [9]])"
  by code_simp

lemma fresh_run: "1 \<le> cfg_block_size cfg \<Longrightarrow> async_run S E n cfg (async_init (run_from n cfg))"
  by (rule async_fresh) (rule run_from_eq)

lemma duo_reachable: "async_run pair_messages count_env 8 duo_config duo_async"
proof -
  obtain a where a: "async_path pair_messages count_env duo_events (async_init (run_from 8 duo_config)) = Some a"
    using duo_run by auto
  have "async_run pair_messages count_env 8 duo_config (async_init (run_from 8 duo_config))"
    by (rule fresh_run) (simp add: duo_config_def pair_config_def)
  from async_path_run [OF pair_env_ok this a] show ?thesis by (simp add: duo_async_def a)
qed

lemma duo_facts:
  "map delivered (as_store duo_async) = [[8], []]" "map co_at (as_consumers duo_async) = [At_Yield False, At_Get]"
  "map co_taken (as_consumers duo_async) = [1, 0]"
  "map co_call (as_consumers duo_async) = [ask_for ''a'' [5, 6, 7] 9, (ask_for ''b'' [5, 6, 8] 9)\<lparr>p_queue := 1\<rparr>]"
  using duo_run by (auto simp: duo_async_def)

text \<open>A client that leaves while the step that serves it is under way.\<close>

definition gone_events :: "async_event list" where
  "gone_events = [Generate (ask_for ''a'' [5, 6, 7] 9), Resume_Loop 1, Run_Thread 1, Leave 0]"

definition gone_async :: async where
  "gone_async = the (async_path pair_messages count_env gone_events (async_init (run_from 8 duo_config)))"

lemma gone_run:
  "map_option (\<lambda>a. (as_aborting a, case as_loop a of Returned r \<Rightarrow> (case r of Inr outs \<Rightarrow> True | Inl err \<Rightarrow> False) | _ \<Rightarrow> False))
     (async_path pair_messages count_env gone_events (async_init (run_from 8 duo_config)))
   = Some ([''a''], True)"
  by code_simp

lemma gone_reachable: "async_run pair_messages count_env 8 duo_config gone_async"
proof -
  obtain a where a: "async_path pair_messages count_env gone_events (async_init (run_from 8 duo_config)) = Some a"
    using gone_run by auto
  have "async_run pair_messages count_env 8 duo_config (async_init (run_from 8 duo_config))"
    by (rule fresh_run) (simp add: duo_config_def pair_config_def)
  from async_path_run [OF pair_env_ok this a] show ?thesis by (simp add: gone_async_def a)
qed

text \<open>The client of \<open>x\<close> stops reading at the final item, and the same name is used again.\<close>

definition reuse_events :: "async_event list" where
  "reuse_events = [Generate (ask_for ''x'' [5] 1), Resume_Loop 1, Run_Thread 1, Resume_Loop 2, Take 0, Leave 0,
     Generate (ask_for ''x'' [6] 3), Resume_Loop 3]"

section \<open>Shared facts\<close>

lemma run_pieces:
  assumes "env_ok S E" and "async_run S E n cfg a"
  shows "base_ok E (transit a) a" "loop_ok a" "engine_run S E n cfg (as_engine a)"
    "logs_ok (as_streams a) (as_store a) (as_consumers a)"
    "intake_ok E (transit a) (waiting_calls a) (as_streams a) (s_by_request (e_sched (as_engine a))) (as_store a) (as_consumers a)"
    "tokens_ok E (transit a) (waiting_calls a) (as_streams a) (e_sched (as_engine a)) (as_store a) (as_consumers a)"
  using async_run_ok [OF assms] by (simp_all add: async_ok_def base_ok_def)

lemma dense_generate_take: "k \<le> n \<Longrightarrow> take k (dense_generate M p l ts n) = dense_generate M p l ts k"
proof (induction n)
  case (Suc n)
  then show ?case by (cases "k = Suc n") (simp_all add: Let_def del: dense_generate.simps(1))
qed simp

lemma dense_generate_prefix:
  assumes "prefix zs (dense_generate M p l ts n)" shows "zs = dense_generate M p l ts (length zs)"
proof -
  obtain ys where ys: "dense_generate M p l ts n = zs @ ys" using assms by (auto simp: prefix_def)
  have "length zs \<le> n" using arg_cong [OF ys, of length] by simp
  from dense_generate_take [OF this, of M p l ts] show ?thesis by (simp add: ys)
qed

section \<open>Properties\<close>



text \<open>C8: A client that waits is not forgotten. If a generator waits for an item and its queue has
  nothing left, then its stream is open and its request is on its way: among the arrivals the loop has
  yet to take, or in flight in the engine, or its final output is in the hands of the loop. The loop
  is alive, and if it is parked it has been woken.\<close>

theorem waiting_client_is_served:
  assumes "env_ok S E" and "async_run S E n cfg a" and "k < length (as_consumers a)"
    and "co_at (as_consumers a ! k) = At_Get" and "co_taken (as_consumers a ! k) = length (st_queue (as_store a ! k))"
  shows "map_of (as_streams a) (p_request (co_call (as_consumers a ! k))) = Some k
    \<and> (p_request (co_call (as_consumers a ! k)) \<in> p_request ` set (as_pending a)
       \<or> s_by_request (e_sched (as_engine a)) (p_request (co_call (as_consumers a ! k))) \<noteq> None
       \<or> p_request (co_call (as_consumers a ! k)) \<in> o_request ` set (transit a))
    \<and> as_loop a \<noteq> Stopped \<and> (as_loop a \<noteq> Parked \<or> as_wake a)"
proof -
  note r = run_pieces [OF assms(1,2)]
  let ?r = "p_request (co_call (as_consumers a ! k))"
  have k: "k < length (as_store a)" using r(4) assms(3) by (simp add: logs_ok_def)
  have "log_ok (is_open (as_streams a) (as_consumers a) k) (as_store a ! k)" "consumer_ok (as_store a ! k) (as_consumers a ! k)"
    using r(4) k by (simp_all add: logs_ok_def)
  then have op: "map_of (as_streams a) ?r = Some k"
    using assms(4,5) by (auto simp: log_ok_def consumer_ok_def is_open_def split: if_splits)
  then have st: "as_streams a \<noteq> []" by auto
  have "?r \<in> p_request ` set (waiting_calls a) \<or> s_by_request (e_sched (as_engine a)) ?r \<noteq> None \<or> ?r \<in> o_request ` set (transit a)"
    using r(5) op unfolding intake_ok_def by blast
  then have w: "?r \<in> p_request ` set (as_pending a) \<or> s_by_request (e_sched (as_engine a)) ?r \<noteq> None \<or> ?r \<in> o_request ` set (transit a)"
    by (auto simp: waiting_calls_def split: if_splits)
  moreover have "as_wake a" if "as_loop a = Parked"
    using r(2) w that by (auto simp: loop_ok_def transit_def)
  ultimately show ?thesis using op st r(2) by (auto simp: loop_ok_def)
qed

theorem waiting_client_is_served_witness:
  "map_of (as_streams duo_async) ''b'' = Some 1 \<and> as_loop duo_async \<noteq> Stopped"
proof -
  have l: "length (as_store duo_async) = 2" "length (as_consumers duo_async) = 2"
    using arg_cong [OF duo_facts(1), of length] arg_cong [OF duo_facts(2), of length] by simp_all
  have c: "co_at (as_consumers duo_async ! 1) = At_Get" "co_taken (as_consumers duo_async ! 1) = 0"
    "co_call (as_consumers duo_async ! 1) = (ask_for ''b'' [5, 6, 8] 9)\<lparr>p_queue := 1\<rparr>"
    using arg_cong [OF duo_facts(2), of "\<lambda>xs. xs ! 1"] arg_cong [OF duo_facts(3), of "\<lambda>xs. xs ! 1"]
      arg_cong [OF duo_facts(4), of "\<lambda>xs. xs ! 1"] l by simp_all
  have "st_queue (as_store duo_async ! 1) = []"
  proof -
    have "map_option (\<lambda>a. st_queue (as_store a ! 1)) (async_path pair_messages count_env duo_events (async_init (run_from 8 duo_config))) = Some []"
      by code_simp
    then show ?thesis by (auto simp: duo_async_def)
  qed
  then show ?thesis
    using waiting_client_is_served [OF pair_env_ok duo_reachable, of 1] l c by (simp add: ask_for_def)
qed



text \<open>C13: An abort takes effect by the loop's next turn. Once the loop has resumed, no request whose
  abort was queued before is in flight, all arrivals have been handed over, and the abort queue and
  the arrivals are empty.\<close>

theorem aborts_apply_by_next_turn:
  assumes "env_ok S E" and "async_run S E n cfg a" and "loop_resume E now a = Some a'" and "rid \<in> set (as_aborting a)"
  shows "s_by_request (e_sched (as_engine a')) rid = None \<and> as_pending a' = []"
proof -
  obtain b where b: "a' = loop_turn E now b" "base_ok E [] b" "\<not> as_closed b" "as_loop b = Ready" "as_aborting b = as_aborting a"
    using resume_turn [OF async_run_ok [OF assms(1,2)] assms(3)] by blast
  show ?thesis using loop_turn_ok [OF b(2-4), of now S n cfg] assms(4) unfolding b(1) b(5) by blast
qed

theorem aborts_apply_by_next_turn_witness:
  "\<exists>a'. loop_resume count_env 2 gone_async = Some a' \<and> s_by_request (e_sched (as_engine a')) ''a'' = None"
proof -
  have "as_aborting gone_async = [''a'']" "\<exists>outs. as_loop gone_async = Returned (Inr outs)"
  proof -
    obtain a where a: "async_path pair_messages count_env gone_events (async_init (run_from 8 duo_config)) = Some a"
      using gone_run by auto
    show "as_aborting gone_async = [''a'']" "\<exists>outs. as_loop gone_async = Returned (Inr outs)"
      using gone_run by (auto simp: gone_async_def a split: sum.splits loop_at.splits)
  qed
  then show ?thesis
    using aborts_apply_by_next_turn [OF pair_env_ok gone_reachable, of 2 _ "''a''"] by (auto simp: loop_resume_def)
qed


end
