(* ===== verification/Speculation.thy ===== *)
theory Speculation
  imports Prelude Complex_Main
begin

text \<open>
  Speculative decoding: the n-gram drafter of \<open>src/turboserve/engine/spec/ngram.py\<close>, the draft
  proposal of \<open>spec/drafter.py\<close> and the verifier of \<open>spec/verifier.py\<close>.

  Logits enter only through what the code asks of torch: \<open>argmax\<close> of a row, the processed
  logits and their softmax are parameters. Probabilities are \<open>rat\<close> lists (exact arithmetic),
  tokens are vocabulary indices. Randomness is explicit: the uniform numbers of one call are
  a list and the multinomial draw is a function of its weights.
\<close>

section \<open>Prompt lookup\<close>

definition ngram_match :: "int list \<Rightarrow> nat \<Rightarrow> nat \<Rightarrow> bool" where
  "ngram_match ids sz start =
     (let tail = drop (length ids - sz) ids in
      list_all (\<lambda>offset. ids ! (offset + start) = tail ! offset) [0..<sz])"

fun ngram_loop :: "int list \<Rightarrow> nat \<Rightarrow> nat list \<Rightarrow> int list" where
  "ngram_loop ids n [] = []"
| "ngram_loop ids n (sz # sizes) =
     (case filter (ngram_match ids sz) [0..<length ids - sz] of
        [] \<Rightarrow> ngram_loop ids n sizes
      | found \<Rightarrow> take n (drop (last found + sz) ids))"

definition find_ngram_continuation :: "int list \<Rightarrow> int \<Rightarrow> int \<Rightarrow> int \<Rightarrow> int list" where
  "find_ngram_continuation tokens num_tokens min_ngram max_ngram =
     (if num_tokens \<le> 0 \<or> min_ngram < 1 \<or> max_ngram < min_ngram then []
      else ngram_loop tokens (nat num_tokens)
             (rev [nat min_ngram ..< Suc (min (nat max_ngram) (length tokens - 1))]))"

section \<open>Draft proposals\<close>

record proposal =
  dp_token_ids :: "int list list"
  dp_lengths :: "nat list"
  dp_probs :: "rat list list list option"

definition proposal_check :: "proposal \<Rightarrow> nat \<Rightarrow> py_error + proposal" where
  "proposal_check p width =
     (if length (dp_lengths p) \<noteq> length (dp_token_ids p) then Inl ValueError
      else if list_ex (\<lambda>n. width < n) (dp_lengths p) then Inl ValueError
      else case dp_probs p of
        None \<Rightarrow> Inr p
      | Some ps \<Rightarrow> if length ps \<noteq> length (dp_token_ids p) \<or> list_ex (\<lambda>row. length row \<noteq> width) ps
                  then Inl ValueError else Inr p)"

definition proposal_empty :: "nat \<Rightarrow> py_error + proposal" where
  "proposal_empty n = proposal_check
     \<lparr>dp_token_ids = replicate n [], dp_lengths = replicate n 0, dp_probs = None\<rparr> 0"

definition from_lists :: "int list list \<Rightarrow> rat list list list option \<Rightarrow> py_error + proposal" where
  "from_lists token_lists probs =
     (let width = foldr (\<lambda>t. max (length t)) token_lists 0 in
      proposal_check
        \<lparr>dp_token_ids = map (\<lambda>t. t @ replicate (width - length t) 0) token_lists,
         dp_lengths = map length token_lists,
         dp_probs = map_option (map (take width)) probs\<rparr> width)"

definition total_drafts :: "proposal \<Rightarrow> nat" where
  "total_drafts p = sum_list (dp_lengths p)"

definition tokens_for :: "nat \<Rightarrow> proposal \<Rightarrow> int list" where
  "tokens_for i p = take (dp_lengths p ! i) (dp_token_ids p ! i)"

definition probs_for :: "nat \<Rightarrow> proposal \<Rightarrow> rat list list option" where
  "probs_for i p = map_option (\<lambda>ps. take (dp_lengths p ! i) (ps ! i)) (dp_probs p)"

section \<open>The n-gram drafter\<close>

record drafter =
  ng_min :: int
  ng_max :: int
  ng_num_proposals :: nat
  ng_num_draft_tokens :: nat
  ng_num_hits :: nat
  ng_num_lookups :: nat
  ng_tracked :: "nat set"

definition ng_init :: "int \<Rightarrow> int \<Rightarrow> py_error + drafter" where
  "ng_init mn mx =
     (if mn < 1 then Inl ValueError else if mx < mn then Inl ValueError
      else Inr \<lparr>ng_min = mn, ng_max = mx, ng_num_proposals = 0, ng_num_draft_tokens = 0,
             ng_num_hits = 0, ng_num_lookups = 0, ng_tracked = {}\<rparr>)"

fun ng_lookups :: "(nat \<times> int list) list \<Rightarrow> int \<Rightarrow> drafter \<Rightarrow> int list list \<times> drafter" where
  "ng_lookups [] k d = ([], d)"
| "ng_lookups ((sid, tokens) # seqs) k d =
     (let proposed = find_ngram_continuation tokens k (ng_min d) (ng_max d);
          d1 = d\<lparr>ng_num_lookups := ng_num_lookups d + 1,
                 ng_num_hits := ng_num_hits d + (if proposed \<noteq> [] then 1 else 0),
                 ng_tracked := insert sid (ng_tracked d)\<rparr>
      in case ng_lookups seqs k d1 of (ls, d2) \<Rightarrow> (proposed # ls, d2))"

definition ng_propose :: "(nat \<times> int list) list \<Rightarrow> int \<Rightarrow> drafter \<Rightarrow> py_error + (proposal \<times> drafter)" where
  "ng_propose seqs k d =
     (if k \<le> 0 \<or> seqs = [] then rbind (proposal_empty (length seqs)) (\<lambda>p. Inr (p, d))
      else case ng_lookups seqs k (d\<lparr>ng_num_proposals := ng_num_proposals d + 1\<rparr>) of
        (ls, d1) \<Rightarrow>
          rbind (from_lists ls None) (\<lambda>p.
          Inr (p, d1\<lparr>ng_num_draft_tokens := ng_num_draft_tokens d1 + total_drafts p\<rparr>)))"

definition ng_release :: "nat \<Rightarrow> drafter \<Rightarrow> drafter" where
  "ng_release sid d = d\<lparr>ng_tracked := ng_tracked d - {sid}\<rparr>"

definition ng_prune :: "nat list \<Rightarrow> drafter \<Rightarrow> nat \<times> drafter" where
  "ng_prune live d = (let stale = {s \<in> ng_tracked d. s \<notin> set live} in
     (card stale, d\<lparr>ng_tracked := ng_tracked d - stale\<rparr>))"

definition ng_reset :: "drafter \<Rightarrow> drafter" where
  "ng_reset d = d\<lparr>ng_tracked := {}\<rparr>"

section \<open>Verification\<close>

record 't verification =
  vf_accepted :: "'t list"
  vf_bonus :: 't
  vf_drafted :: nat

definition verification_make :: "'t list \<Rightarrow> 't \<Rightarrow> nat \<Rightarrow> py_error + 't verification" where
  "verification_make acc bonus drafted =
     (if drafted < length acc then Inl ValueError
      else Inr \<lparr>vf_accepted = acc, vf_bonus = bonus, vf_drafted = drafted\<rparr>)"

definition num_emitted :: "'t verification \<Rightarrow> nat" where
  "num_emitted v = length (vf_accepted v) + 1"

definition all_accepted :: "'t verification \<Rightarrow> bool" where
  "all_accepted v \<longleftrightarrow> length (vf_accepted v) = vf_drafted v"

definition vf_tokens :: "'t verification \<Rightarrow> 't list" where
  "vf_tokens v = vf_accepted v @ [vf_bonus v]"

fun accept_loop :: "'t list \<Rightarrow> 't list \<Rightarrow> 't list" where
  "accept_loop (g # gs) (d # ds) = (if g \<noteq> d then [] else d # accept_loop gs ds)"
| "accept_loop _ _ = []"

definition verify_greedy :: "('row \<Rightarrow> 't) \<Rightarrow> 'row list \<Rightarrow> 't list \<Rightarrow> py_error + 't verification" where
  "verify_greedy argmax rows draft =
     (if length rows \<noteq> length draft + 1 then Inl ValueError
      else let greedy = map argmax rows; acc = accept_loop greedy draft in
        verification_make acc (greedy ! length acc) (length draft))"

definition accepts :: "rat \<Rightarrow> rat list \<Rightarrow> rat list option \<Rightarrow> nat \<Rightarrow> bool" where
  "accepts u p dq x \<longleftrightarrow> u * (case dq of None \<Rightarrow> 1 | Some q \<Rightarrow> q ! x) < p ! x"

fun first_rejected :: "bool list \<Rightarrow> nat" where
  "first_rejected [] = 0"
| "first_rejected (b # bs) = (if b then Suc (first_rejected bs) else 0)"

definition residual_weights :: "rat list \<Rightarrow> rat list option \<Rightarrow> nat \<Rightarrow> rat list" where
  "residual_weights p dq x =
     (let r = (case dq of None \<Rightarrow> p[x := 0] | Some q \<Rightarrow> map2 (\<lambda>a b. max 0 (a - b)) p q)
      in if sum_list r \<le> 0 then p else r)"

definition verify_rejection_sampling ::
  "rat list \<Rightarrow> (rat list \<Rightarrow> nat) \<Rightarrow> rat list list \<Rightarrow> nat list \<Rightarrow> rat list list option \<Rightarrow> py_error + nat verification" where
  "verify_rejection_sampling us draw P draft Q =
     (let k = length draft in
      if length P \<noteq> k + 1 then Inl ValueError
      else if (case Q of None \<Rightarrow> False
               | Some qs \<Rightarrow> length qs \<noteq> k \<or> list_ex (\<lambda>q. length q \<noteq> length (hd P)) qs) then Inl ValueError
      else if list_ex (\<lambda>t. length (hd P) \<le> t) draft then Inl RuntimeError
      else let dq = (\<lambda>i. map_option (\<lambda>qs. qs ! i) Q);
               n = first_rejected (map (\<lambda>i. accepts (us ! i) (P ! i) (dq i) (draft ! i)) [0..<k])
           in if n = k then verification_make draft (draw (P ! k)) k
              else verification_make (take n draft)
                     (draw (residual_weights (P ! n) (dq n) (draft ! n))) k)"

text \<open>Token ids are ints here; a negative one is as much out of range as one above the vocabulary.\<close>

definition vocab_index :: "nat \<Rightarrow> int \<Rightarrow> nat" where
  "vocab_index vocab t = (if 0 \<le> t then nat t else vocab)"

definition verify_sequence ::
  "('row \<Rightarrow> int) \<Rightarrow> ('row list \<Rightarrow> 'row list) \<Rightarrow> ('row list \<Rightarrow> rat list list) \<Rightarrow> bool \<Rightarrow>
   rat list \<Rightarrow> (rat list \<Rightarrow> nat) \<Rightarrow> 'row list \<Rightarrow> int list \<Rightarrow> rat list list option \<Rightarrow> py_error + int verification" where
  "verify_sequence argmax processed probs greedy us draw rows draft Q =
     (if greedy then verify_greedy argmax (processed rows) draft
      else let P = probs rows in
           rbind (verify_rejection_sampling us draw P (map (vocab_index (length (hd P))) draft) Q) (\<lambda>v.
           Inr \<lparr>vf_accepted = map int (vf_accepted v), vf_bonus = int (vf_bonus v), vf_drafted = vf_drafted v\<rparr>))"

section \<open>What a lookup finds\<close>

definition repeat_at :: "int list \<Rightarrow> nat \<Rightarrow> nat \<Rightarrow> bool" where
  "repeat_at ids sz start \<longleftrightarrow> start + sz < length ids
     \<and> take sz (drop start ids) = drop (length ids - sz) ids"

lemma ngram_match_repeat:
  assumes "start + sz < length ids"
  shows "ngram_match ids sz start \<longleftrightarrow> repeat_at ids sz start"
proof -
  have "take sz (drop start ids) = drop (length ids - sz) ids
      \<longleftrightarrow> (\<forall>i < sz. ids ! (i + start) = drop (length ids - sz) ids ! i)"
    using assms by (auto simp: list_eq_iff_nth_eq add.commute)
  then show ?thesis using assms by (auto simp: ngram_match_def repeat_at_def Let_def list_all_iff)
qed

lemma found_repeats:
  "sz < length ids \<Longrightarrow> set (filter (ngram_match ids sz) [0..<length ids - sz]) = {s. repeat_at ids sz s}"
  by (auto simp: ngram_match_repeat repeat_at_def less_diff_conv)

lemma last_filter_upt:
  assumes "filter P [0..<n] \<noteq> []"
  shows "P (last (filter P [0..<n])) \<and> last (filter P [0..<n]) < n \<and> (\<forall>j < n. P j \<longrightarrow> j \<le> last (filter P [0..<n]))"
  using assms by (induction n) (auto simp: less_Suc_eq)

lemma ngram_loop_spec:
  assumes "sorted_wrt (>) sizes" "\<forall>sz \<in> set sizes. sz < length ids" "0 < n"
  shows "(ngram_loop ids n sizes = [] \<longleftrightarrow> (\<forall>sz \<in> set sizes. \<forall>s. \<not> repeat_at ids sz s))
    \<and> (ngram_loop ids n sizes \<noteq> [] \<longrightarrow> (\<exists>sz \<in> set sizes. \<exists>s. repeat_at ids sz s
          \<and> ngram_loop ids n sizes = take n (drop (s + sz) ids)
          \<and> (\<forall>s'. repeat_at ids sz s' \<longrightarrow> s' \<le> s) \<and> (\<forall>z \<in> set sizes. sz < z \<longrightarrow> (\<forall>s'. \<not> repeat_at ids z s'))))"
  using assms
proof (induction sizes)
  case Nil
  then show ?case by simp
next
  case (Cons z zs)
  let ?f = "filter (ngram_match ids z) [0..<length ids - z]"
  have z: "z < length ids" "\<forall>x \<in> set zs. x < z" using Cons.prems by auto
  note fr = found_repeats [OF z(1)]
  show ?case
  proof (cases "?f = []")
    case True
    then have "\<not> repeat_at ids z s" for s using fr by auto
    moreover have "ngram_loop ids n (z # zs) = ngram_loop ids n zs" using True by simp
    moreover note Cons.IH
    ultimately show ?thesis using Cons.prems z(2) by auto
  next
    case False
    have l: "ngram_loop ids n (z # zs) = take n (drop (last ?f + z) ids)"
      using False by (cases ?f) simp_all
    note L = last_filter_upt [OF False]
    have r: "repeat_at ids z (last ?f)" using fr last_in_set [OF False] by auto
    then have ne: "ngram_loop ids n (z # zs) \<noteq> []" using l Cons.prems(3) by (simp add: repeat_at_def)
    have "s' \<le> last ?f" if "repeat_at ids z s'" for s'
      using L that ngram_match_repeat [of s' z ids] by (simp add: repeat_at_def less_diff_conv)
    then have "\<exists>sz \<in> set (z # zs). \<exists>s. repeat_at ids sz s
          \<and> ngram_loop ids n (z # zs) = take n (drop (s + sz) ids)
          \<and> (\<forall>s'. repeat_at ids sz s' \<longrightarrow> s' \<le> s) \<and> (\<forall>z' \<in> set (z # zs). sz < z' \<longrightarrow> (\<forall>s'. \<not> repeat_at ids z' s'))"
      using r l z(2) by (intro bexI [of _ z] exI [of _ "last ?f"]) auto
    then show ?thesis using ne r by auto
  qed
qed

section \<open>Proposals are padded, not changed\<close>

lemma width_ge: "t \<in> set ls \<Longrightarrow> length t \<le> foldr (\<lambda>t. max (length t)) ls 0"
  by (induction ls) auto

lemma from_lists_returns:
  "from_lists ls None = Inr \<lparr>dp_token_ids = map (\<lambda>t. t @ replicate (foldr (\<lambda>t. max (length t)) ls 0 - length t) 0) ls,
     dp_lengths = map length ls, dp_probs = None\<rparr>"
proof -
  have "\<not> list_ex (\<lambda>n. foldr (\<lambda>t. max (length t)) ls 0 < n) (map length ls)"
    using width_ge [of _ ls] by (auto simp: list_ex_iff not_less)
  then show ?thesis by (simp add: from_lists_def proposal_check_def Let_def)
qed

lemma ng_lookups_lists:
  "fst (ng_lookups seqs k d) = map (\<lambda>(sid, ts). find_ngram_continuation ts k (ng_min d) (ng_max d)) seqs
   \<and> ng_tracked (snd (ng_lookups seqs k d)) = ng_tracked d \<union> fst ` set seqs"
proof (induction seqs arbitrary: d)
  case (Cons a seqs)
  obtain sid ts where a: "a = (sid, ts)" by fastforce
  let ?p = "find_ngram_continuation ts k (ng_min d) (ng_max d)"
  let ?d = "d\<lparr>ng_num_lookups := ng_num_lookups d + 1,
    ng_num_hits := ng_num_hits d + (if ?p \<noteq> [] then 1 else 0), ng_tracked := insert sid (ng_tracked d)\<rparr>"
  obtain ls d2 where r: "ng_lookups seqs k ?d = (ls, d2)" by fastforce
  then have "ng_lookups (a # seqs) k d = (?p # ls, d2)" by (simp only: a ng_lookups.simps Let_def split_conv)
  then show ?case using Cons.IH [of ?d] r a by simp
qed simp

section \<open>Greedy verification\<close>

text \<open>Ordinary greedy decoding: one target call per token.\<close>

fun greedy_decode :: "('row \<Rightarrow> 't) \<Rightarrow> ('t list \<Rightarrow> 'row) \<Rightarrow> nat \<Rightarrow> 't list \<Rightarrow> 't list" where
  "greedy_decode argmax target 0 ctx = []"
| "greedy_decode argmax target (Suc n) ctx =
     (let t = argmax (target ctx) in t # greedy_decode argmax target n (ctx @ [t]))"

text \<open>The rows of one verification pass: the target's logits after each prefix of the draft.\<close>

definition draft_rows :: "('t list \<Rightarrow> 'row) \<Rightarrow> 't list \<Rightarrow> 't list \<Rightarrow> 'row list" where
  "draft_rows target ctx draft = map (\<lambda>j. target (ctx @ take j draft)) [0..<length draft + 1]"

lemma draft_rows_Cons:
  "draft_rows target ctx (d # ds) = target ctx # draft_rows target (ctx @ [d]) ds"
  by (simp add: draft_rows_def upt_conv_Cons map_Suc_upt [symmetric] del: upt_Suc)

lemma accept_loop_greedy:
  "let greedy = map argmax (draft_rows target ctx draft); acc = accept_loop greedy draft in
   length acc \<le> length draft
   \<and> acc @ [greedy ! length acc] = greedy_decode argmax target (length acc + 1) ctx"
proof (induction draft arbitrary: ctx)
  case Nil
  then show ?case by (simp add: draft_rows_def)
next
  case (Cons d ds)
  show ?case using Cons [of "ctx @ [d]"] by (simp add: draft_rows_Cons Let_def)
qed

section \<open>Rejection sampling\<close>

text \<open>The length of the set of uniform numbers in [0,1) that keep token \<open>x\<close>.\<close>

definition accept_prob :: "rat list \<Rightarrow> rat list option \<Rightarrow> nat \<Rightarrow> rat" where
  "accept_prob p dq x =
     (let b = (case dq of None \<Rightarrow> 1 | Some q \<Rightarrow> q ! x) in
      if b = 0 then (if 0 < p ! x then 1 else 0) else min 1 (p ! x / b))"

lemma accepts_iff:
  assumes "0 \<le> u" "u < 1" "0 \<le> p ! x" "\<And>q. dq = Some q \<Longrightarrow> 0 \<le> q ! x"
  shows "accepts u p dq x \<longleftrightarrow> u < accept_prob p dq x"
proof -
  let ?b = "case dq of None \<Rightarrow> 1 | Some q \<Rightarrow> q ! x"
  have "0 \<le> ?b" using assms(4) by (auto split: option.splits)
  then consider "?b = 0" | "0 < ?b" by linarith
  then show ?thesis
  proof cases
    case 1
    then show ?thesis using assms by (simp add: accepts_def accept_prob_def Let_def)
  next
    case 2
    then have "u * ?b < p ! x \<longleftrightarrow> u < p ! x / ?b" by (simp add: pos_less_divide_eq)
    then show ?thesis using 2 assms(2) by (auto simp: accepts_def accept_prob_def Let_def)
  qed
qed

definition dist :: "rat list \<Rightarrow> bool" where
  "dist p \<longleftrightarrow> list_all (\<lambda>a. 0 \<le> a) p \<and> sum_list p = 1"

text \<open>A multinomial draw picks index \<open>t\<close> with probability \<open>w ! t / sum w\<close>.\<close>

definition draw_prob :: "rat list \<Rightarrow> nat \<Rightarrow> rat" where
  "draw_prob w t = w ! t / sum_list w"

text \<open>The probability that the first emitted token is \<open>t\<close> when \<open>x\<close> was drafted.\<close>

definition emit_prob :: "rat list \<Rightarrow> rat list option \<Rightarrow> nat \<Rightarrow> nat \<Rightarrow> rat" where
  "emit_prob p dq x t = accept_prob p dq x * of_bool (x = t)
     + (1 - accept_prob p dq x) * draw_prob (residual_weights p dq x) t"

lemma dist_facts:
  assumes "dist p"
  shows "x < length p \<Longrightarrow> 0 \<le> p ! x" "(\<Sum>i<length p. p ! i) = 1" "x < length p \<Longrightarrow> p ! x \<le> 1"
proof -
  show nn: "0 \<le> p ! x" if "x < length p" for x using assms that by (simp add: dist_def list_all_length)
  show s: "(\<Sum>i<length p. p ! i) = 1" using assms by (simp add: dist_def sum_list_sum_nth atLeast0LessThan)
  show "p ! x \<le> 1" if "x < length p"
    using member_le_sum [of x "{..<length p}" "\<lambda>i. p ! i"] nn that s by auto
qed

lemma mass_accepted:
  assumes "0 \<le> p ! x" "0 \<le> q ! x"
  shows "q ! x * accept_prob p (Some q) x = min (p ! x) (q ! x)"
proof (cases "q ! x = 0")
  case True
  then show ?thesis using assms by (simp add: accept_prob_def)
next
  case False
  then have "0 < q ! x" using assms by simp
  then have "q ! x * min 1 (p ! x / q ! x) = min (q ! x) (p ! x)"
    by (simp add: min_mult_distrib_left)
  then show ?thesis using False by (simp add: accept_prob_def min.commute)
qed

lemma rejection_sampling_exact:
  assumes p: "dist p" and q: "dist q" and l: "length q = length p" and t: "t < length p"
  shows "(\<Sum>x<length q. q ! x * emit_prob p (Some q) x t) = p ! t"
proof -
  let ?n = "length p" and ?m = "\<lambda>x. min (p ! x) (q ! x)"
  let ?S = "\<Sum>x<?n. q ! x - ?m x" and ?W = "residual_weights p (Some q)"
  have nn: "0 \<le> p ! x" "0 \<le> q ! x" if "x < ?n" for x using that p q l by (auto simp: dist_facts)
  have sum1: "(\<Sum>x<?n. p ! x) = 1" "(\<Sum>x<?n. q ! x) = 1" using dist_facts(2) [OF p] dist_facts(2) [OF q] l by simp_all
  have S: "(\<Sum>x<?n. p ! x - ?m x) = ?S" using sum1 by (simp add: sum_subtractf)
  let ?r = "map2 (\<lambda>a b. max 0 (a - b)) p q"
  have r: "?r ! x = p ! x - ?m x" if "x < ?n" for x using that l by (auto simp: min_def max_def)
  have "sum_list ?r = (\<Sum>x<?n. p ! x - ?m x)"
    using r l by (simp add: sum_list_sum_nth atLeast0LessThan)
  then have rs: "sum_list ?r = ?S" using S by simp
  have W: "?W x = (if ?S \<le> 0 then p else ?r)" for x by (simp only: residual_weights_def Let_def rs option.case)
  have tm: "q ! x * emit_prob p (Some q) x t
      = ?m x * of_bool (x = t) + (q ! x - ?m x) * draw_prob (?W 0) t" if "x < ?n" for x
  proof -
    have "q ! x * (1 - accept_prob p (Some q) x) = q ! x - ?m x"
      using mass_accepted [OF nn [OF that]] by (simp add: algebra_simps)
    then show ?thesis
      using mass_accepted [OF nn [OF that]] W [of x] W [of 0]
      by (simp add: emit_prob_def distrib_left mult.assoc [symmetric])
  qed
  have "(\<Sum>x<?n. q ! x * emit_prob p (Some q) x t)
      = (\<Sum>x<?n. ?m x * of_bool (x = t)) + ?S * draw_prob (?W 0) t"
    by (simp add: tm sum.distrib sum_distrib_right)
  moreover have "(\<Sum>x<?n. ?m x * of_bool (x = t)) = ?m t"
    using t by (simp add: of_bool_def if_distrib cong: if_cong)
  moreover have "?S * draw_prob (?W 0) t = p ! t - ?m t"
  proof (cases "?S \<le> 0")
    case True
    have "0 \<le> q ! x - ?m x" "0 \<le> p ! x - ?m x" for x by simp_all
    then have z: "?S = 0" using True by (meson order_antisym sum_nonneg)
    have "(\<Sum>x<?n. p ! x - ?m x) = 0" using S z by simp
    then have "p ! t - ?m t = 0" using t by (subst (asm) sum_nonneg_eq_0_iff) auto
    then show ?thesis using z by simp
  next
    case False
    then have "draw_prob (?W 0) t = (p ! t - ?m t) / ?S" by (simp only: W draw_prob_def if_False r [OF t] rs)
    then show ?thesis using False by simp
  qed
  ultimately show ?thesis using l by simp
qed

lemma sum_list_zeroed: "x < length p \<Longrightarrow> sum_list (p[x := 0]) = sum_list p - (p ! x :: rat)"
  by (induction p arbitrary: x) (auto simp: nth_Cons split: nat.splits)

lemma point_mass_exact:
  assumes p: "dist p" and x: "x < length p" and t: "t < length p"
  shows "emit_prob p None x t = p ! t"
proof -
  have a: "accept_prob p None x = p ! x" using dist_facts [OF p] x by (simp add: accept_prob_def)
  have s: "sum_list (p[x := 0]) = 1 - p ! x"
    using sum_list_zeroed [OF x] p by (simp add: dist_def)
  show ?thesis
  proof (cases "1 - p ! x \<le> 0")
    case True
    then have 1: "p ! x = 1" using dist_facts(3) [OF p x] by simp
    have "t \<noteq> x \<Longrightarrow> p ! t = 0"
    proof -
      assume "t \<noteq> x"
      then have "p ! x + p ! t = (\<Sum>i \<in> {x, t}. p ! i)" by simp
      also have "\<dots> \<le> (\<Sum>i<length p. p ! i)"
        by (rule sum_mono2) (use x t dist_facts(1) [OF p] in auto)
      finally show "p ! t = 0" using 1 dist_facts(2) [OF p] dist_facts(1) [OF p t] by simp
    qed
    then show ?thesis using a 1 by (auto simp: emit_prob_def)
  next
    case False
    then have "residual_weights p None x = p[x := 0]" by (simp add: residual_weights_def s)
    then show ?thesis using a s x t False by (auto simp: emit_prob_def draw_prob_def nth_list_update)
  qed
qed

section \<open>Properties\<close>

text \<open>C25: The prompt-lookup drafter proposes what followed the most recent repeat of the longest
  repeated tail: it proposes nothing exactly when the arguments are out of range or no tail of an
  allowed length occurs earlier, and otherwise it copies the tokens after the latest occurrence of
  the longest tail that does.\<close>

theorem lookup_copies_latest_longest_repeat:
  assumes "0 < k" "1 \<le> mn" "mn \<le> mx"
  shows "let r = find_ngram_continuation ids k mn mx in
    (r = [] \<longleftrightarrow> (\<forall>sz s. nat mn \<le> sz \<longrightarrow> sz \<le> nat mx \<longrightarrow> \<not> repeat_at ids sz s))
    \<and> (r \<noteq> [] \<longrightarrow> (\<exists>sz s. nat mn \<le> sz \<and> sz \<le> nat mx \<and> repeat_at ids sz s
          \<and> r = take (nat k) (drop (s + sz) ids)
          \<and> (\<forall>s'. repeat_at ids sz s' \<longrightarrow> s' \<le> s)
          \<and> (\<forall>z s'. sz < z \<longrightarrow> z \<le> nat mx \<longrightarrow> \<not> repeat_at ids z s')))"
proof -
  let ?sizes = "rev [nat mn ..< Suc (min (nat mx) (length ids - 1))]"
  let ?r = "find_ngram_continuation ids k mn mx"
  have r: "?r = ngram_loop ids (nat k) ?sizes" using assms by (simp add: find_ngram_continuation_def)
  have desc: "sorted_wrt (>) ?sizes" by (simp add: sorted_wrt_rev sorted_wrt_upt del: upt_Suc)
  have mem: "sz \<in> set ?sizes \<longleftrightarrow> nat mn \<le> sz \<and> sz \<le> nat mx \<and> sz < length ids" for sz
    using assms by (cases ids) auto
  have out: "\<not> sz < length ids \<Longrightarrow> \<not> repeat_at ids sz s" for sz s by (simp add: repeat_at_def)
  have "\<forall>sz \<in> set ?sizes. sz < length ids" "0 < nat k" using mem assms(1) by auto
  note S = ngram_loop_spec [OF desc this]
  have e: "?r = [] \<longleftrightarrow> (\<forall>sz s. nat mn \<le> sz \<longrightarrow> sz \<le> nat mx \<longrightarrow> \<not> repeat_at ids sz s)"
    using S [THEN conjunct1] mem out unfolding r by blast
  moreover have "?r \<noteq> [] \<longrightarrow> (\<exists>sz s. nat mn \<le> sz \<and> sz \<le> nat mx \<and> repeat_at ids sz s
          \<and> ?r = take (nat k) (drop (s + sz) ids)
          \<and> (\<forall>s'. repeat_at ids sz s' \<longrightarrow> s' \<le> s)
          \<and> (\<forall>z s'. sz < z \<longrightarrow> z \<le> nat mx \<longrightarrow> \<not> repeat_at ids z s'))"
  proof
    assume "?r \<noteq> []"
    then obtain sz s where w: "sz \<in> set ?sizes" "repeat_at ids sz s" "?r = take (nat k) (drop (s + sz) ids)"
      "\<forall>s'. repeat_at ids sz s' \<longrightarrow> s' \<le> s" "\<forall>z \<in> set ?sizes. sz < z \<longrightarrow> (\<forall>s'. \<not> repeat_at ids z s')"
      using S [THEN conjunct2] unfolding r by blast
    have "\<forall>z s'. sz < z \<longrightarrow> z \<le> nat mx \<longrightarrow> \<not> repeat_at ids z s'"
      using w(1,5) mem out by (metis less_imp_le order_trans)
    then show "\<exists>sz s. nat mn \<le> sz \<and> sz \<le> nat mx \<and> repeat_at ids sz s
          \<and> ?r = take (nat k) (drop (s + sz) ids)
          \<and> (\<forall>s'. repeat_at ids sz s' \<longrightarrow> s' \<le> s)
          \<and> (\<forall>z s'. sz < z \<longrightarrow> z \<le> nat mx \<longrightarrow> \<not> repeat_at ids z s')"
      using w(1-4) mem by blast
  qed
  ultimately show ?thesis by (simp add: Let_def)
qed

theorem lookup_copies_latest_longest_repeat_witness:
  "\<exists>sz s. repeat_at [1, 2, 3, 9, 1, 2, 3] sz s \<and> take (nat 2) (drop (s + sz) [1, 2, 3, 9, 1, 2, 3]) = [9, 1 :: int]"
proof -
  have r: "find_ngram_continuation [1, 2, 3, 9, 1, 2, 3] 2 2 4 = [9, 1]" by code_simp
  show ?thesis
    using lookup_copies_latest_longest_repeat [of 2 2 4 "[1, 2, 3, 9, 1, 2, 3]"]
    unfolding r Let_def by fastforce
qed

text \<open>C26: Greedy speculation changes nothing a client can see. Verifying any draft against the
  target's logits emits exactly the tokens that ordinary greedy decoding of the target would
  emit in as many steps, at least one and at most one more than were drafted.\<close>

theorem greedy_speculation_is_greedy_decoding:
  "\<exists>v. verify_greedy argmax (draft_rows target ctx draft) draft = Inr v
     \<and> vf_tokens v = greedy_decode argmax target (num_emitted v) ctx
     \<and> 1 \<le> num_emitted v \<and> num_emitted v \<le> length draft + 1"
proof -
  have "length (draft_rows target ctx draft) = length draft + 1" by (simp add: draft_rows_def)
  then show ?thesis
    using accept_loop_greedy [of argmax target ctx draft]
    by (simp add: verify_greedy_def verification_make_def vf_tokens_def num_emitted_def Let_def
        del: nth_map greedy_decode.simps)
qed

text \<open>C27: Rejection sampling is exact. The token emitted at a position, when the draft token is
  drawn from the draft distribution \<open>q\<close>, accepted with the model's acceptance test against a
  uniform number and otherwise replaced by a draw from the model's residual weights, is
  distributed as the target distribution \<open>p\<close>; so it is when the draft is a fixed token.\<close>

theorem rejection_sampling_emits_target_distribution:
  assumes "dist p" "dist q" "length q = length p" "t < length p" "x < length p" "0 \<le> u" "u < 1"
    and "length r = length p"
  shows "(\<Sum>y<length q. q ! y * emit_prob p (Some q) y t) = p ! t \<and> emit_prob p None x t = p ! t
    \<and> (\<exists>v. verify_rejection_sampling [u] draw [p, r] [x] (Some [q]) = Inr v
         \<and> hd (vf_tokens v) = (if u < accept_prob p (Some q) x then x else draw (residual_weights p (Some q) x)))"
proof (intro conjI)
  show "(\<Sum>y<length q. q ! y * emit_prob p (Some q) y t) = p ! t"
    using assms by (intro rejection_sampling_exact)
  show "emit_prob p None x t = p ! t" using assms by (intro point_mass_exact)
  have "accepts u p (Some q) x = (u < accept_prob p (Some q) x)"
    using assms dist_facts(1) by (intro accepts_iff) auto
  then show "\<exists>v. verify_rejection_sampling [u] draw [p, r] [x] (Some [q]) = Inr v
         \<and> hd (vf_tokens v) = (if u < accept_prob p (Some q) x then x else draw (residual_weights p (Some q) x))"
    using assms by (simp add: verify_rejection_sampling_def verification_make_def vf_tokens_def Let_def)
qed

theorem rejection_sampling_emits_target_distribution_witness:
  "(\<Sum>y<length [1/4, 3/4 :: rat]. [1/4, 3/4] ! y * emit_prob [1/2, 1/2] (Some [1/4, 3/4]) y 0) = [1/2, 1/2] ! 0
   \<and> emit_prob [1/2, 1/2] None 1 0 = [1/2, 1/2] ! 0
   \<and> (\<exists>v. verify_rejection_sampling [1/3] (\<lambda>w. 0) [[1/2, 1/2], [1, 0]] [1] (Some [[1/4, 3/4]]) = Inr v
       \<and> hd (vf_tokens v) = (if 1/3 < accept_prob [1/2, 1/2] (Some [1/4, 3/4]) 1 then 1
           else (\<lambda>w. 0) (residual_weights [1/2, 1/2] (Some [1/4, 3/4]) 1)))"
  by (rule rejection_sampling_emits_target_distribution) (simp_all add: dist_def)

end
