(* ===== verification/Lora_Registry.thy ===== *)
theory Lora_Registry
  imports Prelude
begin

text \<open>
  The adapter registry, \<open>src/turboserve/engine/lora/registry.py\<close>: host-resident adapters and
  a least-recently-used cache of GPU slots, with the slot operations of a wrapped projection
  (\<open>load_slot\<close>, \<open>clear_slot\<close> of \<open>engine/lora/layers.py\<close>) and an adapter's shape check
  (\<open>validate_against\<close> of \<open>engine/lora/adapter.py\<close>).

  The numbers of a factor pair (A, B and scaling) are opaque data of type \<open>'w\<close>; a zeroed slot
  of a layer is \<open>None\<close>. A dict whose order matters is a list (the LRU) beside a map.
\<close>

datatype lora_error = RegistryError | UnknownAdapter | LoRACapacity | AdapterError | SlotError | NoSuchKey

section \<open>Adapters and wrapped projections\<close>

record 'w lora_weight =
  lw_in :: nat
  lw_out :: nat
  lw_rank :: nat
  lw_data :: 'w

record 'w adapter =
  ad_name :: string
  ad_weights :: "(string \<times> 'w lora_weight) list"
  ad_rank :: nat

record 'w lora_layer =
  ly_name :: string
  ly_in :: nat
  ly_out :: nat
  ly_num_slots :: nat
  ly_max_rank :: nat
  ly_slots :: "nat \<rightharpoonup> 'w"

definition validate_against :: "(string \<rightharpoonup> nat \<times> nat) \<Rightarrow> 'w adapter \<Rightarrow> lora_error + unit" where
  "validate_against shapes ad =
     (if list_ex (\<lambda>(n, w). shapes n = None) (ad_weights ad) then Inl AdapterError
      else rguard (list_ex (\<lambda>(n, w). shapes n \<noteq> None \<and> shapes n \<noteq> Some (lw_in w, lw_out w)) (ad_weights ad))
             AdapterError)"

definition slot_row :: "nat \<Rightarrow> 'w lora_layer \<Rightarrow> lora_error + nat" where
  "slot_row slot ly = (if 1 \<le> slot \<and> slot \<le> ly_num_slots ly then Inr (slot - 1) else Inl SlotError)"

definition put_slot :: "nat \<Rightarrow> 'w option \<Rightarrow> 'w lora_layer \<Rightarrow> 'w lora_layer" where
  "put_slot slot d ly = ly\<lparr>ly_slots := (ly_slots ly)(slot := d)\<rparr>"

definition load_slot :: "nat \<Rightarrow> 'w lora_weight \<Rightarrow> 'w lora_layer \<Rightarrow> lora_error + 'w lora_layer" where
  "load_slot slot w ly =
     rbind (slot_row slot ly) (\<lambda>_.
     if lw_in w \<noteq> ly_in ly \<or> lw_out w \<noteq> ly_out ly then Inl SlotError
     else if ly_max_rank ly < lw_rank w then Inl SlotError
     else Inr (put_slot slot (Some (lw_data w)) ly))"

definition clear_slot :: "nat \<Rightarrow> 'w lora_layer \<Rightarrow> lora_error + 'w lora_layer" where
  "clear_slot slot ly =
     rbind (slot_row slot ly) (\<lambda>_. Inr (put_slot slot None ly))"

section \<open>The registry\<close>

record registry_stats =
  st_registrations :: nat
  st_activations :: nat
  st_hits :: nat
  st_misses :: nat
  st_loads :: nat
  st_evictions :: nat
  st_contexts :: nat
  st_tokens :: nat
  st_adapter_tokens :: nat

record 'w registry =
  lr_num_slots :: nat
  lr_max_rank :: nat
  lr_shapes :: "string \<rightharpoonup> nat \<times> nat"
  lr_adapters :: "nat \<rightharpoonup> 'w adapter"
  lr_ids_by_name :: "string \<rightharpoonup> nat"
  lr_next_id :: nat
  lr_slot_of :: "nat \<rightharpoonup> nat"
  lr_adapter_of :: "nat \<rightharpoonup> nat"
  lr_free_slots :: "nat list"
  lr_lru :: "nat list"
  lr_pinned :: "nat set"
  lr_layers :: "'w lora_layer list"
  lr_stats :: registry_stats

definition lr_init :: "int \<Rightarrow> int \<Rightarrow> py_error + 'w registry" where
  "lr_init max_gpu_adapters max_lora_rank =
     (if max_gpu_adapters < 1 then Inl ValueError else if max_lora_rank < 1 then Inl ValueError
      else Inr \<lparr>lr_num_slots = nat max_gpu_adapters, lr_max_rank = nat max_lora_rank, lr_shapes = Map.empty,
             lr_adapters = Map.empty, lr_ids_by_name = Map.empty, lr_next_id = 1,
             lr_slot_of = Map.empty, lr_adapter_of = Map.empty,
             lr_free_slots = [1..<nat max_gpu_adapters + 1], lr_lru = [], lr_pinned = {}, lr_layers = [],
             lr_stats = \<lparr>st_registrations = 0, st_activations = 0, st_hits = 0, st_misses = 0, st_loads = 0,
               st_evictions = 0, st_contexts = 0, st_tokens = 0, st_adapter_tokens = 0\<rparr>\<rparr>)"

text \<open>Binding a model: its projections' shapes, as \<open>linear_shapes\<close> reports them.\<close>

definition lr_bind :: "(string \<rightharpoonup> nat \<times> nat) \<Rightarrow> 'w registry \<Rightarrow> lora_error + 'w registry" where
  "lr_bind shapes r =
     (if \<exists>ad \<in> ran (lr_adapters r). validate_against shapes ad \<noteq> Inr () then Inl AdapterError
      else Inr (r\<lparr>lr_shapes := shapes\<rparr>))"

definition lr_attach :: "'w lora_layer \<Rightarrow> 'w registry \<Rightarrow> lora_error + 'w registry" where
  "lr_attach ly r =
     (if ly_num_slots ly \<noteq> lr_num_slots r \<or> ly_max_rank ly \<noteq> lr_max_rank r then Inl RegistryError
      else Inr (r\<lparr>lr_layers := (if ly_name ly \<in> set (map ly_name (lr_layers r))
                               then map (\<lambda>l. if ly_name l = ly_name ly then ly else l) (lr_layers r)
                               else lr_layers r @ [ly])\<rparr>))"

definition register_adapter :: "'w adapter \<Rightarrow> 'w registry \<Rightarrow> lora_error + (nat \<times> 'w registry)" where
  "register_adapter ad r =
     (if lr_ids_by_name r (ad_name ad) \<noteq> None then Inl RegistryError
      else if lr_max_rank r < ad_rank ad then Inl RegistryError
      else rbind (if lr_shapes r \<noteq> Map.empty then validate_against (lr_shapes r) ad else Inr ()) (\<lambda>_.
        if lr_layers r \<noteq> [] \<and> list_ex (\<lambda>(n, w). n \<notin> set (map ly_name (lr_layers r))) (ad_weights ad)
        then Inl RegistryError
        else let i = lr_next_id r in
          Inr (i, r\<lparr>lr_next_id := i + 1, lr_adapters := (lr_adapters r)(i \<mapsto> ad),
                   lr_ids_by_name := (lr_ids_by_name r)(ad_name ad \<mapsto> i),
                   lr_stats := (lr_stats r)\<lparr>st_registrations := st_registrations (lr_stats r) + 1\<rparr>\<rparr>)))"

definition id_for :: "string \<Rightarrow> 'w registry \<Rightarrow> lora_error + nat" where
  "id_for name r = (case lr_ids_by_name r name of None \<Rightarrow> Inl UnknownAdapter | Some i \<Rightarrow> Inr i)"

definition evict_slot :: "nat \<Rightarrow> 'w registry \<Rightarrow> 'w registry" where
  "evict_slot slot r =
     (case lr_adapter_of r slot of
        None \<Rightarrow> r
      | Some a \<Rightarrow> r\<lparr>lr_adapter_of := (lr_adapter_of r)(slot := None),
                    lr_slot_of := (lr_slot_of r)(a := None), lr_lru := remove1 a (lr_lru r),
                    lr_free_slots := lr_free_slots r @ [slot],
                    lr_stats := (lr_stats r)\<lparr>st_evictions := st_evictions (lr_stats r) + 1\<rparr>\<rparr>)"

definition pop_free :: "'w registry \<Rightarrow> nat \<times> 'w registry" where
  "pop_free r = (hd (lr_free_slots r), r\<lparr>lr_free_slots := tl (lr_free_slots r)\<rparr>)"

definition take_slot :: "nat set \<Rightarrow> 'w registry \<Rightarrow> lora_error + (nat \<times> 'w registry)" where
  "take_slot protected r =
     (if lr_free_slots r \<noteq> [] then Inr (pop_free r)
      else case List.find (\<lambda>a. \<not> (a \<in> protected \<or> a \<in> lr_pinned r)) (lr_lru r) of
        None \<Rightarrow> Inl LoRACapacity
      | Some a \<Rightarrow> Inr (pop_free (evict_slot (the (lr_slot_of r a)) r)))"

fun load_layers :: "'w adapter \<Rightarrow> nat \<Rightarrow> 'w lora_layer list \<Rightarrow> lora_error + 'w lora_layer list" where
  "load_layers ad slot [] = Inr []"
| "load_layers ad slot (ly # lys) =
     rbind (case map_of (ad_weights ad) (ly_name ly) of
              None \<Rightarrow> clear_slot slot ly
            | Some w \<Rightarrow> load_slot slot w ly) (\<lambda>ly'.
     rbind (load_layers ad slot lys) (\<lambda>lys'. Inr (ly' # lys')))"

definition load_adapter :: "nat \<Rightarrow> nat \<Rightarrow> 'w registry \<Rightarrow> lora_error + 'w registry" where
  "load_adapter a slot r =
     rbind (load_layers (the (lr_adapters r a)) slot (lr_layers r)) (\<lambda>lys.
     Inr (r\<lparr>lr_layers := lys, lr_slot_of := (lr_slot_of r)(a \<mapsto> slot),
            lr_adapter_of := (lr_adapter_of r)(slot \<mapsto> a), lr_lru := remove1 a (lr_lru r) @ [a],
            lr_stats := (lr_stats r)\<lparr>st_loads := st_loads (lr_stats r) + 1\<rparr>\<rparr>))"

text \<open>The first loop of \<open>activate\<close>: resident adapters are touched, the others collected.\<close>

fun touch_hits :: "nat list \<Rightarrow> 'w registry \<Rightarrow> (nat \<rightharpoonup> nat) \<times> nat list \<times> 'w registry" where
  "touch_hits [] r = (Map.empty, [], r)"
| "touch_hits (a # as) r =
     (case lr_slot_of r a of
        None \<Rightarrow> (case touch_hits as r of (mapping, misses, r') \<Rightarrow> (mapping, a # misses, r'))
      | Some slot \<Rightarrow>
          (case touch_hits as (r\<lparr>lr_lru := remove1 a (lr_lru r) @ [a],
                 lr_stats := (lr_stats r)\<lparr>st_hits := st_hits (lr_stats r) + 1\<rparr>\<rparr>) of
             (mapping, misses, r') \<Rightarrow> (mapping(a \<mapsto> slot), misses, r')))"

fun load_misses :: "nat set \<Rightarrow> nat list \<Rightarrow> (nat \<rightharpoonup> nat) \<times> 'w registry \<Rightarrow> lora_error + ((nat \<rightharpoonup> nat) \<times> 'w registry)" where
  "load_misses protected [] s = Inr s"
| "load_misses protected (a # as) (mapping, r) =
     rbind (take_slot protected (r\<lparr>lr_stats := (lr_stats r)\<lparr>st_misses := st_misses (lr_stats r) + 1\<rparr>\<rparr>)) (\<lambda>(slot, r1).
     rbind (load_adapter a slot r1) (\<lambda>r2.
     load_misses protected as (mapping(a \<mapsto> slot), r2)))"

definition activate :: "nat list \<Rightarrow> 'w registry \<Rightarrow> lora_error + ((nat \<rightharpoonup> nat) \<times> 'w registry)" where
  "activate ids r =
     (let wanted = sorted_list_of_set (set ids - {0}) in
      if wanted = [] then Inr (Map.empty, r)
      else if list_ex (\<lambda>i. lr_adapters r i = None) wanted then Inl UnknownAdapter
      else if lr_num_slots r < length wanted then Inl LoRACapacity
      else let r1 = r\<lparr>lr_stats := (lr_stats r)\<lparr>st_activations := st_activations (lr_stats r) + 1\<rparr>\<rparr> in
        case touch_hits wanted r1 of (mapping, misses, r2) \<Rightarrow> load_misses (set wanted) misses (mapping, r2))"

definition lr_pin :: "nat \<Rightarrow> 'w registry \<Rightarrow> lora_error + (nat \<times> 'w registry)" where
  "lr_pin a r =
     rbind (activate [a] r) (\<lambda>(mapping, r').
     case mapping a of None \<Rightarrow> Inl NoSuchKey
     | Some slot \<Rightarrow> Inr (slot, r'\<lparr>lr_pinned := insert a (lr_pinned r')\<rparr>))"

definition lr_unpin :: "nat \<Rightarrow> 'w registry \<Rightarrow> bool \<times> 'w registry" where
  "lr_unpin a r = (if a \<notin> lr_pinned r then (False, r) else (True, r\<lparr>lr_pinned := lr_pinned r - {a}\<rparr>))"

definition deactivate :: "nat \<Rightarrow> 'w registry \<Rightarrow> lora_error + (bool \<times> 'w registry)" where
  "deactivate a r =
     (if a \<in> lr_pinned r then Inl RegistryError
      else case lr_slot_of r a of
        None \<Rightarrow> Inr (False, r)
      | Some slot \<Rightarrow> Inr (True, evict_slot slot r))"

definition reset_slots :: "'w registry \<Rightarrow> 'w registry" where
  "reset_slots r = r\<lparr>lr_layers := map (\<lambda>ly. ly\<lparr>ly_slots := (ly_slots ly) |` (- {1..lr_num_slots r})\<rparr>) (lr_layers r),
     lr_slot_of := Map.empty, lr_adapter_of := Map.empty, lr_lru := [], lr_pinned := {},
     lr_free_slots := [1..<lr_num_slots r + 1]\<rparr>"

text \<open>\<open>None\<close> is "no adapter in this step"; otherwise the live slot of every token.\<close>

definition lr_build_context :: "nat list \<Rightarrow> 'w registry \<Rightarrow> lora_error + (nat list option \<times> 'w registry)" where
  "lr_build_context ids r =
     (let r1 = r\<lparr>lr_stats := (lr_stats r)\<lparr>st_contexts := st_contexts (lr_stats r) + 1,
                 st_tokens := st_tokens (lr_stats r) + length ids\<rparr>\<rparr> in
      if set ids - {0} = {} then Inr (None, r1)
      else rbind (activate ids r1) (\<lambda>(mapping, r2).
        let slots = map (\<lambda>i. if i \<noteq> 0 then the (mapping i) else 0) ids in
        Inr (Some slots, r2\<lparr>lr_stats := (lr_stats r2)\<lparr>st_adapter_tokens :=
               st_adapter_tokens (lr_stats r2) + length (filter (\<lambda>s. s \<noteq> 0) slots)\<rparr>\<rparr>)))"

definition lr_check :: "'w registry \<Rightarrow> lora_error + unit" where
  "lr_check r =
     rbind (rguard (card (dom (lr_slot_of r)) \<noteq> card (dom (lr_adapter_of r))) RegistryError) (\<lambda>_.
     rbind (rguard (\<exists>a \<in> dom (lr_slot_of r). lr_adapter_of r (the (lr_slot_of r a)) \<noteq> Some a) RegistryError) (\<lambda>_.
     rbind (rguard (dom (lr_adapter_of r) \<inter> set (lr_free_slots r) \<noteq> {}) RegistryError) (\<lambda>_.
     rbind (rguard (dom (lr_adapter_of r) \<union> set (lr_free_slots r) \<noteq> {1..lr_num_slots r}) RegistryError) (\<lambda>_.
     rbind (rguard (length (lr_free_slots r) \<noteq> card (set (lr_free_slots r))) RegistryError) (\<lambda>_.
     rbind (rguard (set (lr_lru r) \<noteq> dom (lr_slot_of r)) RegistryError) (\<lambda>_.
     rguard (\<not> lr_pinned r \<subseteq> dom (lr_slot_of r)) RegistryError))))))"

section \<open>The invariant\<close>

text \<open>The two slot maps are inverse to each other.\<close>

definition paired :: "(nat \<rightharpoonup> nat) \<Rightarrow> (nat \<rightharpoonup> nat) \<Rightarrow> bool" where
  "paired so ao \<longleftrightarrow> (\<forall>a s. so a = Some s \<longleftrightarrow> ao s = Some a)"

lemma paired_add: "paired so ao \<Longrightarrow> so a = None \<Longrightarrow> ao s = None \<Longrightarrow> paired (so(a \<mapsto> s)) (ao(s \<mapsto> a))"
  by (auto simp: paired_def split: if_splits) (metis option.distinct(1))+

lemma paired_del: "paired so ao \<Longrightarrow> so a = Some s \<Longrightarrow> paired (so(a := None)) (ao(s := None))"
  by (auto simp: paired_def split: if_splits) (metis option.inject)+

lemma paired_back: "paired so ao \<Longrightarrow> so a = Some s \<Longrightarrow> ao s = Some a"
  by (simp add: paired_def)

lemma paired_ran: "paired so ao \<Longrightarrow> ran so = dom ao"
  by (auto simp: paired_def ran_def dom_def)

lemma paired_card:
  assumes "paired so ao"
  shows "card (dom so) = card (dom ao)"
proof -
  have "bij_betw (\<lambda>a. the (so a)) (dom so) (dom ao)"
    unfolding bij_betw_def
  proof
    show "inj_on (\<lambda>a. the (so a)) (dom so)"
    proof (rule inj_onI)
      fix a b assume "a \<in> dom so" "b \<in> dom so" "the (so a) = the (so b)"
      then obtain s where "so a = Some s" "so b = Some s" by (metis domD option.sel)
      then have "ao s = Some a" "ao s = Some b" using assms by (simp_all add: paired_def)
      then show "a = b" by simp
    qed
    show "(\<lambda>a. the (so a)) ` dom so = dom ao"
      using paired_ran [OF assms] by (force simp: ran_def dom_def image_iff)
  qed
  then show ?thesis by (rule bij_betw_same_card)
qed

text \<open>\<open>T\<close> holds the slots that are in a caller's hands: neither free nor occupied.\<close>

definition slots_ok :: "nat set \<Rightarrow> 'w registry \<Rightarrow> bool" where
  "slots_ok T r \<longleftrightarrow> paired (lr_slot_of r) (lr_adapter_of r)
     \<and> distinct (lr_free_slots r) \<and> set (lr_free_slots r) \<inter> dom (lr_adapter_of r) = {}
     \<and> T \<inter> (set (lr_free_slots r) \<union> dom (lr_adapter_of r)) = {}
     \<and> T \<union> set (lr_free_slots r) \<union> dom (lr_adapter_of r) = {1..lr_num_slots r}
     \<and> distinct (lr_lru r) \<and> set (lr_lru r) = dom (lr_slot_of r)
     \<and> lr_pinned r \<subseteq> dom (lr_slot_of r)"

definition slot_data :: "'w adapter \<Rightarrow> 'w lora_layer \<Rightarrow> 'w option" where
  "slot_data ad ly = map_option lw_data (map_of (ad_weights ad) (ly_name ly))"

definition fits :: "'w adapter \<Rightarrow> 'w lora_layer \<Rightarrow> bool" where
  "fits ad ly \<longleftrightarrow> (\<forall>w. map_of (ad_weights ad) (ly_name ly) = Some w \<longrightarrow>
     lw_in w = ly_in ly \<and> lw_out w = ly_out ly \<and> lw_rank w \<le> ly_max_rank ly)"

definition holds :: "'w adapter \<Rightarrow> nat \<Rightarrow> 'w registry \<Rightarrow> bool" where
  "holds ad slot r \<longleftrightarrow> (\<forall>ly \<in> set (lr_layers r). ly_slots ly slot = slot_data ad ly)"

definition layers_ok :: "'w registry \<Rightarrow> bool" where
  "layers_ok r \<longleftrightarrow> dom (lr_slot_of r) \<subseteq> dom (lr_adapters r)
     \<and> (\<forall>ly \<in> set (lr_layers r). ly_num_slots ly = lr_num_slots r
          \<and> (\<forall>a ad. lr_adapters r a = Some ad \<longrightarrow> fits ad ly))
     \<and> (\<forall>a s. lr_slot_of r a = Some s \<longrightarrow> holds (the (lr_adapters r a)) s r)"

definition lr_inv :: "'w registry \<Rightarrow> bool" where
  "lr_inv r \<longleftrightarrow> slots_ok {} r \<and> layers_ok r"

text \<open>What no slot operation changes.\<close>

definition same_store :: "'w registry \<Rightarrow> 'w registry \<Rightarrow> bool" where
  "same_store r r' \<longleftrightarrow> lr_num_slots r' = lr_num_slots r \<and> lr_adapters r' = lr_adapters r
     \<and> lr_pinned r' = lr_pinned r \<and> lr_ids_by_name r' = lr_ids_by_name r \<and> lr_next_id r' = lr_next_id r
     \<and> lr_shapes r' = lr_shapes r \<and> lr_max_rank r' = lr_max_rank r"

lemma same_store_refl [simp]: "same_store r r"
  by (simp add: same_store_def)

lemma same_store_trans: "same_store r1 r2 \<Longrightarrow> same_store r2 r3 \<Longrightarrow> same_store r1 r3"
  by (simp add: same_store_def)

lemma put_slot_simps [simp]:
  "ly_slots (put_slot slot d ly) = (ly_slots ly)(slot := d)"
  "ly_num_slots (put_slot slot d ly) = ly_num_slots ly"
  "fits ad (put_slot slot d ly) = fits ad ly" "slot_data ad (put_slot slot d ly) = slot_data ad ly"
  by (simp_all add: put_slot_def fits_def slot_data_def)

lemma slots_okD:
  assumes "slots_ok T r"
  shows "paired (lr_slot_of r) (lr_adapter_of r)" "distinct (lr_free_slots r)"
    "set (lr_free_slots r) \<inter> dom (lr_adapter_of r) = {}"
    "T \<inter> (set (lr_free_slots r) \<union> dom (lr_adapter_of r)) = {}"
    "T \<union> set (lr_free_slots r) \<union> dom (lr_adapter_of r) = {1..lr_num_slots r}"
    "distinct (lr_lru r)" "set (lr_lru r) = dom (lr_slot_of r)" "lr_pinned r \<subseteq> dom (lr_slot_of r)"
  using assms by (simp_all only: slots_ok_def)

lemma evict_slot_ok:
  assumes s: "slots_ok {} r" and a: "lr_slot_of r a = Some slot" "a \<notin> lr_pinned r"
  shows "slots_ok {} (evict_slot slot r) \<and> same_store r (evict_slot slot r)
    \<and> lr_layers (evict_slot slot r) = lr_layers r
    \<and> lr_slot_of (evict_slot slot r) = (lr_slot_of r)(a := None)
    \<and> lr_free_slots (evict_slot slot r) = lr_free_slots r @ [slot]"
proof -
  note S = slots_okD [OF s]
  have ao: "lr_adapter_of r slot = Some a" using S(1) a(1) by (simp add: paired_def)
  then have e: "lr_adapter_of (evict_slot slot r) = (lr_adapter_of r)(slot := None)"
    "lr_slot_of (evict_slot slot r) = (lr_slot_of r)(a := None)"
    "lr_lru (evict_slot slot r) = remove1 a (lr_lru r)"
    "lr_free_slots (evict_slot slot r) = lr_free_slots r @ [slot]" "lr_layers (evict_slot slot r) = lr_layers r"
    "same_store r (evict_slot slot r)"
    by (simp_all add: evict_slot_def same_store_def)
  have d: "slot \<in> dom (lr_adapter_of r)" using ao by blast
  then have f: "slot \<notin> set (lr_free_slots r)" using S(3) by blast
  have n: "lr_num_slots (evict_slot slot r) = lr_num_slots r" "lr_pinned (evict_slot slot r) = lr_pinned r"
    using e(6) by (simp_all add: same_store_def)
  have "slots_ok {} (evict_slot slot r)"
    unfolding slots_ok_def e n
  proof (intro conjI)
    show "paired ((lr_slot_of r)(a := None)) ((lr_adapter_of r)(slot := None))" using S(1) a(1) by (rule paired_del)
    show "{} \<union> set (lr_free_slots r @ [slot]) \<union> dom ((lr_adapter_of r)(slot := None)) = {1..lr_num_slots r}"
      unfolding S(5) [symmetric] using d by auto
    show "lr_pinned r \<subseteq> dom ((lr_slot_of r)(a := None))" using S(8) a(2) by auto
  qed (use S f in auto)
  then show ?thesis using e by simp
qed

lemma layers_ok_frame:
  assumes "layers_ok r" "same_store r r'" "lr_layers r' = lr_layers r" "lr_slot_of r' \<subseteq>\<^sub>m lr_slot_of r"
  shows "layers_ok r'"
proof -
  have "lr_slot_of r' a = Some s \<Longrightarrow> lr_slot_of r a = Some s" for a s
    using assms(4) by (metis domI map_le_def)
  moreover have "dom (lr_slot_of r') \<subseteq> dom (lr_slot_of r)" using calculation by blast
  ultimately show ?thesis using assms(1-3) by (auto 0 3 simp: layers_ok_def same_store_def holds_def)
qed

lemma residents_finite:
  assumes "slots_ok T r"
  shows "finite (dom (lr_slot_of r))" "card (dom (lr_slot_of r)) = card (dom (lr_adapter_of r))"
  using slots_okD [OF assms] paired_card by (metis List.finite_set, blast)

lemma take_slot_ok:
  assumes s: "slots_ok {} r" and a: "a \<in> protected" "lr_slot_of r a = None"
    and cap: "card (protected \<union> lr_pinned r) \<le> lr_num_slots r" and fin: "finite protected"
  shows "\<exists>slot r'. take_slot protected r = Inr (slot, r') \<and> slots_ok {slot} r' \<and> same_store r r'
    \<and> lr_layers r' = lr_layers r \<and> lr_slot_of r' \<subseteq>\<^sub>m lr_slot_of r
    \<and> (\<forall>b \<in> protected \<union> lr_pinned r. lr_slot_of r' b = lr_slot_of r b)"
proof (cases "lr_free_slots r")
  case (Cons f fs)
  have "slots_ok {f} (r\<lparr>lr_free_slots := fs\<rparr>)"
    using slots_okD [OF s] Cons by (auto simp: slots_ok_def)
  then show ?thesis using Cons by (auto simp: take_slot_def pop_free_def same_store_def)
next
  case Nil
  let ?ok = "\<lambda>b. \<not> (b \<in> protected \<or> b \<in> lr_pinned r)"
  have "\<exists>b \<in> set (lr_lru r). ?ok b"
  proof (rule ccontr)
    assume "\<not> ?thesis"
    then have sub: "insert a (dom (lr_slot_of r)) \<subseteq> protected \<union> lr_pinned r"
      using slots_okD(7) [OF s] a by blast
    have "finite (protected \<union> lr_pinned r)"
      using fin residents_finite(1) [OF s] slots_okD(8) [OF s] by (meson finite_UnI finite_subset)
    then have "card (insert a (dom (lr_slot_of r))) \<le> lr_num_slots r"
      using card_mono [OF _ sub] cap by linarith
    moreover have "a \<notin> dom (lr_slot_of r)" using a(2) by blast
    then have "card (insert a (dom (lr_slot_of r))) = Suc (card (dom (lr_slot_of r)))"
      using residents_finite(1) [OF s] by (rule card_insert_disjoint [rotated])
    moreover have "dom (lr_adapter_of r) = {1..lr_num_slots r}" using slots_okD(5) [OF s] Nil by simp
    ultimately show False using residents_finite(2) [OF s] by simp
  qed
  then obtain b where b: "List.find ?ok (lr_lru r) = Some b"
    using find_None_iff [of ?ok "lr_lru r"] by fastforce
  then have bo: "b \<in> set (lr_lru r)" "?ok b" by (auto simp: find_Some_iff)
  then obtain slot where sl: "lr_slot_of r b = Some slot" using slots_okD(7) [OF s] by blast
  let ?e = "evict_slot slot r"
  have e: "slots_ok {} ?e" "same_store r ?e" "lr_layers ?e = lr_layers r"
    "lr_slot_of ?e = (lr_slot_of r)(b := None)" "lr_free_slots ?e = [slot]"
    using evict_slot_ok [OF s sl] bo(2) Nil by auto
  have t: "take_slot protected r = Inr (slot, ?e\<lparr>lr_free_slots := []\<rparr>)"
    using Nil b sl e(5) by (simp add: take_slot_def pop_free_def)
  moreover have "slots_ok {slot} (?e\<lparr>lr_free_slots := []\<rparr>)"
    using slots_okD [OF e(1)] e(5) by (simp add: slots_ok_def)
  moreover have "lr_slot_of ?e \<subseteq>\<^sub>m lr_slot_of r" using e(4) by (simp add: map_le_def)
  moreover have "\<forall>c \<in> protected \<union> lr_pinned r. lr_slot_of ?e c = lr_slot_of r c" using e(4) bo(2) by auto
  ultimately show ?thesis using e(2,3) by (auto simp: same_store_def)
qed

lemma load_layers_ok:
  assumes "\<forall>ly \<in> set lys. ly_num_slots ly = n \<and> fits ad ly" "1 \<le> slot" "slot \<le> n"
  shows "load_layers ad slot lys = Inr (map (\<lambda>ly. put_slot slot (slot_data ad ly) ly) lys)"
  using assms
proof (induction lys)
  case (Cons ly lys)
  have "(case map_of (ad_weights ad) (ly_name ly) of None \<Rightarrow> clear_slot slot ly | Some w \<Rightarrow> load_slot slot w ly)
      = Inr (put_slot slot (slot_data ad ly) ly)"
    using Cons.prems
    by (cases "map_of (ad_weights ad) (ly_name ly)")
      (simp_all add: clear_slot_def load_slot_def slot_row_def fits_def slot_data_def not_less)
  then show ?case using Cons by simp
qed simp

lemma load_adapter_ok:
  assumes s: "slots_ok {slot} r" and l: "layers_ok r" and a: "lr_adapters r a = Some ad" "lr_slot_of r a = None"
  shows "\<exists>r'. load_adapter a slot r = Inr r' \<and> lr_inv r' \<and> same_store r r'
    \<and> lr_slot_of r' = (lr_slot_of r)(a \<mapsto> slot)"
proof -
  have sl: "1 \<le> slot" "slot \<le> lr_num_slots r" "slot \<notin> dom (lr_adapter_of r)" "slot \<notin> set (lr_free_slots r)"
    using slots_okD(4,5) [OF s] by auto
  have "load_layers ad slot (lr_layers r)
      = Inr (map (\<lambda>ly. put_slot slot (slot_data ad ly) ly) (lr_layers r))"
    by (rule load_layers_ok [OF _ sl(1,2)]) (use l a in \<open>auto simp: layers_ok_def\<close>)
  then obtain r' where r': "load_adapter a slot r = Inr r'"
    "lr_layers r' = map (\<lambda>ly. put_slot slot (slot_data ad ly) ly) (lr_layers r)"
    "lr_slot_of r' = (lr_slot_of r)(a \<mapsto> slot)" "lr_adapter_of r' = (lr_adapter_of r)(slot \<mapsto> a)"
    "lr_lru r' = remove1 a (lr_lru r) @ [a]" "lr_free_slots r' = lr_free_slots r" "same_store r r'"
    using a(1) by (simp add: load_adapter_def same_store_def)
  note S = slots_okD [OF s]
  have other: "lr_slot_of r b = Some x \<Longrightarrow> x \<noteq> slot" for b x using S(1) sl(3) by (auto simp: paired_def)
  have n: "lr_num_slots r' = lr_num_slots r" "lr_pinned r' = lr_pinned r" using r'(7) by (simp_all add: same_store_def)
  have nl: "a \<notin> set (lr_lru r)" using S(7) a(2) by auto
  have "slots_ok {} r'"
    unfolding slots_ok_def r'(3-6) n
  proof (intro conjI)
    show "paired ((lr_slot_of r)(a \<mapsto> slot)) ((lr_adapter_of r)(slot \<mapsto> a))"
      using S(1) a(2) sl(3) by (intro paired_add) auto
    show "{} \<union> set (lr_free_slots r) \<union> dom ((lr_adapter_of r)(slot \<mapsto> a)) = {1..lr_num_slots r}"
      unfolding S(5) [symmetric] by auto
  qed (use S sl nl in \<open>auto simp: remove1_idem\<close>)
  moreover have "layers_ok r'"
    unfolding layers_ok_def
  proof (intro conjI allI impI)
    show "dom (lr_slot_of r') \<subseteq> dom (lr_adapters r')"
      using l a(1) r' by (auto simp: layers_ok_def same_store_def)
    show "\<forall>ly \<in> set (lr_layers r'). ly_num_slots ly = lr_num_slots r'
          \<and> (\<forall>a ad. lr_adapters r' a = Some ad \<longrightarrow> fits ad ly)"
      using l r' by (auto simp: layers_ok_def same_store_def)
    show "holds (the (lr_adapters r' b)) x r'" if "lr_slot_of r' b = Some x" for b x
    proof (cases "b = a")
      case True
      then show ?thesis using that r' a(1) by (auto simp: holds_def same_store_def)
    next
      case False
      then have "lr_slot_of r b = Some x" using that r'(3) by simp
      then show ?thesis using l other [of b x] r' by (auto simp: layers_ok_def holds_def same_store_def)
    qed
  qed
  ultimately show ?thesis using r' by (auto simp: lr_inv_def)
qed

lemma lr_inv_stats [simp]: "lr_inv (r\<lparr>lr_stats := x\<rparr>) = lr_inv r" "same_store r (r\<lparr>lr_stats := x\<rparr>)"
  by (simp_all add: lr_inv_def slots_ok_def layers_ok_def holds_def same_store_def)

lemma touch_inv:
  assumes "lr_inv r" "lr_slot_of r a = Some s"
  shows "lr_inv (r\<lparr>lr_lru := remove1 a (lr_lru r) @ [a], lr_stats := x\<rparr>)"
proof -
  have S: "slots_ok {} r" "layers_ok r" using assms(1) by (simp_all add: lr_inv_def)
  note D = slots_okD [OF S(1)]
  have "a \<in> set (lr_lru r)" using D(7) assms(2) by blast
  then have l: "set (remove1 a (lr_lru r) @ [a]) = dom (lr_slot_of r)" "distinct (remove1 a (lr_lru r) @ [a])"
    using D(6,7) by (auto simp: insert_absorb)
  have "slots_ok {} (r\<lparr>lr_lru := remove1 a (lr_lru r) @ [a], lr_stats := x\<rparr>)"
    using D l by (simp add: slots_ok_def)
  moreover have "layers_ok (r\<lparr>lr_lru := remove1 a (lr_lru r) @ [a], lr_stats := x\<rparr>)"
    using S(2) by (simp add: layers_ok_def holds_def)
  ultimately show ?thesis by (simp add: lr_inv_def)
qed

lemma touch_hits_ok:
  assumes "lr_inv r" "touch_hits as r = (m, misses, r')"
  shows "lr_inv r' \<and> same_store r r' \<and> lr_slot_of r' = lr_slot_of r
    \<and> m = lr_slot_of r |` set as \<and> misses = filter (\<lambda>a. lr_slot_of r a = None) as"
  using assms
proof (induction as arbitrary: r m misses)
  case Nil
  then show ?case by simp
next
  case (Cons a as)
  show ?case
  proof (cases "lr_slot_of r a")
    case None
    then obtain m1 mi1 where "touch_hits as r = (m1, mi1, r')" "m = m1" "misses = a # mi1"
      using Cons.prems(2) by (auto split: prod.splits)
    then show ?thesis using Cons.IH [of r] Cons.prems(1) None by (auto simp: restrict_map_def)
  next
    case (Some s)
    let ?r = "r\<lparr>lr_lru := remove1 a (lr_lru r) @ [a],
      lr_stats := (lr_stats r)\<lparr>st_hits := st_hits (lr_stats r) + 1\<rparr>\<rparr>"
    obtain m1 where m1: "touch_hits as ?r = (m1, misses, r')" "m = m1(a \<mapsto> s)"
      using Cons.prems(2) Some by (auto split: prod.splits)
    have "same_store r ?r" by (simp add: same_store_def)
    then show ?thesis
      using Cons.IH [OF touch_inv [OF Cons.prems(1) Some] m1(1)] m1(2) Some same_store_trans [of r ?r r']
      by (auto simp: restrict_map_def)
  qed
qed

lemma load_misses_ok:
  assumes "lr_inv r" "set as \<subseteq> P" "distinct as" "\<forall>a \<in> set as. lr_slot_of r a = None \<and> lr_adapters r a \<noteq> None"
    and "card (P \<union> lr_pinned r) \<le> lr_num_slots r" "finite P"
  shows "\<exists>m' r'. load_misses P as (m, r) = Inr (m', r') \<and> lr_inv r' \<and> same_store r r'
    \<and> (\<forall>b \<in> P \<union> lr_pinned r. b \<notin> set as \<longrightarrow> lr_slot_of r' b = lr_slot_of r b)
    \<and> (\<forall>a \<in> set as. lr_slot_of r' a \<noteq> None \<and> m' a = lr_slot_of r' a) \<and> (\<forall>b. b \<notin> set as \<longrightarrow> m' b = m b)"
  using assms
proof (induction as arbitrary: r m)
  case Nil
  then show ?case by simp
next
  case (Cons a as)
  let ?x = "(lr_stats r)\<lparr>st_misses := st_misses (lr_stats r) + 1\<rparr>"
  let ?r = "r\<lparr>lr_stats := ?x\<rparr>"
  have "lr_inv ?r" using Cons.prems(1) by simp
  then have i: "slots_ok {} ?r" "layers_ok ?r" unfolding lr_inv_def by blast+
  obtain slot r1 where t: "take_slot P ?r = Inr (slot, r1)" "slots_ok {slot} r1" "same_store ?r r1"
    "lr_layers r1 = lr_layers ?r" "lr_slot_of r1 \<subseteq>\<^sub>m lr_slot_of ?r"
    "\<forall>b \<in> P \<union> lr_pinned ?r. lr_slot_of r1 b = lr_slot_of ?r b"
    using take_slot_ok [OF i(1), of a P] Cons.prems by auto
  obtain ad where ad: "lr_adapters r1 a = Some ad" using Cons.prems(4) t(3) by (auto simp: same_store_def)
  have na: "lr_slot_of r1 a = None" using t(6) Cons.prems(2,4) by simp
  obtain r2 where l: "load_adapter a slot r1 = Inr r2" "lr_inv r2" "same_store r1 r2"
    "lr_slot_of r2 = (lr_slot_of r1)(a \<mapsto> slot)"
    using load_adapter_ok [OF t(2) layers_ok_frame [OF i(2) t(3-5)] ad na] by blast
  have ss: "same_store r r2" using t(3) l(3) by (auto simp: same_store_def)
  have keep: "lr_slot_of r2 b = lr_slot_of r b" if "b \<in> P \<union> lr_pinned r" "b \<noteq> a" for b
    using that t(6) l(4) by simp
  have "\<exists>m' r'. load_misses P as (m(a \<mapsto> slot), r2) = Inr (m', r') \<and> lr_inv r' \<and> same_store r2 r'
    \<and> (\<forall>b \<in> P \<union> lr_pinned r2. b \<notin> set as \<longrightarrow> lr_slot_of r' b = lr_slot_of r2 b)
    \<and> (\<forall>a \<in> set as. lr_slot_of r' a \<noteq> None \<and> m' a = lr_slot_of r' a)
    \<and> (\<forall>b. b \<notin> set as \<longrightarrow> m' b = (m(a \<mapsto> slot)) b)"
  proof (rule Cons.IH [OF l(2)])
    show "\<forall>a \<in> set as. lr_slot_of r2 a = None \<and> lr_adapters r2 a \<noteq> None"
    proof
      fix x assume x: "x \<in> set as"
      then have "lr_slot_of r2 x = lr_slot_of r x" using keep [of x] Cons.prems(2,3) by auto
      then show "lr_slot_of r2 x = None \<and> lr_adapters r2 x \<noteq> None"
        using Cons.prems(4) x ss by (simp add: same_store_def)
    qed
    show "card (P \<union> lr_pinned r2) \<le> lr_num_slots r2" using Cons.prems(5) ss by (simp add: same_store_def)
  qed (use Cons.prems in auto)
  then obtain m' r' where r': "load_misses P as (m(a \<mapsto> slot), r2) = Inr (m', r')" "lr_inv r'" "same_store r2 r'"
    "\<forall>b \<in> P \<union> lr_pinned r2. b \<notin> set as \<longrightarrow> lr_slot_of r' b = lr_slot_of r2 b"
    "\<forall>a \<in> set as. lr_slot_of r' a \<noteq> None \<and> m' a = lr_slot_of r' a"
    "\<forall>b. b \<notin> set as \<longrightarrow> m' b = (m(a \<mapsto> slot)) b" by blast
  have pin: "lr_pinned r2 = lr_pinned r" using ss by (simp add: same_store_def)
  have aP: "a \<in> P" "a \<notin> set as" using Cons.prems(2,3) by auto
  then have at: "lr_slot_of r' a = Some slot" "m' a = Some slot" using r'(4,6) l(4) by auto
  have "load_misses P (a # as) (m, r) = Inr (m', r')" using t(1) l(1) r'(1) by simp
  moreover have "\<forall>b \<in> P \<union> lr_pinned r. b \<notin> set (a # as) \<longrightarrow> lr_slot_of r' b = lr_slot_of r b"
    using r'(4) keep pin by auto
  moreover have "\<forall>b. b \<notin> set (a # as) \<longrightarrow> m' b = m b" using r'(6) by simp
  moreover have "\<forall>x \<in> set (a # as). lr_slot_of r' x \<noteq> None \<and> m' x = lr_slot_of r' x"
    using r'(5) at by simp
  ultimately show ?case using r'(2) same_store_trans [OF ss r'(3)] by blast
qed

lemma activate_ok:
  assumes inv: "lr_inv r" and W: "W = set ids - {0}" "W \<subseteq> dom (lr_adapters r)"
    and cap: "card (W \<union> lr_pinned r) \<le> lr_num_slots r"
  shows "\<exists>m r'. activate ids r = Inr (m, r') \<and> lr_inv r' \<and> same_store r r' \<and> m = lr_slot_of r' |` W
    \<and> W \<subseteq> dom (lr_slot_of r') \<and> (\<forall>b \<in> lr_pinned r. lr_slot_of r' b = lr_slot_of r b)"
proof (cases "W = {}")
  case True
  then have "activate ids r = Inr (Map.empty, r)" using W(1) by (simp add: activate_def Let_def)
  then show ?thesis using inv True by auto
next
  case False
  let ?w = "sorted_list_of_set W"
  let ?r = "r\<lparr>lr_stats := (lr_stats r)\<lparr>st_activations := st_activations (lr_stats r) + 1\<rparr>\<rparr>"
  have f: "finite W" using W(1) by simp
  have w: "set ?w = W" "distinct ?w" "length ?w = card W" "?w \<noteq> []" using f False by simp_all
  have pf: "finite (lr_pinned r)"
    using inv residents_finite(1) [of "{}" r] slots_okD(8) [of "{}" r] by (auto simp: lr_inv_def intro: finite_subset)
  have len: "length ?w \<le> lr_num_slots r" using cap w(3) card_mono [of "W \<union> lr_pinned r" W] f pf by auto
  obtain m mi r2 where t: "touch_hits ?w ?r = (m, mi, r2)" by (metis prod_cases3)
  have T: "lr_inv r2" "same_store ?r r2" "lr_slot_of r2 = lr_slot_of r" "m = lr_slot_of r |` W"
    "mi = filter (\<lambda>a. lr_slot_of r a = None) ?w"
    using touch_hits_ok [OF _ t] inv w(1) by simp_all
  have ss: "same_store r r2" using T(2) by (simp add: same_store_def)
  have known: "\<not> list_ex (\<lambda>i. lr_adapters r i = None) ?w" using W(2) w(1) by (auto simp: list_ex_iff)
  have act: "activate ids r = load_misses W mi (m, r2)"
    using t w known len by (simp add: activate_def W(1) [symmetric] Let_def)
  obtain m' r' where r': "load_misses W mi (m, r2) = Inr (m', r')" "lr_inv r'" "same_store r2 r'"
    "\<forall>b \<in> W \<union> lr_pinned r2. b \<notin> set mi \<longrightarrow> lr_slot_of r' b = lr_slot_of r2 b"
    "\<forall>a \<in> set mi. lr_slot_of r' a \<noteq> None \<and> m' a = lr_slot_of r' a" "\<forall>b. b \<notin> set mi \<longrightarrow> m' b = m b"
  proof -
    have "set mi \<subseteq> W" "distinct mi" "\<forall>a \<in> set mi. lr_slot_of r2 a = None \<and> lr_adapters r2 a \<noteq> None"
      "card (W \<union> lr_pinned r2) \<le> lr_num_slots r2"
      using T w W(2) ss cap by (auto simp: same_store_def)
    then show thesis using load_misses_ok [OF T(1) _ _ _ _ f, of mi m] that by blast
  qed
  have pin: "lr_pinned r2 = lr_pinned r" using ss by (simp add: same_store_def)
  have res: "b \<in> W \<Longrightarrow> lr_slot_of r' b \<noteq> None \<and> m' b = lr_slot_of r' b" for b
  proof (cases "b \<in> set mi")
    case True
    then show ?thesis using r'(5) by blast
  next
    case False
    assume "b \<in> W"
    then show ?thesis using False r'(4,6) T w(1) by (auto simp: restrict_map_def)
  qed
  have out: "b \<notin> W \<Longrightarrow> m' b = None" for b using r'(6) T(4,5) w(1) by auto
  have "m' = lr_slot_of r' |` W" using res out by (auto simp: fun_eq_iff restrict_map_def)
  moreover have "W \<subseteq> dom (lr_slot_of r')" using res by blast
  moreover have "lr_slot_of r' b = lr_slot_of r b" if "b \<in> lr_pinned r" for b
  proof -
    have "b \<in> dom (lr_slot_of r)" using that inv slots_okD(8) [of "{}" r] by (auto simp: lr_inv_def)
    then have "b \<notin> set mi" using T(5) by auto
    then show ?thesis using r'(4) that pin T(3) by auto
  qed
  ultimately show ?thesis using act r'(1,2) same_store_trans [OF ss r'(3)] by auto
qed

section \<open>The other operations\<close>

lemma lr_init_inv: "lr_init n k = Inr r \<Longrightarrow> lr_inv r"
  by (auto simp: lr_init_def lr_inv_def slots_ok_def layers_ok_def paired_def split: if_splits)

lemma pin_ok:
  assumes "lr_inv r" "lr_pin a r = Inr (s, r')"
  shows "\<exists>m r1. activate [a] r = Inr (m, r1) \<and> m a = Some s \<and> r' = r1\<lparr>lr_pinned := insert a (lr_pinned r1)\<rparr>"
  using assms by (auto simp: lr_pin_def split: option.splits)

lemma pinned_inv:
  assumes "lr_inv r" "P \<subseteq> dom (lr_slot_of r)"
  shows "lr_inv (r\<lparr>lr_pinned := P\<rparr>)"
proof -
  have "slots_ok {} r" "layers_ok r" using assms(1) by (simp_all add: lr_inv_def)
  moreover have "slots_ok {} (r\<lparr>lr_pinned := P\<rparr>)" using slots_okD [OF calculation(1)] assms(2) by (simp add: slots_ok_def)
  ultimately show ?thesis by (simp add: lr_inv_def layers_ok_def holds_def)
qed

lemma unpin_inv: "lr_inv r \<Longrightarrow> lr_unpin a r = (b, r') \<Longrightarrow> lr_inv r'"
  using pinned_inv [of r "lr_pinned r - {a}"] slots_okD(8) [of "{}" r]
  by (auto simp: lr_unpin_def lr_inv_def split: if_splits)

lemma deactivate_inv:
  assumes "lr_inv r" "deactivate a r = Inr (b, r')"
  shows "lr_inv r' \<and> lr_slot_of r' a = None"
proof (cases "lr_slot_of r a")
  case None
  then show ?thesis using assms by (auto simp: deactivate_def split: if_splits)
next
  case (Some s)
  have np: "a \<notin> lr_pinned r" and r': "r' = evict_slot s r" using assms(2) Some by (auto simp: deactivate_def split: if_splits)
  have S: "slots_ok {} r" "layers_ok r" using assms(1) by (simp_all add: lr_inv_def)
  note e = evict_slot_ok [OF S(1) Some np]
  have "lr_slot_of r' \<subseteq>\<^sub>m lr_slot_of r" using e r' by (simp add: map_le_def)
  then show ?thesis using e r' layers_ok_frame [OF S(2), of r'] by (simp add: lr_inv_def)
qed

lemma reset_slots_inv: "lr_inv r \<Longrightarrow> lr_inv (reset_slots r)"
  by (auto simp: lr_inv_def reset_slots_def slots_ok_def layers_ok_def paired_def fits_def)

lemma bind_inv:
  assumes "lr_inv r" "lr_bind sh r = Inr r'"
  shows "lr_inv r'"
proof -
  have S: "slots_ok {} r" "layers_ok r" using assms(1) by (simp_all add: lr_inv_def)
  have r': "r' = r\<lparr>lr_shapes := sh\<rparr>" using assms(2) by (simp add: lr_bind_def split: if_split_asm)
  have "slots_ok {} r'" using slots_okD [OF S(1)] unfolding slots_ok_def r' by simp
  moreover have "layers_ok r'" using S(2) unfolding r' layers_ok_def holds_def by simp
  ultimately show ?thesis by (simp add: lr_inv_def)
qed

lemma attach_inv:
  assumes "lr_inv r" "lr_attach ly r = Inr r'" "lr_slot_of r = Map.empty" "lr_adapters r = Map.empty"
  shows "lr_inv r'"
proof -
  have S: "slots_ok {} r" "layers_ok r" using assms(1) by (simp_all add: lr_inv_def)
  let ?lys = "if ly_name ly \<in> set (map ly_name (lr_layers r))
    then map (\<lambda>l. if ly_name l = ly_name ly then ly else l) (lr_layers r) else lr_layers r @ [ly]"
  have r': "r' = r\<lparr>lr_layers := ?lys\<rparr>" "ly_num_slots ly = lr_num_slots r"
    using assms(2) unfolding lr_attach_def by (simp_all split: if_split_asm)
  have l: "set ?lys \<subseteq> insert ly (set (lr_layers r))" by auto
  have "slots_ok {} r'" using slots_okD [OF S(1)] r'(1) by (simp add: slots_ok_def)
  moreover have "\<forall>l \<in> set ?lys. ly_num_slots l = lr_num_slots r" using S(2) l r'(2) unfolding layers_ok_def by blast
  then have "layers_ok r'" unfolding layers_ok_def r'(1) using assms(3,4) by simp
  ultimately show ?thesis by (simp add: lr_inv_def)
qed

text \<open>
  A model is bound before its projections are wrapped: the recorded shapes are those of the
  layers. An adapter's rank is the largest of its factors'.
\<close>

definition shapes_cover :: "'w registry \<Rightarrow> bool" where
  "shapes_cover r \<longleftrightarrow> (\<forall>ly \<in> set (lr_layers r). lr_shapes r (ly_name ly) = Some (ly_in ly, ly_out ly)
     \<and> ly_max_rank ly = lr_max_rank r)"

definition rank_ok :: "'w adapter \<Rightarrow> bool" where
  "rank_ok ad \<longleftrightarrow> (\<forall>(n, w) \<in> set (ad_weights ad). lw_rank w \<le> ad_rank ad)"

lemma register_inv:
  assumes inv: "lr_inv r" and sc: "shapes_cover r" and rk: "rank_ok ad" and reg: "register_adapter ad r = Inr (i, r')"
    and fresh: "lr_adapters r (lr_next_id r) = None"
  shows "lr_inv r' \<and> shapes_cover r' \<and> lr_adapters r' i = Some ad \<and> lr_slot_of r' = lr_slot_of r"
proof -
  have S: "slots_ok {} r" "layers_ok r" using inv by (simp_all add: lr_inv_def)
  have r': "i = lr_next_id r" "lr_adapters r' = (lr_adapters r)(i \<mapsto> ad)" "lr_layers r' = lr_layers r"
    "lr_slot_of r' = lr_slot_of r" "lr_adapter_of r' = lr_adapter_of r" "lr_free_slots r' = lr_free_slots r"
    "lr_lru r' = lr_lru r" "lr_pinned r' = lr_pinned r" "lr_num_slots r' = lr_num_slots r"
    "lr_shapes r' = lr_shapes r" "lr_max_rank r' = lr_max_rank r" "ad_rank ad \<le> lr_max_rank r"
    and v: "lr_shapes r \<noteq> Map.empty \<Longrightarrow> validate_against (lr_shapes r) ad = Inr ()"
    using reg by (auto simp: register_adapter_def Let_def split: if_splits)
  have fit: "fits ad ly" if "ly \<in> set (lr_layers r)" for ly
    unfolding fits_def
  proof (intro allI impI)
    fix w assume w: "map_of (ad_weights ad) (ly_name ly) = Some w"
    then have m: "(ly_name ly, w) \<in> set (ad_weights ad)" by (rule map_of_SomeD)
    have sh: "lr_shapes r (ly_name ly) = Some (ly_in ly, ly_out ly)" "ly_max_rank ly = lr_max_rank r"
      using sc that by (auto simp: shapes_cover_def)
    then have "validate_against (lr_shapes r) ad = Inr ()" using v by fastforce
    then have "lw_in w = ly_in ly" "lw_out w = ly_out ly"
      using m sh by (auto simp: validate_against_def list_ex_iff split: if_splits)
    moreover have "lw_rank w \<le> ly_max_rank ly" using rk m r'(12) sh by (force simp: rank_ok_def)
    ultimately show "lw_in w = ly_in ly \<and> lw_out w = ly_out ly \<and> lw_rank w \<le> ly_max_rank ly" by simp
  qed
  have no: "lr_slot_of r i = None" using S(2) fresh r'(1) by (auto simp: layers_ok_def)
  have "slots_ok {} r'" using slots_okD [OF S(1)] r' by (simp add: slots_ok_def)
  moreover have "layers_ok r'"
    using S(2) fit no r' by (auto simp: layers_ok_def holds_def split: if_splits)
  ultimately show ?thesis using r' sc by (simp add: lr_inv_def shapes_cover_def)
qed

lemma lr_check_ok: "lr_inv r \<Longrightarrow> lr_check r = Inr ()"
proof -
  assume "lr_inv r"
  then have s: "slots_ok {} r" by (simp add: lr_inv_def)
  note S = slots_okD [OF s]
  have b: "\<not> (\<exists>a \<in> dom (lr_slot_of r). lr_adapter_of r (the (lr_slot_of r a)) \<noteq> Some a)"
    using paired_back [OF S(1)] by fastforce
  have c: "dom (lr_adapter_of r) \<inter> set (lr_free_slots r) = {}" using S(3) by blast
  have d: "dom (lr_adapter_of r) \<union> set (lr_free_slots r) = {1..lr_num_slots r}" using S(5) by blast
  have e: "length (lr_free_slots r) = card (set (lr_free_slots r))" using S(2) by (simp add: distinct_card)
  show ?thesis
    unfolding lr_check_def using b S(8)
    by (simp only: paired_card [OF S(1)] c d e [symmetric] S(7) rguard_simps rbind.simps simp_thms)
qed

section \<open>Properties\<close>

text \<open>C28: Activation is sound. Whenever the adapters of a step and the pinned ones fit the pool
  together, \<open>activate\<close> succeeds, in whatever order and with whatever is resident: the registry
  stays consistent (\<open>check_invariants\<close> passes), each requested adapter has a slot of its own in
  the pool, every layer holds that adapter's numbers in it (zeroes where the adapter does not
  target the layer), and pinned adapters stay where they are.\<close>

theorem activation_is_sound:
  assumes "lr_inv r" "set ids - {0} \<subseteq> dom (lr_adapters r)"
    and "card ((set ids - {0}) \<union> lr_pinned r) \<le> lr_num_slots r"
  shows "\<exists>m r'. activate ids r = Inr (m, r') \<and> lr_inv r' \<and> lr_check r' = Inr ()
    \<and> dom m = set ids - {0} \<and> inj_on m (dom m)
    \<and> (\<forall>a s. m a = Some s \<longrightarrow> 1 \<le> s \<and> s \<le> lr_num_slots r \<and> holds (the (lr_adapters r a)) s r')
    \<and> (\<forall>b \<in> lr_pinned r. lr_slot_of r' b = lr_slot_of r b)"
proof -
  obtain m r' where a: "activate ids r = Inr (m, r')" "lr_inv r'" "same_store r r'"
    "m = lr_slot_of r' |` (set ids - {0})" "set ids - {0} \<subseteq> dom (lr_slot_of r')"
    "\<forall>b \<in> lr_pinned r. lr_slot_of r' b = lr_slot_of r b"
    using activate_ok [OF assms(1) refl assms(2,3)] by blast
  have s: "slots_ok {} r'" "layers_ok r'" using a(2) by (simp_all add: lr_inv_def)
  note S = slots_okD [OF s(1)]
  have m: "lr_slot_of r' x = Some sl" if "m x = Some sl" for x sl
    using that a(4) by (auto simp: restrict_map_def split: if_splits)
  have "1 \<le> sl \<and> sl \<le> lr_num_slots r \<and> holds (the (lr_adapters r x)) sl r'" if "m x = Some sl" for x sl
  proof -
    have "sl \<in> dom (lr_adapter_of r')" using paired_back [OF S(1) m [OF that]] by blast
    then have "sl \<in> {1..lr_num_slots r'}" using S(5) by blast
    then show ?thesis using m [OF that] s(2) a(3) by (auto simp: layers_ok_def same_store_def)
  qed
  moreover have "inj_on m (dom m)"
  proof (rule inj_onI)
    fix x y assume "x \<in> dom m" "y \<in> dom m" "m x = m y"
    then obtain sl where "m x = Some sl" "m y = Some sl" by auto
    then have "lr_slot_of r' x = Some sl" "lr_slot_of r' y = Some sl" by (simp_all add: m)
    then have "Some x = Some y" using paired_back [OF S(1)] by metis
    then show "x = y" by simp
  qed
  moreover have "dom m = set ids - {0}" using a(4,5) by auto
  ultimately show ?thesis using a(1,2,6) lr_check_ok [OF a(2)] by blast
qed

definition demo_weight :: "nat \<Rightarrow> nat lora_weight" where
  "demo_weight d = \<lparr>lw_in = 4, lw_out = 4, lw_rank = 2, lw_data = d\<rparr>"

definition demo_layer :: "nat lora_layer" where
  "demo_layer = \<lparr>ly_name = ''q'', ly_in = 4, ly_out = 4, ly_num_slots = 2, ly_max_rank = 8, ly_slots = Map.empty\<rparr>"

definition demo_adapter :: "string \<Rightarrow> nat \<Rightarrow> nat adapter" where
  "demo_adapter n d = \<lparr>ad_name = n, ad_weights = [(''q'', demo_weight d)], ad_rank = 2\<rparr>"

definition demo_registry :: "nat registry" where
  "demo_registry = (case lr_init 2 8 of Inr r0 \<Rightarrow>
     case lr_bind [''q'' \<mapsto> (4, 4)] r0 of Inr rb \<Rightarrow>
     case lr_attach demo_layer rb of Inr r1 \<Rightarrow>
     case register_adapter (demo_adapter ''a'' 10) r1 of Inr (_, r2) \<Rightarrow>
     case register_adapter (demo_adapter ''b'' 20) r2 of Inr (_, r3) \<Rightarrow>
     case register_adapter (demo_adapter ''c'' 30) r3 of Inr (_, r4) \<Rightarrow> r4)"

lemma demo_registry_facts:
  "lr_adapters demo_registry = [1 \<mapsto> demo_adapter ''a'' 10, 2 \<mapsto> demo_adapter ''b'' 20, 3 \<mapsto> demo_adapter ''c'' 30]"
  "lr_num_slots demo_registry = 2" "lr_pinned demo_registry = {}" "lr_layers demo_registry = [demo_layer]"
  "lr_slot_of demo_registry = Map.empty" "lr_adapter_of demo_registry = Map.empty"
  "lr_free_slots demo_registry = [1, 2]" "lr_lru demo_registry = []"
  by (simp_all add: demo_registry_def lr_init_def lr_bind_def lr_attach_def register_adapter_def demo_layer_def
      demo_adapter_def demo_weight_def validate_against_def Let_def numeral_2_eq_2 numeral_3_eq_3)

lemma demo_ids:
  "set [3, 0, 1, 3] - {0} = {1, 3 :: nat}" "set [2, 0, 1] - {0} = {1, 2 :: nat}"
  "{1, 3} \<subseteq> dom (lr_adapters demo_registry)" "{1, 2} \<subseteq> dom (lr_adapters demo_registry)"
  "card ({1, 3} \<union> lr_pinned demo_registry) \<le> lr_num_slots demo_registry"
  "card ({1, 2} \<union> lr_pinned demo_registry) \<le> lr_num_slots demo_registry"
  by (auto simp: demo_registry_facts)

lemma demo_registry_inv: "lr_inv demo_registry"
  by (auto simp: lr_inv_def slots_ok_def layers_ok_def paired_def demo_registry_facts demo_layer_def
      demo_adapter_def demo_weight_def fits_def split: if_splits)

theorem activation_is_sound_witness:
  "\<exists>m r'. activate [3, 0, 1, 3] demo_registry = Inr (m, r') \<and> lr_check r' = Inr () \<and> dom m = {1, 3}"
  using activation_is_sound [OF demo_registry_inv, of "[3, 0, 1, 3]", unfolded demo_ids(1), OF demo_ids(3,5)] by blast

text \<open>C29: No tenant is served another tenant's adapter. The context built for a step gives every
  token a slot in which every layer holds exactly the numbers of the adapter the token's request
  named, slot 0 for a token without an adapter, and no context at all when no token has one.\<close>

theorem context_serves_own_adapter:
  assumes "lr_inv r" "set ids - {0} \<subseteq> dom (lr_adapters r)"
    and "card ((set ids - {0}) \<union> lr_pinned r) \<le> lr_num_slots r"
  shows "\<exists>ctx r'. lr_build_context ids r = Inr (ctx, r') \<and> lr_inv r' \<and> (ctx = None \<longleftrightarrow> set ids \<subseteq> {0})
    \<and> (\<forall>slots i. ctx = Some slots \<longrightarrow> i < length ids \<longrightarrow> length slots = length ids
         \<and> (ids ! i = 0 \<longleftrightarrow> slots ! i = 0)
         \<and> (ids ! i \<noteq> 0 \<longrightarrow> holds (the (lr_adapters r (ids ! i))) (slots ! i) r'))"
proof (cases "set ids - {0} = {}")
  case True
  let ?r = "r\<lparr>lr_stats := (lr_stats r)\<lparr>st_contexts := st_contexts (lr_stats r) + 1,
                 st_tokens := st_tokens (lr_stats r) + length ids\<rparr>\<rparr>"
  have "lr_build_context ids r = Inr (None, ?r)" using True by (simp add: lr_build_context_def Let_def)
  moreover have "lr_inv ?r" using assms(1) by simp
  moreover have "set ids \<subseteq> {0}" using True by blast
  ultimately show ?thesis by blast
next
  case False
  let ?r = "r\<lparr>lr_stats := (lr_stats r)\<lparr>st_contexts := st_contexts (lr_stats r) + 1,
                 st_tokens := st_tokens (lr_stats r) + length ids\<rparr>\<rparr>"
  obtain m r' where a: "activate ids ?r = Inr (m, r')" "lr_inv r'" "same_store ?r r'"
    "m = lr_slot_of r' |` (set ids - {0})" "set ids - {0} \<subseteq> dom (lr_slot_of r')"
    using activate_ok [of ?r "set ids - {0}" ids] assms by auto
  let ?slots = "map (\<lambda>i. if i \<noteq> 0 then the (m i) else 0) ids"
  let ?r' = "r'\<lparr>lr_stats := (lr_stats r')\<lparr>st_adapter_tokens :=
               st_adapter_tokens (lr_stats r') + length (filter (\<lambda>s. s \<noteq> 0) ?slots)\<rparr>\<rparr>"
  have b: "lr_build_context ids r = Inr (Some ?slots, ?r')"
    using False a(1) by (simp add: lr_build_context_def Let_def)
  have s: "slots_ok {} r'" "layers_ok r'" using a(2) by (simp_all add: lr_inv_def)
  have slot: "?slots ! i \<noteq> 0 \<and> holds (the (lr_adapters r (ids ! i))) (?slots ! i) r'"
    if i: "i < length ids" "ids ! i \<noteq> 0" for i
  proof -
    have "ids ! i \<in> set ids - {0}" using i by simp
    then obtain sl where sl: "lr_slot_of r' (ids ! i) = Some sl" "m (ids ! i) = Some sl"
      using a(4,5) by (auto simp: restrict_map_def)
    have "sl \<in> dom (lr_adapter_of r')" using paired_back [OF slots_okD(1) [OF s(1)] sl(1)] by blast
    then have "sl \<in> {1..lr_num_slots r'}" using slots_okD(5) [OF s(1)] by blast
    then show ?thesis using sl i s(2) a(3) by (auto simp: layers_ok_def same_store_def)
  qed
  have "\<not> set ids \<subseteq> {0}" using False by auto
  then show ?thesis using b slot a(2) by (auto simp: holds_def)
qed

theorem context_serves_own_adapter_witness:
  "\<exists>ctx r'. lr_build_context [2, 0, 1] demo_registry = Inr (ctx, r') \<and> lr_inv r'
    \<and> (ctx = None \<longleftrightarrow> set [2, 0, 1 :: nat] \<subseteq> {0})"
  using context_serves_own_adapter [OF demo_registry_inv, of "[2, 0, 1]", unfolded demo_ids(2), OF demo_ids(4,6)] by blast

end
