(* ===== verification/Tenants.thy ===== *)
theory Tenants
  imports Prelude Complex_Main "HOL-Library.Char_ord" "HOL-Library.List_Lexorder"
begin

text \<open>
  Tenants and authentication: \<open>src/turboserve/gateway/tenants.py\<close> (the tenant record, the
  directory and its key index) and \<open>src/turboserve/gateway/auth.py\<close> (the authenticator and
  its authorisation checks).

  Strings are character lists (one byte per character, read as Latin-1). The SHA-256 digest of
  a key is a parameter. \<open>fnmatch.fnmatchcase\<close>, \<open>str.strip\<close>, \<open>str.lower\<close> and
  \<open>str.partition\<close> are written out.
\<close>

section \<open>Strings\<close>

definition is_space :: "char \<Rightarrow> bool" where
  "is_space c \<longleftrightarrow> (let n = (of_char c :: nat) in
     (9 \<le> n \<and> n \<le> 13) \<or> (28 \<le> n \<and> n \<le> 32) \<or> n = 133 \<or> n = 160)"

definition py_strip :: "string \<Rightarrow> string" where
  "py_strip s = rev (dropWhile is_space (rev (dropWhile is_space s)))"

definition lower_char :: "char \<Rightarrow> char" where
  "lower_char c = (let n = (of_char c :: nat) in
     if (65 \<le> n \<and> n \<le> 90) \<or> (192 \<le> n \<and> n \<le> 222 \<and> n \<noteq> 215) then char_of (n + 32) else c)"

definition py_lower :: "string \<Rightarrow> string" where
  "py_lower = map lower_char"

definition partition_at :: "char \<Rightarrow> string \<Rightarrow> string \<times> bool \<times> string" where
  "partition_at c s = (takeWhile (\<lambda>x. x \<noteq> c) s, c \<in> set s, tl (dropWhile (\<lambda>x. x \<noteq> c) s))"

text \<open>The body of a character class, up to its closing bracket.\<close>

fun class_body :: "bool \<Rightarrow> string \<Rightarrow> (string \<times> string) option" where
  "class_body first [] = None"
| "class_body first (c # cs) =
     (if c = CHR '']'' \<and> \<not> first then Some ([], cs)
      else map_option (\<lambda>(body, rest). (c # body, rest)) (class_body False cs))"

definition parse_class :: "string \<Rightarrow> (bool \<times> string \<times> string) option" where
  "parse_class s =
     (case s of
        [] \<Rightarrow> None
      | c # cs \<Rightarrow> if c = CHR ''!'' then map_option (Pair True) (class_body True cs)
                 else map_option (Pair False) (class_body True s))"

fun in_class :: "string \<Rightarrow> char \<Rightarrow> bool" where
  "in_class (a # d # b # rest) c =
     (if d = CHR ''-'' then (a \<le> c \<and> c \<le> b) \<or> in_class rest c else a = c \<or> in_class (d # b # rest) c)"
| "in_class cs c = (c \<in> set cs)"

lemma class_body_shorter: "class_body f s = Some (body, rest) \<Longrightarrow> length rest < length s"
  by (induction f s arbitrary: body rest rule: class_body.induct) (auto split: if_splits intro: less_SucI)

lemma parse_class_shorter: "parse_class s = Some (neg, body, rest) \<Longrightarrow> length rest < length s"
  by (auto simp: parse_class_def split: list.splits if_splits dest: class_body_shorter)

function fnmatch :: "string \<Rightarrow> string \<Rightarrow> bool" where
  "fnmatch [] s = (s = [])"
| "fnmatch (p # ps) [] = (p = CHR ''*'' \<and> fnmatch ps [])"
| "fnmatch (p # ps) (c # cs) =
     (if p = CHR ''*'' then fnmatch ps (c # cs) \<or> fnmatch (p # ps) cs
      else if p = CHR ''?'' then fnmatch ps cs
      else if p = CHR ''['' then
        (case parse_class ps of
           None \<Rightarrow> c = p \<and> fnmatch ps cs
         | Some (neg, body, rest) \<Rightarrow> (in_class body c \<noteq> neg) \<and> fnmatch rest cs)
      else c = p \<and> fnmatch ps cs)"
  by pat_completeness auto
termination
  by (relation "measure (\<lambda>(p, s). length p + length s)") (auto dest: parse_class_shorter)

section \<open>Tenants\<close>

datatype auth_error =
    TenantConfigError
  | NoAnonymousTenant
  | UnknownTenant
  | Unauthenticated string
  | Forbidden string

record tenant =
  tn_id :: string
  tn_keys :: "string list"
  tn_enabled :: bool
  tn_rpm :: "nat option"
  tn_tpm :: "nat option"
  tn_max_concurrency :: "nat option"
  tn_allowed_models :: "string list"
  tn_adapters :: "string \<rightharpoonup> string"
  tn_priority :: int
  tn_weight :: rat

definition is_hex_digest :: "string \<Rightarrow> bool" where
  "is_hex_digest s \<longleftrightarrow> length s = 64 \<and> list_all (\<lambda>c. c \<in> set ''0123456789abcdef'') s"

definition clean_keys :: "string list \<Rightarrow> auth_error + string list" where
  "clean_keys ks = (let cleaned = map (\<lambda>k. py_lower (py_strip k)) ks in
     if list_all is_hex_digest cleaned then Inr cleaned else Inl TenantConfigError)"

definition positive_limit :: "nat option \<Rightarrow> bool" where
  "positive_limit l = (case l of None \<Rightarrow> True | Some n \<Rightarrow> 1 \<le> n)"

text \<open>The pydantic validation of one tenant entry.\<close>

definition tenant_validate :: "tenant \<Rightarrow> auth_error + tenant" where
  "tenant_validate t =
     (if tn_id t = [] \<or> \<not> positive_limit (tn_rpm t) \<or> \<not> positive_limit (tn_tpm t)
         \<or> \<not> positive_limit (tn_max_concurrency t) \<or> tn_weight t \<le> 0 then Inl TenantConfigError
      else rbind (clean_keys (tn_keys t)) (\<lambda>ks. Inr (t\<lparr>tn_keys := ks\<rparr>)))"

definition allows_model :: "string \<Rightarrow> tenant \<Rightarrow> bool" where
  "allows_model model t \<longleftrightarrow> tn_allowed_models t = [] \<or> list_ex (\<lambda>p. fnmatch p model) (tn_allowed_models t)"

definition adapter_target :: "string \<Rightarrow> tenant \<Rightarrow> string option" where
  "adapter_target adapter t = tn_adapters t adapter"

definition model_patterns :: "tenant \<Rightarrow> string list" where
  "model_patterns t = (if tn_allowed_models t \<noteq> [] then tn_allowed_models t else [''*''])"

section \<open>The directory\<close>

text \<open>A dict from id to tenant in insertion order: the list of its values.\<close>

fun registry_loop :: "tenant list \<Rightarrow> tenant list \<Rightarrow> auth_error + tenant list" where
  "registry_loop [] acc = Inr acc"
| "registry_loop (t # ts) acc =
     (if tn_id t \<in> set (map tn_id acc) then Inl TenantConfigError else registry_loop ts (acc @ [t]))"

definition tenant_registry :: "tenant list \<Rightarrow> auth_error + tenant list" where
  "tenant_registry ts = registry_loop ts []"

definition tr_get :: "string \<Rightarrow> tenant list \<Rightarrow> tenant option" where
  "tr_get i reg = List.find (\<lambda>t. tn_id t = i) reg"

definition tr_getitem :: "string \<Rightarrow> tenant list \<Rightarrow> auth_error + tenant" where
  "tr_getitem i reg = (case tr_get i reg of None \<Rightarrow> Inl UnknownTenant | Some t \<Rightarrow> Inr t)"

fun index_keys :: "tenant \<Rightarrow> string list \<Rightarrow> (string \<rightharpoonup> tenant) \<Rightarrow> auth_error + (string \<rightharpoonup> tenant)" where
  "index_keys t [] idx = Inr idx"
| "index_keys t (d # ds) idx =
     (case idx d of
        Some owner \<Rightarrow> if tn_id owner \<noteq> tn_id t then Inl TenantConfigError else index_keys t ds (idx(d \<mapsto> t))
      | None \<Rightarrow> index_keys t ds (idx(d \<mapsto> t)))"

definition key_index :: "tenant list \<Rightarrow> auth_error + (string \<rightharpoonup> tenant)" where
  "key_index reg = rfold (\<lambda>t. index_keys t (tn_keys t)) reg Map.empty"

definition with_example_keys :: "string set \<Rightarrow> tenant list \<Rightarrow> string list" where
  "with_example_keys examples reg =
     sort (map tn_id (filter (\<lambda>t. list_ex (\<lambda>k. k \<in> examples) (tn_keys t)) reg))"

definition tr_ids :: "tenant list \<Rightarrow> string list" where
  "tr_ids reg = sort (map tn_id reg)"

section \<open>Authentication\<close>

record authenticator =
  au_registry :: "tenant list"
  au_index :: "string \<rightharpoonup> tenant"
  au_require_auth :: bool
  au_anonymous :: string

record principal =
  pr_tenant :: tenant
  pr_key_id :: string
  pr_anonymous :: bool

definition authenticator_make :: "tenant list \<Rightarrow> bool \<Rightarrow> string \<Rightarrow> auth_error + authenticator" where
  "authenticator_make reg require anon =
     rbind (key_index reg) (\<lambda>idx.
     if \<not> require \<and> tr_get anon reg = None then Inl NoAnonymousTenant
     else Inr \<lparr>au_registry = reg, au_index = idx, au_require_auth = require, au_anonymous = anon\<rparr>)"

definition extract_bearer :: "string option \<Rightarrow> string option" where
  "extract_bearer hdr =
     (case hdr of
        None \<Rightarrow> None
      | Some h \<Rightarrow> let v = py_strip h in
          if v = [] then None
          else case partition_at (CHR '' '') v of (scheme, _, rest) \<Rightarrow>
            if py_lower scheme = ''bearer'' then
              (let token = py_strip rest in if token = [] then None else Some token)
            else if CHR '' '' \<in> set v then None
            else Some v)"

definition authenticate :: "(string \<Rightarrow> string) \<Rightarrow> string option \<Rightarrow> authenticator \<Rightarrow> auth_error + principal" where
  "authenticate hash hdr a =
     (if \<not> au_require_auth a then
        rbind (tr_getitem (au_anonymous a) (au_registry a)) (\<lambda>t.
        Inr \<lparr>pr_tenant = t, pr_key_id = [], pr_anonymous = True\<rparr>)
      else case extract_bearer hdr of
        None \<Rightarrow> Inl (Unauthenticated ''missing_api_key'')
      | Some key \<Rightarrow>
          (case au_index a (hash key) of
             None \<Rightarrow> Inl (Unauthenticated ''invalid_api_key'')
           | Some t \<Rightarrow> if \<not> tn_enabled t then Inl (Forbidden ''tenant_disabled'')
                      else Inr \<lparr>pr_tenant = t, pr_key_id = take 12 (hash key), pr_anonymous = False\<rparr>))"

definition authorize_model :: "principal \<Rightarrow> string \<Rightarrow> auth_error + unit" where
  "authorize_model p model = rguard (\<not> allows_model model (pr_tenant p)) (Forbidden ''model_not_allowed'')"

definition resolve_adapter :: "principal \<Rightarrow> string option \<Rightarrow> auth_error + string option" where
  "resolve_adapter p adapter =
     (case adapter of
        None \<Rightarrow> Inr None
      | Some n \<Rightarrow> (case adapter_target n (pr_tenant p) of
            None \<Rightarrow> Inl (Forbidden ''adapter_not_allowed'')
          | Some target \<Rightarrow> Inr (Some target)))"

definition visible_models :: "principal \<Rightarrow> string list \<Rightarrow> string list" where
  "visible_models p models = filter (\<lambda>m. allows_model m (pr_tenant p)) models"

section \<open>The key index\<close>

lemma registry_loop_ids:
  "registry_loop ts acc = Inr reg \<Longrightarrow> distinct (map tn_id acc) \<Longrightarrow> reg = acc @ ts \<and> distinct (map tn_id reg)"
proof (induction ts arbitrary: acc)
  case (Cons t ts)
  have n: "tn_id t \<notin> set (map tn_id acc)" "registry_loop ts (acc @ [t]) = Inr reg"
    using Cons.prems(1) by (simp_all split: if_split_asm)
  then have "distinct (map tn_id (acc @ [t]))" using Cons.prems(2) by simp
  with Cons.IH [OF n(2)] have ih: "reg = (acc @ [t]) @ ts" "distinct (map tn_id reg)" by blast+
  then show ?case by (metis append.assoc append_Cons append_Nil)
qed simp

lemma tenant_registry_ids: "tenant_registry ts = Inr reg \<Longrightarrow> reg = ts \<and> distinct (map tn_id reg)"
  using registry_loop_ids [of ts "[]" reg] by (auto simp: tenant_registry_def)

text \<open>An index over the tenants \<open>done\<close>: a digest leads to the one tenant that has it.\<close>

definition index_of :: "tenant list \<Rightarrow> (string \<rightharpoonup> tenant) \<Rightarrow> bool" where
  "index_of tns idx \<longleftrightarrow> (\<forall>d t. idx d = Some t \<longleftrightarrow> t \<in> set tns \<and> d \<in> set (tn_keys t))"

lemma index_keys_effect:
  "index_keys t ds idx = Inr idx' \<Longrightarrow>
     idx' d = (if d \<in> set ds then Some t else idx d)
     \<and> (d \<in> set ds \<longrightarrow> (\<forall>o'. idx d = Some o' \<longrightarrow> tn_id o' = tn_id t))"
proof (induction ds arbitrary: idx)
  case (Cons x xs)
  have k: "index_keys t xs (idx(x \<mapsto> t)) = Inr idx'" and o': "\<forall>u. idx x = Some u \<longrightarrow> tn_id u = tn_id t"
    using Cons.prems by (simp_all split: option.split_asm if_split_asm)
  have ih: "idx' d = (if d \<in> set xs then Some t else (idx(x \<mapsto> t)) d)"
    and c: "d \<in> set xs \<Longrightarrow> (idx(x \<mapsto> t)) d = Some u \<Longrightarrow> tn_id u = tn_id t" for u
    using Cons.IH [OF k] by (simp, blast)
  have "idx' d = (if d \<in> set (x # xs) then Some t else idx d)" using ih by simp
  moreover have "tn_id u = tn_id t" if "d \<in> set (x # xs)" "idx d = Some u" for u
  proof (cases "d = x")
    case True
    then show ?thesis using o' that(2) by blast
  next
    case False
    have "d \<in> set xs" using that(1) False by simp
    moreover have "(idx(x \<mapsto> t)) d = Some u" using that(2) False by (simp only: fun_upd_apply if_False)
    ultimately show ?thesis by (rule c)
  qed
  ultimately show ?case by blast
qed simp

lemma key_index_correct:
  assumes "rfold (\<lambda>t. index_keys t (tn_keys t)) ts idx = Inr idx'" "index_of tns idx"
    and "distinct (map tn_id (tns @ ts))"
  shows "index_of (tns @ ts) idx'"
  using assms
proof (induction ts arbitrary: tns idx)
  case (Cons t ts)
  obtain idx1 where i: "index_keys t (tn_keys t) idx = Inr idx1"
    "rfold (\<lambda>t. index_keys t (tn_keys t)) ts idx1 = Inr idx'" using Cons.prems(1) by auto
  note E = index_keys_effect [OF i(1)]
  have I1: "index_of (tns @ [t]) idx1"
    unfolding index_of_def
  proof (intro allI)
    fix d u
    have no: "\<not> (d \<in> set (tn_keys t) \<and> u \<in> set tns \<and> d \<in> set (tn_keys u))"
    proof
      assume a: "d \<in> set (tn_keys t) \<and> u \<in> set tns \<and> d \<in> set (tn_keys u)"
      then have "idx d = Some u" using Cons.prems(2) by (simp add: index_of_def)
      then have "tn_id u = tn_id t" using E [of d] a by blast
      moreover have "tn_id u \<in> tn_id ` set tns" using a by blast
      ultimately show False using Cons.prems(3) by auto
    qed
    have "idx d = Some u \<longleftrightarrow> u \<in> set tns \<and> d \<in> set (tn_keys u)" using Cons.prems(2) by (simp add: index_of_def)
    then show "idx1 d = Some u \<longleftrightarrow> u \<in> set (tns @ [t]) \<and> d \<in> set (tn_keys u)"
      using E [of d] no by auto
  qed
  show ?case using Cons.IH [OF i(2) I1] Cons.prems(3) by simp
qed simp

lemma au_index_correct:
  assumes "tenant_registry ts = Inr reg" "authenticator_make reg req anon = Inr a"
  shows "au_index a d = Some t \<longleftrightarrow> t \<in> set ts \<and> d \<in> set (tn_keys t)" "au_require_auth a = req"
proof -
  have r: "reg = ts" "distinct (map tn_id ts)" using tenant_registry_ids [OF assms(1)] by auto
  obtain idx where "key_index reg = Inr idx" "au_index a = idx" and q: "au_require_auth a = req"
    using assms(2) by (auto simp: authenticator_make_def split: if_splits)
  moreover have "index_of [] Map.empty" by (simp add: index_of_def)
  ultimately have "index_of ts (au_index a)"
    using key_index_correct [of ts Map.empty _ "[]"] r by (simp add: key_index_def)
  then show "au_index a d = Some t \<longleftrightarrow> t \<in> set ts \<and> d \<in> set (tn_keys t)" by (simp add: index_of_def)
  show "au_require_auth a = req" by (rule q)
qed

section \<open>Properties\<close>

text \<open>C30: Authentication is exact. With authentication required, a request gets a principal exactly
  when its header carries a key whose digest one of the configured tenants lists and that tenant
  is enabled; the principal is then that tenant, and it is the only one listing the digest.\<close>

theorem authentication_is_exact:
  assumes "tenant_registry ts = Inr reg" "authenticator_make reg True anon = Inr a"
  shows "(\<exists>p. authenticate hash hdr a = Inr p \<and> pr_tenant p = t)
     \<longleftrightarrow> (\<exists>key. extract_bearer hdr = Some key \<and> t \<in> set ts \<and> hash key \<in> set (tn_keys t) \<and> tn_enabled t
           \<and> (\<forall>u. u \<in> set ts \<and> hash key \<in> set (tn_keys u) \<longleftrightarrow> u = t))"
proof -
  note I = au_index_correct [OF assms]
  have one: "\<forall>u. u \<in> set ts \<and> d \<in> set (tn_keys u) \<longleftrightarrow> u = t" if "t \<in> set ts" "d \<in> set (tn_keys t)" for d t
    using that I(1) [of d] by (metis option.inject)
  show ?thesis
  proof (cases "extract_bearer hdr")
    case None
    then show ?thesis using I(2) by (simp add: authenticate_def)
  next
    case (Some key)
    show ?thesis
    proof (cases "au_index a (hash key)")
      case None
      then show ?thesis using Some I(1) [of "hash key" t] I(2) \<open>extract_bearer hdr = Some key\<close> by (auto simp: authenticate_def)
    next
      case (Some t')
      then have t': "t' \<in> set ts" "hash key \<in> set (tn_keys t')" using I(1) by blast+
      note o' = one [OF t']
      have "(\<exists>p. authenticate hash hdr a = Inr p \<and> pr_tenant p = t) \<longleftrightarrow> tn_enabled t' \<and> t' = t"
        using Some \<open>extract_bearer hdr = Some key\<close> I(2) by (auto simp: authenticate_def)
      also have "\<dots> \<longleftrightarrow> (\<exists>key. extract_bearer hdr = Some key \<and> t \<in> set ts \<and> hash key \<in> set (tn_keys t) \<and> tn_enabled t
           \<and> (\<forall>u. u \<in> set ts \<and> hash key \<in> set (tn_keys u) \<longleftrightarrow> u = t))"
        using o' t' \<open>extract_bearer hdr = Some key\<close> by auto
      finally show ?thesis .
    qed
  qed
qed

definition demo_tenant :: "string \<Rightarrow> string list \<Rightarrow> tenant" where
  "demo_tenant i ks = \<lparr>tn_id = i, tn_keys = ks, tn_enabled = True, tn_rpm = None, tn_tpm = None,
     tn_max_concurrency = None, tn_allowed_models = [''qwen-*''], tn_adapters = Map.empty, tn_priority = 0, tn_weight = 1\<rparr>"

definition demo_tenants :: "tenant list" where
  "demo_tenants = [demo_tenant ''acme'' [''d1''], demo_tenant ''labs'' [''d2'', ''d3'']]"

definition demo_hash :: "string \<Rightarrow> string" where
  "demo_hash k = (if k = ''sk-1'' then ''d1'' else if k = ''sk-3'' then ''d3'' else ''x'')"

definition demo_auth :: authenticator where
  "demo_auth = (case authenticator_make demo_tenants True ''default'' of Inr a \<Rightarrow> a)"

theorem authentication_is_exact_witness:
  "(\<exists>p. authenticate demo_hash (Some ''Bearer  sk-3'') demo_auth = Inr p
      \<and> pr_tenant p = demo_tenant ''labs'' [''d2'', ''d3''])
   \<longleftrightarrow> (\<exists>key. extract_bearer (Some ''Bearer  sk-3'') = Some key
       \<and> demo_tenant ''labs'' [''d2'', ''d3''] \<in> set demo_tenants
       \<and> demo_hash key \<in> set (tn_keys (demo_tenant ''labs'' [''d2'', ''d3'']))
       \<and> tn_enabled (demo_tenant ''labs'' [''d2'', ''d3''])
       \<and> (\<forall>u. u \<in> set demo_tenants \<and> demo_hash key \<in> set (tn_keys u) \<longleftrightarrow> u = demo_tenant ''labs'' [''d2'', ''d3'']))"
proof (rule authentication_is_exact)
  show "tenant_registry demo_tenants = Inr demo_tenants"
    by (simp add: demo_tenants_def demo_tenant_def tenant_registry_def)
  show "authenticator_make demo_tenants True ''default'' = Inr demo_auth"
    by (simp add: demo_auth_def demo_tenants_def demo_tenant_def authenticator_make_def key_index_def)
qed

end
