(* ===== verification/Rate_Limits.thy ===== *)
theory Rate_Limits
  imports Tenants
begin

text \<open>
  Tenant quotas: \<open>src/turboserve/gateway/limits.py\<close>. Token buckets (\<open>TokenBucket\<close>), the three
  quotas of one tenant (\<open>TenantLimiter\<close>) and the lazily filled registry (\<open>LimiterRegistry\<close>).

  Amounts, levels and times are rationals where the code has floats; the clock reading is the
  argument \<open>now\<close>. A refused request is a value beside the new state, since a refusal also
  counts itself and refills the bucket it looked at.
\<close>

section \<open>Token buckets\<close>

record bucket =
  bk_capacity :: rat
  bk_rate :: rat
  bk_level :: rat
  bk_updated :: rat

definition bucket_init :: "rat \<Rightarrow> rat \<Rightarrow> rat option \<Rightarrow> rat \<Rightarrow> py_error + bucket" where
  "bucket_init capacity rate level now =
     (if capacity \<le> 0 then Inl ValueError
      else if rate \<le> 0 then Inl ValueError
      else Inr \<lparr>bk_capacity = capacity, bk_rate = rate,
             bk_level = (case level of None \<Rightarrow> capacity | Some l \<Rightarrow> l), bk_updated = now\<rparr>)"

definition bucket_per_minute :: "rat \<Rightarrow> rat option \<Rightarrow> rat \<Rightarrow> py_error + bucket" where
  "bucket_per_minute limit burst now =
     bucket_init (case burst of None \<Rightarrow> limit | Some b \<Rightarrow> b) (limit / 60) None now"

definition bucket_refill :: "rat \<Rightarrow> bucket \<Rightarrow> bucket" where
  "bucket_refill now b =
     (let elapsed = now - bk_updated b in
      if 0 < elapsed
      then b\<lparr>bk_level := min (bk_capacity b) (bk_level b + elapsed * bk_rate b), bk_updated := now\<rparr>
      else b)"

definition bucket_level :: "rat \<Rightarrow> bucket \<Rightarrow> rat \<times> bucket" where
  "bucket_level now b = (let b' = bucket_refill now b in (bk_level b', b'))"

definition try_acquire :: "rat \<Rightarrow> rat \<Rightarrow> bucket \<Rightarrow> py_error + (bool \<times> bucket)" where
  "try_acquire amount now b =
     (if amount < 0 then Inl ValueError
      else let b' = bucket_refill now b in
        if bk_level b' < amount then Inr (False, b')
        else Inr (True, b'\<lparr>bk_level := bk_level b' - amount\<rparr>))"

definition charge :: "rat \<Rightarrow> rat \<Rightarrow> bucket \<Rightarrow> py_error + (rat \<times> bucket)" where
  "charge amount now b =
     (if amount < 0 then Inl ValueError
      else let b' = bucket_refill now b; l = bk_level b' - amount in Inr (l, b'\<lparr>bk_level := l\<rparr>))"

definition refund :: "rat \<Rightarrow> rat \<Rightarrow> bucket \<Rightarrow> py_error + (rat \<times> bucket)" where
  "refund amount now b =
     (if amount < 0 then Inl ValueError
      else let b' = bucket_refill now b; l = min (bk_capacity b') (bk_level b' + amount)
        in Inr (l, b'\<lparr>bk_level := l\<rparr>))"

definition retry_after :: "rat \<Rightarrow> rat \<Rightarrow> bucket \<Rightarrow> rat \<times> bucket" where
  "retry_after amount now b =
     (let (l, b') = bucket_level now b; deficit = amount - l in
      (if deficit \<le> 0 then 0 else deficit / bk_rate b', b'))"

definition bucket_reset :: "rat \<Rightarrow> bucket \<Rightarrow> bucket" where
  "bucket_reset now b = b\<lparr>bk_level := bk_capacity b, bk_updated := now\<rparr>"

text \<open>The whole seconds of the \<open>Retry-After\<close> header.\<close>

definition retry_after_header :: "rat \<Rightarrow> int" where
  "retry_after_header seconds = max 1 \<lceil>seconds\<rceil>"

section \<open>One tenant's quotas\<close>

datatype limit_name = Rpm | Tpm | Concurrency

record rejection =
  rj_limit :: limit_name
  rj_retry_after :: rat
  rj_limit_value :: "nat option"

record limiter =
  tl_tenant :: tenant
  tl_retry :: rat
  tl_rpm :: "bucket option"
  tl_tpm :: "bucket option"
  tl_in_flight :: nat
  tl_admitted :: nat
  tl_rejected :: nat
  tl_tokens :: int

definition budget_bucket :: "nat option \<Rightarrow> rat \<Rightarrow> py_error + bucket option" where
  "budget_bucket limit now =
     (case limit of None \<Rightarrow> Inr None
      | Some n \<Rightarrow> rbind (bucket_per_minute (rat_of_nat n) None now) (\<lambda>b. Inr (Some b)))"

definition limiter_init :: "tenant \<Rightarrow> rat \<Rightarrow> rat \<Rightarrow> py_error + limiter" where
  "limiter_init t retry now =
     rbind (budget_bucket (tn_rpm t) now) (\<lambda>rpm.
     rbind (budget_bucket (tn_tpm t) now) (\<lambda>tpm.
     Inr \<lparr>tl_tenant = t, tl_retry = retry, tl_rpm = rpm, tl_tpm = tpm, tl_in_flight = 0,
          tl_admitted = 0, tl_rejected = 0, tl_tokens = 0\<rparr>))"

definition reject_request :: "limit_name \<Rightarrow> rat \<Rightarrow> nat option \<Rightarrow> limiter \<Rightarrow> rejection option \<times> limiter" where
  "reject_request name retry v L =
     (Some \<lparr>rj_limit = name, rj_retry_after = max 0 retry, rj_limit_value = v\<rparr>,
      L\<lparr>tl_rejected := tl_rejected L + 1\<rparr>)"

text \<open>A budget that cannot pay: the wait it asks for.\<close>

definition shortfall :: "rat \<Rightarrow> rat \<Rightarrow> bucket option \<Rightarrow> rat option" where
  "shortfall amount now budget =
     (case budget of
        None \<Rightarrow> None
      | Some b \<Rightarrow> (let (l, b') = bucket_level now b in
          if l < amount then Some (fst (retry_after amount now b')) else None))"

definition pay :: "rat \<Rightarrow> rat \<Rightarrow> bucket option \<Rightarrow> bucket option" where
  "pay amount now budget =
     map_option (\<lambda>b. case charge amount now b of Inl _ \<Rightarrow> b | Inr (_, b') \<Rightarrow> b') budget"

definition check_request :: "int \<Rightarrow> rat \<Rightarrow> limiter \<Rightarrow> rejection option \<times> limiter" where
  "check_request prompt_tokens now L =
     (let L1 = L\<lparr>tl_rpm := map_option (bucket_refill now) (tl_rpm L)\<rparr> in
      case shortfall 1 now (tl_rpm L) of
        Some retry \<Rightarrow> reject_request Rpm retry (tn_rpm (tl_tenant L)) L1
      | None \<Rightarrow>
          (let L2 = (if 0 < prompt_tokens then L1\<lparr>tl_tpm := map_option (bucket_refill now) (tl_tpm L)\<rparr> else L1) in
           case (if 0 < prompt_tokens then shortfall (of_int prompt_tokens) now (tl_tpm L) else None) of
             Some retry \<Rightarrow> reject_request Tpm retry (tn_tpm (tl_tenant L)) L2
           | None \<Rightarrow>
               (let L3 = L2\<lparr>tl_rpm := pay 1 now (tl_rpm L2)\<rparr>;
                    L4 = (if tl_tpm L3 \<noteq> None \<and> 0 < prompt_tokens
                          then L3\<lparr>tl_tpm := pay (of_int prompt_tokens) now (tl_tpm L3),
                                  tl_tokens := tl_tokens L3 + prompt_tokens\<rparr>
                          else L3)
                in (None, L4\<lparr>tl_admitted := tl_admitted L4 + 1\<rparr>))))"

definition charge_tokens :: "int \<Rightarrow> rat \<Rightarrow> limiter \<Rightarrow> limiter" where
  "charge_tokens tokens now L =
     (if tokens \<le> 0 \<or> tl_tpm L = None then L
      else L\<lparr>tl_tpm := pay (of_int tokens) now (tl_tpm L), tl_tokens := tl_tokens L + tokens\<rparr>)"

definition try_acquire_slot :: "limiter \<Rightarrow> bool \<times> limiter" where
  "try_acquire_slot L =
     (case tn_max_concurrency (tl_tenant L) of
        Some limit \<Rightarrow> if limit \<le> tl_in_flight L then (False, L)
                      else (True, L\<lparr>tl_in_flight := tl_in_flight L + 1\<rparr>)
      | None \<Rightarrow> (True, L\<lparr>tl_in_flight := tl_in_flight L + 1\<rparr>))"

definition release_slot :: "limiter \<Rightarrow> limiter" where
  "release_slot L = (if 0 < tl_in_flight L then L\<lparr>tl_in_flight := tl_in_flight L - 1\<rparr> else L)"

text \<open>Entering the \<open>slot\<close> context; leaving it, whatever the body did, is \<open>release_slot\<close>.\<close>

definition slot_enter :: "limiter \<Rightarrow> rejection option \<times> limiter" where
  "slot_enter L =
     (let (ok, L') = try_acquire_slot L in
      if ok then (None, L')
      else reject_request Concurrency (tl_retry L') (tn_max_concurrency (tl_tenant L')) L')"

section \<open>The registry\<close>

record limiters =
  ls_tenants :: "tenant list"
  ls_retry :: rat
  ls_limiters :: "string \<rightharpoonup> limiter"

definition limiters_init :: "tenant list \<Rightarrow> rat \<Rightarrow> limiters" where
  "limiters_init tenants retry = \<lparr>ls_tenants = tenants, ls_retry = retry, ls_limiters = Map.empty\<rparr>"

definition for_tenant :: "tenant \<Rightarrow> rat \<Rightarrow> limiters \<Rightarrow> py_error + (limiter \<times> limiters)" where
  "for_tenant t now R =
     (case ls_limiters R (tn_id t) of
        Some L \<Rightarrow> Inr (L, R)
      | None \<Rightarrow> rbind (limiter_init t (ls_retry R) now) (\<lambda>L.
          Inr (L, R\<lparr>ls_limiters := (ls_limiters R)(tn_id t \<mapsto> L)\<rparr>)))"

definition for_tenant_id :: "string \<Rightarrow> rat \<Rightarrow> limiters \<Rightarrow> py_error + (limiter option \<times> limiters)" where
  "for_tenant_id i now R =
     (case ls_limiters R i of
        Some L \<Rightarrow> Inr (Some L, R)
      | None \<Rightarrow> (case tr_get i (ls_tenants R) of
            None \<Rightarrow> Inr (None, R)
          | Some t \<Rightarrow> rbind (for_tenant t now R) (\<lambda>(L, R'). Inr (Some L, R'))))"

definition limiters_reset :: "limiters \<Rightarrow> limiters" where
  "limiters_reset R = R\<lparr>ls_limiters := Map.empty\<rparr>"

section \<open>Buckets over time\<close>

lemma refill_fixed [simp]:
  "bk_capacity (bucket_refill now b) = bk_capacity b" "bk_rate (bucket_refill now b) = bk_rate b"
  by (simp_all add: bucket_refill_def Let_def)

lemma refill_idem [simp]: "bucket_refill now (bucket_refill now b) = bucket_refill now b"
  by (simp add: bucket_refill_def Let_def)

lemma refill_updated [simp]: "bk_updated (bucket_refill now b) = max now (bk_updated b)"
  by (simp add: bucket_refill_def Let_def)

lemma refill_level_le: "bk_level b \<le> bk_capacity b \<Longrightarrow> bk_level (bucket_refill now b) \<le> bk_capacity b"
  by (simp add: bucket_refill_def Let_def)

lemma refill_level_ge: "bk_level b \<le> bk_capacity b \<Longrightarrow> 0 \<le> bk_rate b \<Longrightarrow> bk_level b \<le> bk_level (bucket_refill now b)"
  by (simp add: bucket_refill_def Let_def)

text \<open>What a bucket can ever pay, counted from time zero, never grows by itself.\<close>

definition potential :: "bucket \<Rightarrow> rat" where
  "potential b = bk_level b - bk_rate b * bk_updated b"

lemma refill_potential: "potential (bucket_refill now b) \<le> potential b"
proof (cases "0 < now - bk_updated b")
  case True
  have "min (bk_capacity b) (bk_level b + (now - bk_updated b) * bk_rate b) - bk_rate b * now
      \<le> bk_level b + (now - bk_updated b) * bk_rate b - bk_rate b * now" by simp
  also have "\<dots> = bk_level b - bk_rate b * bk_updated b" by (simp add: algebra_simps)
  finally show ?thesis using True by (simp add: potential_def bucket_refill_def Let_def)
qed (simp add: bucket_refill_def Let_def)

text \<open>From a level below the amount, the wait that is reported is exact.\<close>

lemma wait_exact:
  assumes "0 < bk_rate b" "amount \<le> bk_capacity b" "bk_level b < amount" "bk_updated b = now" "now \<le> t"
  shows "bk_level (bucket_refill t b) < amount \<longleftrightarrow> t < now + (amount - bk_level b) / bk_rate b"
proof (cases "now < t")
  case True
  have "bk_level (bucket_refill t b) < amount \<longleftrightarrow> bk_level b + (t - now) * bk_rate b < amount"
    using True assms(2,4) by (auto simp: bucket_refill_def Let_def min_def)
  also have "\<dots> \<longleftrightarrow> t < now + (amount - bk_level b) / bk_rate b"
    using assms(1) by (simp add: field_simps)
  finally show ?thesis .
next
  case False
  then show ?thesis using assms by (simp add: bucket_refill_def Let_def)
qed

section \<open>The limiter's invariant\<close>

definition bucket_ok :: "nat \<Rightarrow> bucket \<Rightarrow> bool" where
  "bucket_ok n b \<longleftrightarrow> 0 < n \<and> bk_capacity b = rat_of_nat n \<and> bk_rate b = rat_of_nat n / 60 \<and> bk_level b \<le> rat_of_nat n"

definition budget_ok :: "nat option \<Rightarrow> bucket option \<Rightarrow> bool" where
  "budget_ok limit budget =
     (case limit of
        None \<Rightarrow> budget = None
      | Some n \<Rightarrow> (case budget of None \<Rightarrow> False | Some b \<Rightarrow> bucket_ok n b))"

lemma bucket_ok_refill: "bucket_ok n b \<Longrightarrow> bucket_ok n (bucket_refill now b)"
  using refill_level_le [of b now] by (simp add: bucket_ok_def)

lemma bucket_ok_lower: "bucket_ok n b \<Longrightarrow> 0 \<le> a \<Longrightarrow> bucket_ok n (b\<lparr>bk_level := bk_level b - a\<rparr>)"
  by (simp add: bucket_ok_def)

definition below_limit :: "nat option \<Rightarrow> nat \<Rightarrow> bool" where
  "below_limit limit k = (case limit of None \<Rightarrow> True | Some m \<Rightarrow> k \<le> m)"

definition lim_ok :: "limiter \<Rightarrow> bool" where
  "lim_ok L \<longleftrightarrow> budget_ok (tn_rpm (tl_tenant L)) (tl_rpm L) \<and> budget_ok (tn_tpm (tl_tenant L)) (tl_tpm L)
     \<and> below_limit (tn_max_concurrency (tl_tenant L)) (tl_in_flight L)"

lemma budget_refill: "budget_ok l bu \<Longrightarrow> budget_ok l (map_option (bucket_refill now) bu)"
  by (auto simp: budget_ok_def bucket_ok_refill split: option.splits)

lemma pay_eq: "0 \<le> a \<Longrightarrow> pay a now bu =
    map_option (\<lambda>b. (bucket_refill now b)\<lparr>bk_level := bk_level (bucket_refill now b) - a\<rparr>) bu"
  by (cases bu) (simp_all add: pay_def charge_def Let_def)

lemma budget_pay: "budget_ok l bu \<Longrightarrow> 0 \<le> a \<Longrightarrow> budget_ok l (pay a now bu)"
  by (auto simp: budget_ok_def pay_eq bucket_ok_refill bucket_ok_lower split: option.splits)

lemma pay_none [simp]: "pay a now None = None"
  by (simp add: pay_def)

lemma pay_refilled: "0 \<le> a \<Longrightarrow> pay a now (map_option (bucket_refill now) bu) = pay a now bu"
  by (cases bu) (simp_all add: pay_eq)

lemma shortfall_eq: "shortfall a now bu = (case bu of None \<Rightarrow> None
    | Some b \<Rightarrow> if bk_level (bucket_refill now b) < a
                then Some ((a - bk_level (bucket_refill now b)) / bk_rate b) else None)"
  by (auto simp: shortfall_def retry_after_def bucket_level_def Let_def split: option.splits)

text \<open>The three outcomes of \<open>check_request\<close>.\<close>

lemma check_request_cases:
  obtains (rpm) w where "shortfall 1 now (tl_rpm L) = Some w"
      "check_request p now L = reject_request Rpm w (tn_rpm (tl_tenant L)) (L\<lparr>tl_rpm := map_option (bucket_refill now) (tl_rpm L)\<rparr>)"
  | (tpm) w where "shortfall 1 now (tl_rpm L) = None" "0 < p" "shortfall (of_int p) now (tl_tpm L) = Some w"
      "check_request p now L = reject_request Tpm w (tn_tpm (tl_tenant L))
         (L\<lparr>tl_rpm := map_option (bucket_refill now) (tl_rpm L), tl_tpm := map_option (bucket_refill now) (tl_tpm L)\<rparr>)"
  | (admit) "shortfall 1 now (tl_rpm L) = None" "0 < p \<longrightarrow> shortfall (of_int p) now (tl_tpm L) = None"
      "check_request p now L = (None, L\<lparr>tl_rpm := pay 1 now (tl_rpm L),
         tl_tpm := (if 0 < p then pay (of_int p) now (tl_tpm L) else tl_tpm L),
         tl_tokens := (if 0 < p \<and> tl_tpm L \<noteq> None then tl_tokens L + p else tl_tokens L),
         tl_admitted := tl_admitted L + 1\<rparr>)"
proof (cases "shortfall 1 now (tl_rpm L)")
  case (Some w)
  then show thesis using rpm by (simp add: check_request_def Let_def)
next
  case None
  note n1 = None
  show thesis
  proof (cases "if 0 < p then shortfall (of_int p) now (tl_tpm L) else None")
    case (Some w)
    then have p: "0 < p" "shortfall (of_int p) now (tl_tpm L) = Some w" by (auto split: if_split_asm)
    then show thesis using tpm n1 by (simp add: check_request_def Let_def)
  next
    case None
    then have n2: "0 < p \<longrightarrow> shortfall (of_int p) now (tl_tpm L) = None" by (auto split: if_split_asm)
    have "check_request p now L = (None, L\<lparr>tl_rpm := pay 1 now (tl_rpm L),
         tl_tpm := (if 0 < p then pay (of_int p) now (tl_tpm L) else tl_tpm L),
         tl_tokens := (if 0 < p \<and> tl_tpm L \<noteq> None then tl_tokens L + p else tl_tokens L),
         tl_admitted := tl_admitted L + 1\<rparr>)"
      using n1 n2 pay_refilled [of 1 now "tl_rpm L"] pay_refilled [of "of_int p" now "tl_tpm L"]
      by (cases "tl_tpm L"; cases "0 < p") (simp_all add: check_request_def Let_def)
    then show thesis by (rule admit [OF n1 n2])
  qed
qed

section \<open>The slot as an interface\<close>

text \<open>
  What holding a slot for the duration of a block relies on: entering counts one when it is not
  refused, leaving takes it back. A block is then neutral.
\<close>

locale slot_gate =
  fixes enter :: "'l \<Rightarrow> 'e option \<times> 'l" and leave :: "'l \<Rightarrow> 'l" and held :: "'l \<Rightarrow> nat"
  assumes enter_held: "enter L = (ro, L') \<Longrightarrow> held L' = (if ro = None then held L + 1 else held L)"
    and leave_held: "held (leave L) = held L - 1"
begin

lemma block_neutral: "enter L = (None, L') \<Longrightarrow> held L'' = held L' \<Longrightarrow> held (leave L'') = held L"
  using enter_held [of L None L'] leave_held [of L''] by simp

lemma refusal_neutral: "enter L = (Some e, L') \<Longrightarrow> held L' = held L"
  using enter_held [of L "Some e" L'] by simp

end

lemma slot_enter_held: "slot_enter L = (ro, L') \<Longrightarrow> tl_in_flight L' = (if ro = None then tl_in_flight L + 1 else tl_in_flight L)"
  by (auto simp: slot_enter_def try_acquire_slot_def reject_request_def Let_def split: option.splits if_splits)

interpretation gate: slot_gate slot_enter release_slot tl_in_flight
  by unfold_locales (use slot_enter_held in \<open>auto simp: release_slot_def\<close>)

section \<open>Sequences of operations\<close>

datatype limit_op = Check int rat | ChargeTokens int rat | EnterSlot | LeaveSlot

fun limit_do :: "limit_op \<Rightarrow> limiter \<Rightarrow> limiter" where
  "limit_do (Check p now) L = snd (check_request p now L)"
| "limit_do (ChargeTokens n now) L = charge_tokens n now L"
| "limit_do EnterSlot L = snd (slot_enter L)"
| "limit_do LeaveSlot L = release_slot L"

fun op_before :: "rat \<Rightarrow> limit_op \<Rightarrow> bool" where
  "op_before T (Check p now) = (now \<le> T)"
| "op_before T (ChargeTokens n now) = (now \<le> T)"
| "op_before T EnterSlot = True"
| "op_before T LeaveSlot = True"

lemma budget_bucket_ok:
  "budget_bucket l now = Inr bu \<Longrightarrow> budget_ok l bu \<and> (\<forall>b. bu = Some b \<longrightarrow> bk_updated b = now)"
  by (auto simp: budget_bucket_def bucket_per_minute_def bucket_init_def budget_ok_def bucket_ok_def
      split: option.splits if_splits)

lemma limiter_init_ok:
  assumes "limiter_init t retry t0 = Inr L"
  shows "lim_ok L" "tl_tenant L = t" "tl_admitted L = 0" "\<And>b. tl_rpm L = Some b \<Longrightarrow> bk_updated b = t0"
  using assms budget_bucket_ok
  by (auto simp: limiter_init_def lim_ok_def below_limit_def split: option.splits)

lemma check_tenant [simp]: "tl_tenant (snd (check_request p now L)) = tl_tenant L"
  by (cases rule: check_request_cases [of now L p]) (simp_all add: reject_request_def)

lemma limit_do_tenant [simp]: "tl_tenant (limit_do x L) = tl_tenant L"
  by (cases x) (auto simp: charge_tokens_def slot_enter_def try_acquire_slot_def release_slot_def
      reject_request_def Let_def split: option.splits)

lemma check_request_ok:
  assumes "lim_ok L"
  shows "lim_ok (snd (check_request p now L))"
  by (cases rule: check_request_cases [of now L p])
    (use assms in \<open>simp_all add: lim_ok_def reject_request_def budget_refill budget_pay\<close>)

lemma limit_do_ok:
  assumes "lim_ok L"
  shows "lim_ok (limit_do x L)"
proof (cases x)
  case (Check p now)
  then show ?thesis using assms by (simp add: check_request_ok)
next
  case (ChargeTokens n now)
  then show ?thesis using assms by (simp add: charge_tokens_def lim_ok_def budget_pay)
next
  case EnterSlot
  then show ?thesis using assms
    by (auto simp: slot_enter_def try_acquire_slot_def reject_request_def lim_ok_def below_limit_def Let_def split: option.splits)
next
  case LeaveSlot
  then show ?thesis using assms by (auto simp: release_slot_def lim_ok_def below_limit_def split: option.splits)
qed

lemma limit_run_ok: "lim_ok L \<Longrightarrow> lim_ok (fold limit_do ops L) \<and> tl_tenant (fold limit_do ops L) = tl_tenant L"
  by (induction ops arbitrary: L) (simp_all add: limit_do_ok)

text \<open>What has been admitted was paid out of the request bucket.\<close>

definition paid :: "rat \<Rightarrow> rat \<Rightarrow> nat \<Rightarrow> bucket option \<Rightarrow> bool" where
  "paid B T k budget = (case budget of None \<Rightarrow> True
     | Some b \<Rightarrow> rat_of_nat k + potential b \<le> B \<and> 0 \<le> bk_level b \<and> bk_updated b \<le> T)"

lemma paid_refill:
  assumes "paid B T k bu" "budget_ok l bu" "now \<le> T"
  shows "paid B T k (map_option (bucket_refill now) bu)"
proof (cases bu)
  case (Some b)
  then obtain n where "bucket_ok n b" using assms(2) by (auto simp: budget_ok_def split: option.splits)
  then have "bk_level b \<le> bk_level (bucket_refill now b)" by (intro refill_level_ge) (simp_all add: bucket_ok_def)
  then show ?thesis using assms Some refill_potential [of now b] by (simp add: paid_def)
qed (simp add: paid_def)

lemma paid_admit:
  assumes "paid B T k bu" "now \<le> T" "shortfall 1 now bu = None"
  shows "paid B T (Suc k) (pay 1 now bu)"
proof (cases bu)
  case (Some b)
  have "1 \<le> bk_level (bucket_refill now b)" using assms(3) Some by (simp add: shortfall_eq split: if_split_asm)
  then show ?thesis using assms Some refill_potential [of now b] by (simp add: paid_def pay_eq potential_def)
qed (simp add: paid_def)

lemma paid_step:
  assumes "paid B T (tl_admitted L) (tl_rpm L)" "lim_ok L" "op_before T x"
  shows "paid B T (tl_admitted (limit_do x L)) (tl_rpm (limit_do x L))"
proof (cases x)
  case (Check p now)
  then have now: "now \<le> T" using assms(3) by simp
  have bo: "budget_ok (tn_rpm (tl_tenant L)) (tl_rpm L)" using assms(2) by (simp add: lim_ok_def)
  show ?thesis
    by (cases rule: check_request_cases [of now L p])
      (simp_all add: Check reject_request_def paid_refill [OF assms(1) bo now] paid_admit [OF assms(1) now])
next
  case (ChargeTokens n now)
  then show ?thesis using assms(1) by (simp add: charge_tokens_def)
next
  case EnterSlot
  then show ?thesis using assms(1)
    by (auto simp: slot_enter_def try_acquire_slot_def reject_request_def Let_def split: option.splits)
next
  case LeaveSlot
  then show ?thesis using assms(1) by (simp add: release_slot_def)
qed

lemma paid_run:
  "paid B T (tl_admitted L) (tl_rpm L) \<Longrightarrow> lim_ok L \<Longrightarrow> list_all (op_before T) ops \<Longrightarrow>
     paid B T (tl_admitted (fold limit_do ops L)) (tl_rpm (fold limit_do ops L))"
  by (induction ops arbitrary: L) (simp_all add: paid_step limit_do_ok)

section \<open>Properties\<close>

text \<open>C31: The request quota bounds the traffic. Whatever sequence of requests, completions and
  slots runs through a tenant's limiter up to a time, at most one minute's budget plus the rate
  times the elapsed time is admitted, and no more requests than the concurrency limit hold a slot.\<close>

theorem admission_rate_is_bounded:
  assumes "limiter_init t retry t0 = Inr L" "tn_rpm t = Some n" "t0 \<le> T" "list_all (op_before T) ops"
  shows "rat_of_nat (tl_admitted (fold limit_do ops L)) \<le> rat_of_nat n + rat_of_nat n / 60 * (T - t0)
    \<and> below_limit (tn_max_concurrency t) (tl_in_flight (fold limit_do ops L))"
proof -
  note I = limiter_init_ok [OF assms(1)]
  let ?L = "fold limit_do ops L" and ?r = "rat_of_nat n / 60"
  have ok: "lim_ok ?L" "tl_tenant ?L = t" using limit_run_ok [OF I(1)] I(2) by auto
  obtain b where b: "tl_rpm L = Some b" "bucket_ok n b"
    using I(1,2) assms(2) by (auto simp: lim_ok_def budget_ok_def split: option.splits)
  have "bk_level b \<le> rat_of_nat n" "bk_rate b = ?r" using b(2) by (simp_all add: bucket_ok_def)
  moreover have "bk_level b = rat_of_nat n" using assms(1,2) b(1)
    by (auto simp: limiter_init_def budget_bucket_def bucket_per_minute_def bucket_init_def split: if_splits)
  ultimately have "paid (rat_of_nat n - ?r * t0) T (tl_admitted L) (tl_rpm L)"
    using I(3) I(4) [OF b(1)] b(1) assms(3)
    by (simp only: paid_def potential_def option.case) simp
  then have "paid (rat_of_nat n - ?r * t0) T (tl_admitted ?L) (tl_rpm ?L)" using I(1) assms(4) by (rule paid_run)
  moreover obtain b' where b': "tl_rpm ?L = Some b'" "bucket_ok n b'"
    using ok assms(2) by (auto simp: lim_ok_def budget_ok_def split: option.splits)
  moreover have "bk_rate b' = ?r" using b'(2) by (simp add: bucket_ok_def)
  ultimately have p: "rat_of_nat (tl_admitted ?L) + (bk_level b' - ?r * bk_updated b') \<le> rat_of_nat n - ?r * t0"
    "0 \<le> bk_level b'" "bk_updated b' \<le> T" by (simp_all only: paid_def potential_def option.case)
  have "?r * bk_updated b' \<le> ?r * T" using p(3) by (intro mult_left_mono) simp_all
  then have "rat_of_nat (tl_admitted ?L) \<le> rat_of_nat n + (?r * T - ?r * t0)" using p(1,2) by linarith
  moreover have "?r * T - ?r * t0 = ?r * (T - t0)" by (simp add: right_diff_distrib)
  ultimately show ?thesis using ok by (simp add: lim_ok_def)
qed

definition demo_limited :: tenant where
  "demo_limited = (demo_tenant ''acme'' [''d1''])\<lparr>tn_rpm := Some 2, tn_tpm := Some 100, tn_max_concurrency := Some 1\<rparr>"

definition demo_limiter :: limiter where
  "demo_limiter = (case limiter_init demo_limited 1 0 of Inr L \<Rightarrow> L)"

definition demo_traffic :: "limit_op list" where
  "demo_traffic = [EnterSlot, Check 30 1, EnterSlot, Check 30 2, Check 30 3, ChargeTokens 20 4, LeaveSlot]"

lemma demo_limiter_init: "limiter_init demo_limited 1 0 = Inr demo_limiter"
  by (simp add: demo_limiter_def demo_limited_def demo_tenant_def limiter_init_def budget_bucket_def
      bucket_per_minute_def bucket_init_def)

theorem admission_rate_is_bounded_witness:
  "rat_of_nat (tl_admitted (fold limit_do demo_traffic demo_limiter)) \<le> rat_of_nat 2 + rat_of_nat 2 / 60 * (4 - 0)
    \<and> below_limit (tn_max_concurrency demo_limited) (tl_in_flight (fold limit_do demo_traffic demo_limiter))"
proof (rule admission_rate_is_bounded)
  show "limiter_init demo_limited 1 0 = Inr demo_limiter" by (rule demo_limiter_init)
  show "tn_rpm demo_limited = Some 2" by (simp add: demo_limited_def)
  show "(0::rat) \<le> 4" by simp
  show "list_all (op_before 4) demo_traffic" by (simp add: demo_traffic_def)
qed

definition budget_level :: "rat \<Rightarrow> bucket option \<Rightarrow> rat option" where
  "budget_level now bu = map_option (\<lambda>b. fst (bucket_level now b)) bu"

definition covers :: "rat option \<Rightarrow> rat \<Rightarrow> bool" where
  "covers l a = (case l of None \<Rightarrow> True | Some x \<Rightarrow> a \<le> x)"

lemma budget_level_refill [simp]: "budget_level now (map_option (bucket_refill now) bu) = budget_level now bu"
  by (cases bu) (simp_all add: budget_level_def bucket_level_def Let_def)

lemma budget_level_pay:
  "0 \<le> a \<Longrightarrow> budget_level now (pay a now bu) = map_option (\<lambda>l. l - a) (budget_level now bu)"
  by (cases bu) (simp_all add: budget_level_def bucket_level_def pay_eq Let_def, simp add: bucket_refill_def Let_def)

lemma shortfall_covers: "shortfall a now bu = None \<longleftrightarrow> covers (budget_level now bu) a"
  by (cases bu) (simp_all add: shortfall_eq covers_def budget_level_def bucket_level_def Let_def not_less)

text \<open>A refusal costs nothing and an admission costs exactly itself. A refused request leaves
  both budgets at the level they had refilled to and only counts the refusal; an admitted one
  finds one request and its prompt's tokens in the budgets and takes exactly those.\<close>

theorem refusal_costs_nothing:
  "(case check_request p now L of
      (Some rj, L') \<Rightarrow> budget_level now (tl_rpm L') = budget_level now (tl_rpm L)
        \<and> budget_level now (tl_tpm L') = budget_level now (tl_tpm L)
        \<and> \<not> (covers (budget_level now (tl_rpm L)) 1 \<and> covers (budget_level now (tl_tpm L)) (of_int p))
        \<and> tl_admitted L' = tl_admitted L \<and> tl_rejected L' = tl_rejected L + 1
        \<and> tl_tokens L' = tl_tokens L \<and> tl_in_flight L' = tl_in_flight L
    | (None, L') \<Rightarrow> covers (budget_level now (tl_rpm L)) 1
        \<and> budget_level now (tl_rpm L') = map_option (\<lambda>l. l - 1) (budget_level now (tl_rpm L))
        \<and> (p \<le> 0 \<or> covers (budget_level now (tl_tpm L)) (of_int p))
        \<and> budget_level now (tl_tpm L') = map_option (\<lambda>l. l - of_int (max 0 p)) (budget_level now (tl_tpm L))
        \<and> tl_admitted L' = tl_admitted L + 1 \<and> tl_rejected L' = tl_rejected L \<and> tl_in_flight L' = tl_in_flight L)"
proof (cases rule: check_request_cases [of now L p])
  case (rpm w)
  then have "\<not> covers (budget_level now (tl_rpm L)) 1" using shortfall_covers [of 1 now "tl_rpm L"] by simp
  then show ?thesis using rpm by (simp add: reject_request_def)
next
  case (tpm w)
  then have "\<not> covers (budget_level now (tl_tpm L)) (of_int p)" using shortfall_covers [of "of_int p" now "tl_tpm L"] by simp
  then show ?thesis using tpm by (simp add: reject_request_def)
next
  case admit
  have l: "map_option (\<lambda>l. l - of_int (max 0 p)) bl = bl" if "\<not> 0 < p" for bl :: "rat option"
    using that by (cases bl) (simp_all add: max_def)
  show ?thesis using admit l by (cases "0 < p") (simp_all add: budget_level_pay flip: shortfall_covers)
qed

lemma level_kept:
  assumes "bucket_ok n b" "a \<le> bk_level b"
  shows "a \<le> bk_level (bucket_refill t b)"
  using refill_level_ge [of b t] assms by (simp add: bucket_ok_def)

lemma check_refusal:
  "map_option rj_limit (fst (check_request p t L)) =
     (if shortfall 1 t (tl_rpm L) \<noteq> None then Some Rpm
      else if 0 < p \<and> shortfall (of_int p) t (tl_tpm L) \<noteq> None then Some Tpm else None)"
  by (cases rule: check_request_cases [of t L p]) (auto simp: reject_request_def)

lemma shortfall_later:
  assumes "budget_ok l bu" "shortfall a now bu = Some w" "\<And>b. bu = Some b \<Longrightarrow> bk_updated b \<le> now" "now \<le> t"
    and "case l of None \<Rightarrow> False | Some n \<Rightarrow> a \<le> rat_of_nat n"
  shows "shortfall a t (map_option (bucket_refill now) bu) \<noteq> None \<longleftrightarrow> t < now + max 0 w"
proof -
  obtain b where b: "bu = Some b" using assms(2) by (auto simp: shortfall_def split: option.splits)
  obtain n where n: "l = Some n" "bucket_ok n b" "a \<le> rat_of_nat n"
    using assms(1,5) b by (auto simp: budget_ok_def split: option.splits)
  let ?b = "bucket_refill now b"
  have w: "bk_level ?b < a" "w = (a - bk_level ?b) / bk_rate b"
    using assms(2) b by (auto simp: shortfall_eq split: if_split_asm)
  have pos: "0 < bk_rate ?b" "a \<le> bk_capacity ?b" using n by (simp_all add: bucket_ok_def)
  have u: "bk_updated ?b = now" using assms(3) b by simp
  have "0 \<le> w" using w pos by simp
  then show ?thesis using wait_exact [OF pos w(1) u assms(4)] b w(2) by (simp add: shortfall_eq)
qed


definition demo_busy :: limiter where
  "demo_busy = fold limit_do [Check 80 1] demo_limiter"

definition demo_refused :: "rejection \<times> limiter" where
  "demo_refused = (case check_request 50 2 demo_busy of (Some rj, L) \<Rightarrow> (rj, L))"


text \<open>C33: A prompt larger than the token budget is refused for ever. Whatever traffic came before and
  at whatever time it is tried, the request is refused, although the refusal reports a finite wait.\<close>

theorem oversized_prompt_never_admitted:
  assumes "limiter_init t retry t0 = Inr L" "tn_tpm t = Some n" "int n < p"
  shows "\<exists>rj. fst (check_request p now (fold limit_do ops L)) = Some rj \<and> 0 \<le> rj_retry_after rj"
proof -
  let ?L = "fold limit_do ops L"
  have ok: "lim_ok ?L" "tl_tenant ?L = t"
    using limit_run_ok [OF limiter_init_ok(1) [OF assms(1)]] limiter_init_ok(2) [OF assms(1)] by auto
  obtain b where b: "tl_tpm ?L = Some b" "bucket_ok n b"
    using ok assms(2) by (auto simp: lim_ok_def budget_ok_def split: option.splits)
  have "bk_level (bucket_refill now b) \<le> rat_of_nat n"
    using bucket_ok_refill [OF b(2), of now] by (simp add: bucket_ok_def)
  also have "\<dots> < of_int p" using assms(3) by (metis of_int_less_iff of_int_of_nat_eq)
  finally have no: "shortfall (of_int p) now (tl_tpm ?L) \<noteq> None" using b by (simp add: shortfall_eq)
  have p: "0 < p" using assms(3) by simp
  show ?thesis
    by (cases rule: check_request_cases [of now ?L p]) (use no p in \<open>auto simp: reject_request_def\<close>)
qed

theorem oversized_prompt_never_admitted_witness:
  "\<exists>rj. fst (check_request 101 100000 (fold limit_do demo_traffic demo_limiter)) = Some rj \<and> 0 \<le> rj_retry_after rj"
  by (rule oversized_prompt_never_admitted [OF demo_limiter_init, of 100])
    (simp_all add: demo_limited_def)

end
