(* ===== verification/Canary.thy ===== *)
theory Canary
  imports Prelude Complex_Main
begin

text \<open>
  The canary controller: \<open>src/turboserve/canary/controller.py\<close> (observations, sliding windows,
  the rollout policy and the rollout state machine) and \<open>percentile\<close> of
  \<open>src/turboserve/bench/records.py\<close>.

  Times, latencies and rates are rationals where the code has floats; the clock reading is the
  argument \<open>now\<close>. The text of a decision's reason is a constructor of \<open>reason\<close>.
\<close>

section \<open>Percentiles\<close>

definition percentile :: "rat list \<Rightarrow> rat \<Rightarrow> py_error + rat option" where
  "percentile values q =
     (if q < 0 \<or> 100 < q then Inl ValueError
      else if values = [] then Inr None
      else let ordered = sort values in
        if length ordered = 1 then Inr (Some (ordered ! 0))
        else let rank = (q / 100) * (rat_of_nat (length ordered) - 1);
                 low = nat \<lfloor>rank\<rfloor>; high = nat \<lceil>rank\<rceil> in
          if low = high then Inr (Some (ordered ! low))
          else Inr (Some (ordered ! low + (ordered ! high - ordered ! low) * (rank - rat_of_nat low))))"

section \<open>Observations\<close>

datatype lane = StableLane | CanaryLane

record sample =
  sa_t :: rat
  sa_ok :: bool
  sa_ttft :: "rat option"
  sa_e2e :: "rat option"

record lane_summary =
  sm_lane :: lane
  sm_requests :: int
  sm_errors :: int
  sm_p95_ttft :: "rat option"
  sm_p95_e2e :: "rat option"
  sm_window :: "rat option"

definition summary_check :: "lane_summary \<Rightarrow> py_error + lane_summary" where
  "summary_check s =
     (if sm_requests s < 0 then Inl ValueError
      else if \<not> (0 \<le> sm_errors s \<and> sm_errors s \<le> sm_requests s) then Inl ValueError
      else Inr s)"

definition error_rate :: "lane_summary \<Rightarrow> rat" where
  "error_rate s = (if sm_requests s \<noteq> 0 then of_int (sm_errors s) / of_int (sm_requests s) else 0)"

text \<open>\<open>wn_now\<close> is \<open>None\<close> for minus infinity.\<close>

record lane_window =
  wn_lane :: lane
  wn_window :: rat
  wn_max :: nat
  wn_samples :: "sample list"
  wn_now :: "rat option"

definition window_init :: "lane \<Rightarrow> rat \<Rightarrow> int \<Rightarrow> py_error + lane_window" where
  "window_init lane window_s max_samples =
     (if window_s \<le> 0 then Inl ValueError
      else if max_samples < 1 then Inl ValueError
      else Inr \<lparr>wn_lane = lane, wn_window = window_s, wn_max = nat max_samples, wn_samples = [], wn_now = None\<rparr>)"

definition later :: "rat option \<Rightarrow> rat \<Rightarrow> rat" where
  "later seen now = (case seen of None \<Rightarrow> now | Some s \<Rightarrow> max s now)"

definition window_prune :: "rat \<Rightarrow> lane_window \<Rightarrow> lane_window" where
  "window_prune now w =
     (let latest = later (wn_now w) now; cutoff = latest - wn_window w in
      w\<lparr>wn_now := Some latest, wn_samples := dropWhile (\<lambda>s. sa_t s < cutoff) (wn_samples w)\<rparr>)"

text \<open>Appending to a \<open>deque\<close> with a \<open>maxlen\<close>.\<close>

definition deque_append :: "nat \<Rightarrow> 'a \<Rightarrow> 'a list \<Rightarrow> 'a list" where
  "deque_append m x xs = drop (Suc (length xs) - m) (xs @ [x])"

definition window_observe :: "sample \<Rightarrow> lane_window \<Rightarrow> lane_window" where
  "window_observe s w =
     (let w' = window_prune (sa_t s) w in
      if sa_t s < the (wn_now w') - wn_window w' then w'
      else w'\<lparr>wn_samples := deque_append (wn_max w') s (wn_samples w')\<rparr>)"

definition window_clear :: "lane_window \<Rightarrow> lane_window" where
  "window_clear w = w\<lparr>wn_samples := [], wn_now := None\<rparr>"

definition p95 :: "rat list \<Rightarrow> rat option" where
  "p95 values = (case percentile values 95 of Inl _ \<Rightarrow> None | Inr p \<Rightarrow> p)"

definition ok_values :: "(sample \<Rightarrow> rat option) \<Rightarrow> sample list \<Rightarrow> rat list" where
  "ok_values f ss = map (\<lambda>s. the (f s)) (filter (\<lambda>s. sa_ok s \<and> f s \<noteq> None) ss)"

definition summarise :: "lane \<Rightarrow> rat \<Rightarrow> sample list \<Rightarrow> lane_summary" where
  "summarise lane window_s ss = \<lparr>sm_lane = lane, sm_requests = int (length ss),
     sm_errors = int (length (filter (\<lambda>s. \<not> sa_ok s) ss)),
     sm_p95_ttft = p95 (ok_values sa_ttft ss), sm_p95_e2e = p95 (ok_values sa_e2e ss),
     sm_window = Some window_s\<rparr>"

definition window_summary :: "rat \<Rightarrow> lane_window \<Rightarrow> lane_summary \<times> lane_window" where
  "window_summary now w =
     (let w' = window_prune now w in (summarise (wn_lane w') (wn_window w') (wn_samples w'), w'))"

section \<open>The policy\<close>

record canary_config =
  cn_steps :: "int list"
  cn_step_hold :: rat
  cn_window :: rat
  cn_min_requests :: int
  cn_max_error_rate :: rat
  cn_max_p95_ttft :: "rat option"
  cn_max_ratio :: rat
  cn_stall_timeout :: "rat option"
  cn_max_samples :: int

definition positive_opt :: "rat option \<Rightarrow> bool" where
  "positive_opt x = (case x of None \<Rightarrow> True | Some r \<Rightarrow> 0 < r)"

definition steps_check :: "int list \<Rightarrow> py_error + int list" where
  "steps_check steps =
     (if steps = [] then Inl ValueError
      else if \<not> list_all (\<lambda>s. 1 \<le> s \<and> s \<le> 100) steps then Inl ValueError
      else if list_ex (\<lambda>(earlier, later). later \<le> earlier) (zip steps (tl steps)) then Inl ValueError
      else if last steps \<noteq> 100 then Inl ValueError
      else Inr steps)"

definition config_validate :: "canary_config \<Rightarrow> py_error + canary_config" where
  "config_validate c =
     (if cn_step_hold c \<le> 0 \<or> cn_window c \<le> 0 \<or> cn_min_requests c < 1
         \<or> cn_max_error_rate c < 0 \<or> 1 < cn_max_error_rate c \<or> \<not> positive_opt (cn_max_p95_ttft c)
         \<or> cn_max_ratio c \<le> 0 \<or> \<not> positive_opt (cn_stall_timeout c) \<or> cn_max_samples c < 1
      then Inl ValueError
      else rbind (steps_check (cn_steps c)) (\<lambda>_. Inr c))"

section \<open>Decisions and the controller\<close>

datatype canary_error = CanaryError | CanaryValueError

datatype rollout_state = Idle | Rolling | Promoted | RolledBack

datatype decision_kind = Hold | Advance | Promote | Rollback

datatype reason =
    Started | AbortedBy string | NotRunning | Stalled | WaitingForTraffic | StepHealthy
  | AllStepsHeld | StepHeld | ErrorRateOver | TtftOver | RatioOver lane_latency
and lane_latency = TTFT | E2E

record decision =
  dc_kind :: decision_kind
  dc_reason :: reason
  dc_at :: rat
  dc_state :: rollout_state
  dc_weight :: int
  dc_step :: nat
  dc_version :: "string option"
  dc_stable :: "lane_summary option"
  dc_canary :: "lane_summary option"

record controller =
  cc_config :: canary_config
  cc_state :: rollout_state
  cc_version :: "string option"
  cc_step :: nat
  cc_started :: rat
  cc_history :: "decision list"
  cc_stable :: lane_window
  cc_canary :: lane_window

definition cc_init :: "canary_config \<Rightarrow> py_error + controller" where
  "cc_init c =
     rbind (window_init StableLane (cn_window c) (cn_max_samples c)) (\<lambda>ws.
     rbind (window_init CanaryLane (cn_window c) (cn_max_samples c)) (\<lambda>wc.
     Inr \<lparr>cc_config = c, cc_state = Idle, cc_version = None, cc_step = 0, cc_started = 0,
          cc_history = [], cc_stable = ws, cc_canary = wc\<rparr>))"

definition canary_weight :: "controller \<Rightarrow> int" where
  "canary_weight k =
     (case cc_state k of Rolling \<Rightarrow> cn_steps (cc_config k) ! cc_step k | Promoted \<Rightarrow> 100 | _ \<Rightarrow> 0)"

definition canary_fraction :: "controller \<Rightarrow> rat" where
  "canary_fraction k = of_int (canary_weight k) / 100"

definition stable_weight :: "controller \<Rightarrow> int" where
  "stable_weight k = 100 - canary_weight k"

definition cc_record ::
  "decision_kind \<Rightarrow> reason \<Rightarrow> rat \<Rightarrow> lane_summary option \<Rightarrow> lane_summary option \<Rightarrow> controller \<Rightarrow> decision \<times> controller" where
  "cc_record kind why moment st ca k =
     (let d = \<lparr>dc_kind = kind, dc_reason = why, dc_at = moment, dc_state = cc_state k, dc_weight = canary_weight k,
               dc_step = cc_step k, dc_version = cc_version k, dc_stable = st, dc_canary = ca\<rparr>
      in (d, k\<lparr>cc_history := cc_history k @ [d]\<rparr>))"

definition cc_start :: "string \<Rightarrow> rat \<Rightarrow> controller \<Rightarrow> canary_error + (decision \<times> controller)" where
  "cc_start version now k =
     (if cc_state k = Rolling then Inl CanaryError
      else if version = [] then Inl CanaryValueError
      else Inr (cc_record Advance Started now None None
        (k\<lparr>cc_version := Some version, cc_step := 0, cc_started := now, cc_state := Rolling, cc_history := [],
           cc_stable := window_clear (cc_stable k), cc_canary := window_clear (cc_canary k)\<rparr>)))"

definition cc_abort :: "string \<Rightarrow> rat \<Rightarrow> controller \<Rightarrow> canary_error + (decision \<times> controller)" where
  "cc_abort why now k =
     (if cc_state k \<noteq> Rolling then Inl CanaryError
      else Inr (cc_record Rollback (AbortedBy why) now None None (k\<lparr>cc_state := RolledBack\<rparr>)))"

definition cc_reset :: "controller \<Rightarrow> controller" where
  "cc_reset k = k\<lparr>cc_state := Idle, cc_version := None, cc_step := 0, cc_started := 0, cc_history := [],
     cc_stable := window_clear (cc_stable k), cc_canary := window_clear (cc_canary k)\<rparr>"

definition cc_observe :: "lane \<Rightarrow> sample \<Rightarrow> controller \<Rightarrow> controller" where
  "cc_observe lane s k =
     (case lane of StableLane \<Rightarrow> k\<lparr>cc_stable := window_observe s (cc_stable k)\<rparr>
      | CanaryLane \<Rightarrow> k\<lparr>cc_canary := window_observe s (cc_canary k)\<rparr>)"

definition ratio_over :: "rat \<Rightarrow> rat option \<Rightarrow> rat option \<Rightarrow> bool" where
  "ratio_over limit ca st =
     (case (ca, st) of (Some c, Some s) \<Rightarrow> 0 < s \<and> limit < c / s | _ \<Rightarrow> False)"

definition breach :: "canary_config \<Rightarrow> lane_summary \<Rightarrow> lane_summary \<Rightarrow> reason option" where
  "breach c st ca =
     (if cn_max_error_rate c < error_rate ca then Some ErrorRateOver
      else if (case (cn_max_p95_ttft c, sm_p95_ttft ca) of (Some m, Some p) \<Rightarrow> m < p | _ \<Rightarrow> False) then Some TtftOver
      else if sm_requests st < cn_min_requests c then None
      else if ratio_over (cn_max_ratio c) (sm_p95_ttft ca) (sm_p95_ttft st) then Some (RatioOver TTFT)
      else if ratio_over (cn_max_ratio c) (sm_p95_e2e ca) (sm_p95_e2e st) then Some (RatioOver E2E)
      else None)"

text \<open>The gates, once both lanes' summaries are known.\<close>

definition judge :: "rat \<Rightarrow> lane_summary \<Rightarrow> lane_summary \<Rightarrow> controller \<Rightarrow> decision \<times> controller" where
  "judge now st ca k =
     (let c = cc_config k; elapsed = now - cc_started k in
      if sm_requests ca < cn_min_requests c then
        (if (case cn_stall_timeout c of None \<Rightarrow> False | Some s \<Rightarrow> s \<le> elapsed)
         then cc_record Rollback Stalled now (Some st) (Some ca) (k\<lparr>cc_state := RolledBack\<rparr>)
         else cc_record Hold WaitingForTraffic now (Some st) (Some ca) k)
      else case breach c st ca of
        Some why \<Rightarrow> cc_record Rollback why now (Some st) (Some ca) (k\<lparr>cc_state := RolledBack\<rparr>)
      | None \<Rightarrow>
          if elapsed < cn_step_hold c then cc_record Hold StepHealthy now (Some st) (Some ca) k
          else if length (cn_steps c) - 1 \<le> cc_step k
          then cc_record Promote AllStepsHeld now (Some st) (Some ca) (k\<lparr>cc_state := Promoted\<rparr>)
          else cc_record Advance StepHeld now (Some st) (Some ca) (k\<lparr>cc_step := cc_step k + 1, cc_started := now\<rparr>))"

definition cc_tick ::
  "rat \<Rightarrow> lane_summary option \<Rightarrow> lane_summary option \<Rightarrow> controller \<Rightarrow> decision \<times> controller" where
  "cc_tick now so co k =
     (if cc_state k \<noteq> Rolling
      then (\<lparr>dc_kind = Hold, dc_reason = NotRunning, dc_at = now, dc_state = cc_state k, dc_weight = canary_weight k,
             dc_step = cc_step k, dc_version = cc_version k, dc_stable = None, dc_canary = None\<rparr>, k)
      else let (st, k1) = (case so of Some s \<Rightarrow> (s, k)
                 | None \<Rightarrow> (let (s, w) = window_summary now (cc_stable k) in (s, k\<lparr>cc_stable := w\<rparr>)));
               (ca, k2) = (case co of Some s \<Rightarrow> (s, k1)
                 | None \<Rightarrow> (let (s, w) = window_summary now (cc_canary k1) in (s, k1\<lparr>cc_canary := w\<rparr>)))
           in judge now st ca k2)"

section \<open>Windows hold the recent samples\<close>

text \<open>The last \<open>m\<close> of the observations that are at most a window old.\<close>

definition lastn :: "nat \<Rightarrow> 'a list \<Rightarrow> 'a list" where
  "lastn m xs = drop (length xs - m) xs"

definition recent :: "rat \<Rightarrow> rat \<Rightarrow> nat \<Rightarrow> sample list \<Rightarrow> sample list" where
  "recent now window_s m obs = lastn m (filter (\<lambda>s. now - window_s \<le> sa_t s) obs)"

definition in_order :: "sample list \<Rightarrow> bool" where
  "in_order obs \<longleftrightarrow> sorted (map sa_t obs)"

lemma lastn_short: "length xs \<le> m \<Longrightarrow> lastn m xs = xs"
  by (simp add: lastn_def)

lemma lastn_Cons: "m \<le> length xs \<Longrightarrow> lastn m (x # xs) = lastn m xs"
  by (simp add: lastn_def Suc_diff_le)

lemma in_order_lastn: "in_order xs \<Longrightarrow> in_order (lastn m xs)"
  by (simp add: in_order_def lastn_def drop_map [symmetric] sorted_wrt_drop)

lemma in_order_filter: "in_order xs \<Longrightarrow> in_order (filter P xs)"
  by (simp add: in_order_def sorted_filter)

lemma dropWhile_recent: "in_order xs \<Longrightarrow> dropWhile (\<lambda>s. sa_t s < c) xs = filter (\<lambda>s. c \<le> sa_t s) xs"
  by (induction xs) (force simp: in_order_def intro!: filter_True [symmetric])+

lemma filter_lastn:
  "in_order xs \<Longrightarrow> filter (\<lambda>s. c \<le> sa_t s) (lastn m xs) = lastn m (filter (\<lambda>s. c \<le> sa_t s) xs)"
proof (induction xs)
  case (Cons x xs)
  have io: "in_order xs" "\<forall>y \<in> set xs. sa_t x \<le> sa_t y" using Cons.prems by (auto simp: in_order_def)
  show ?case
  proof (cases "c \<le> sa_t x")
    case True
    then have all: "filter (\<lambda>s. c \<le> sa_t s) (x # xs) = x # xs" "\<forall>y \<in> set (x # xs). c \<le> sa_t y"
      using io(2) by (auto intro!: filter_True)
    have "\<forall>y \<in> set (lastn m (x # xs)). c \<le> sa_t y" using all(2) set_drop_subset [of _ "x # xs"] unfolding lastn_def by blast
    then show ?thesis by (simp only: all(1) filter_True)
  next
    case False
    show ?thesis
    proof (cases "m \<le> length xs")
      case True
      then show ?thesis using Cons.IH [OF io(1)] False by (simp add: lastn_Cons)
    next
      case no: False
      have "length (filter (\<lambda>s. c \<le> sa_t s) xs) \<le> m"
        using no length_filter_le [of "\<lambda>s. c \<le> sa_t s" xs] by linarith
      then show ?thesis using no False by (simp add: lastn_short)
    qed
  qed
qed (simp add: lastn_def)

lemma recent_recent:
  assumes "in_order obs" "t \<le> now"
  shows "dropWhile (\<lambda>s. sa_t s < now - ws) (recent t ws m obs) = recent now ws m obs"
proof -
  have "in_order (recent t ws m obs)" using assms(1) by (simp add: recent_def in_order_lastn in_order_filter)
  moreover have "filter (\<lambda>s. t - ws \<le> sa_t s \<and> now - ws \<le> sa_t s) obs = filter (\<lambda>s. now - ws \<le> sa_t s) obs"
    using assms(2) by (intro filter_cong) auto
  ultimately show ?thesis
    using assms(1) by (simp add: dropWhile_recent recent_def filter_lastn in_order_filter)
qed

lemma lastn_snoc: "lastn m (lastn m xs @ [x]) = lastn m (xs @ [x])"
  by (cases "m \<le> length xs") (simp_all add: lastn_def Suc_diff_le)

lemma deque_append_lastn: "deque_append m x xs = lastn m (xs @ [x])"
  by (simp add: deque_append_def lastn_def)

definition window_of :: "lane \<Rightarrow> rat \<Rightarrow> nat \<Rightarrow> sample list \<Rightarrow> lane_window \<Rightarrow> bool" where
  "window_of lane ws m obs w \<longleftrightarrow> wn_lane w = lane \<and> wn_window w = ws \<and> wn_max w = m
     \<and> (case wn_now w of None \<Rightarrow> obs = [] \<and> wn_samples w = []
        | Some t \<Rightarrow> wn_samples w = recent t ws m obs \<and> (\<forall>s \<in> set obs. sa_t s \<le> t))"

lemma window_prune_of:
  assumes "window_of lane ws m obs w" "in_order obs" "\<And>t. wn_now w = Some t \<Longrightarrow> t \<le> now"
  shows "window_of lane ws m obs (window_prune now w) \<and> wn_now (window_prune now w) = Some now
    \<and> wn_samples (window_prune now w) = recent now ws m obs"
proof (cases "wn_now w")
  case None
  then show ?thesis using assms(1) by (simp add: window_of_def window_prune_def later_def recent_def lastn_def Let_def)
next
  case (Some t)
  have t: "t \<le> now" using assms(3) Some by simp
  then show ?thesis using assms(1,2) Some recent_recent [OF assms(2) t]
    by (auto simp: window_of_def window_prune_def later_def Let_def max_absorb2)
qed

lemma window_observe_of:
  assumes "window_of lane ws m obs w" "in_order (obs @ [s])" "0 < ws" "\<And>t. wn_now w = Some t \<Longrightarrow> t \<le> sa_t s"
  shows "window_of lane ws m (obs @ [s]) (window_observe s w) \<and> wn_now (window_observe s w) = Some (sa_t s)"
proof -
  have io: "in_order obs" "\<forall>x \<in> set obs. sa_t x \<le> sa_t s"
    using assms(2) by (auto simp: in_order_def sorted_append)
  note P = window_prune_of [OF assms(1) io(1) assms(4)]
  have "recent (sa_t s) ws m (obs @ [s]) = lastn m (recent (sa_t s) ws m obs @ [s])"
    using assms(3) by (simp add: recent_def lastn_snoc)
  then show ?thesis
    using P io(2) assms(3) by (auto simp: window_observe_def window_of_def deque_append_lastn Let_def)
qed

lemma window_run:
  assumes "window_of lane ws m [] w" "wn_now w = None" "in_order obs" "0 < ws"
  shows "window_of lane ws m obs (fold window_observe obs w)
    \<and> wn_now (fold window_observe obs w) = (if obs = [] then None else Some (sa_t (last obs)))"
  using assms(3)
proof (induction obs rule: rev_induct)
  case Nil
  then show ?case using assms(1,2) by simp
next
  case (snoc s obs)
  have io: "in_order obs" "\<forall>x \<in> set obs. sa_t x \<le> sa_t s"
    using snoc.prems by (auto simp: in_order_def sorted_append)
  note ih = snoc.IH [OF io(1)]
  have le: "wn_now (fold window_observe obs w) = Some t \<Longrightarrow> t \<le> sa_t s" for t
    using ih io(2) by (cases "obs = []") auto
  have "window_of lane ws m obs (fold window_observe obs w)" using ih by simp
  from window_observe_of [OF this snoc.prems assms(4) le] show ?case by simp
qed

section \<open>Percentiles\<close>

text \<open>The value at a rank between two positions, by linear interpolation.\<close>

definition interpolate :: "rat list \<Rightarrow> rat \<Rightarrow> rat" where
  "interpolate xs r = xs ! nat \<lfloor>r\<rfloor> + (xs ! nat \<lceil>r\<rceil> - xs ! nat \<lfloor>r\<rfloor>) * (r - rat_of_nat (nat \<lfloor>r\<rfloor>))"

definition rank_of :: "rat \<Rightarrow> rat list \<Rightarrow> rat" where
  "rank_of q values = (q / 100) * (rat_of_nat (length values) - 1)"

lemma rank_range:
  assumes "0 \<le> q" "q \<le> 100" "values \<noteq> []"
  shows "0 \<le> rank_of q values" "rank_of q values \<le> rat_of_nat (length values - 1)"
proof -
  have l: "rat_of_nat (length values) - 1 = rat_of_nat (length values - 1)" using assms(3) by (cases "values") simp_all
  show "0 \<le> rank_of q values" using assms by (simp add: rank_of_def l)
  have "(q / 100) * rat_of_nat (length values - 1) \<le> 1 * rat_of_nat (length values - 1)"
    using assms by (intro mult_right_mono) simp_all
  then show "rank_of q values \<le> rat_of_nat (length values - 1)" by (simp add: rank_of_def l)
qed

lemma percentile_eq:
  assumes "0 \<le> q" "q \<le> 100" "values \<noteq> []"
  shows "percentile values q = Inr (Some (interpolate (sort values) (rank_of q values)))"
proof (cases "length values = 1")
  case True
  then show ?thesis using assms by (simp add: percentile_def interpolate_def rank_of_def)
next
  case False
  then show ?thesis using assms by (simp add: percentile_def interpolate_def rank_of_def Let_def)
qed

lemma nth_sorted_mono: "sorted xs \<Longrightarrow> i \<le> j \<Longrightarrow> j < length xs \<Longrightarrow> xs ! i \<le> (xs ! j :: rat)"
  by (rule sorted_nth_mono)

lemma interpolate_between:
  assumes "sorted xs" "0 \<le> r" "r \<le> rat_of_nat (length xs - 1)" "xs \<noteq> []"
  shows "xs ! nat \<lfloor>r\<rfloor> \<le> interpolate xs r" "interpolate xs r \<le> xs ! nat \<lceil>r\<rceil>"
    "nat \<lceil>r\<rceil> < length xs" "nat \<lfloor>r\<rfloor> \<le> nat \<lceil>r\<rceil>"
proof -
  show hi: "nat \<lceil>r\<rceil> < length xs"
  proof -
    have "\<lceil>r\<rceil> \<le> int (length xs - 1)" using assms(3) by (simp add: ceiling_le_iff)
    then show ?thesis using assms(4) by (cases xs) auto
  qed
  show le: "nat \<lfloor>r\<rfloor> \<le> nat \<lceil>r\<rceil>" by (intro nat_mono) (simp add: floor_le_ceiling)
  let ?d = "xs ! nat \<lceil>r\<rceil> - xs ! nat \<lfloor>r\<rfloor>" and ?f = "r - rat_of_nat (nat \<lfloor>r\<rfloor>)"
  have d: "0 \<le> ?d" using nth_sorted_mono [OF assms(1) le hi] by simp
  have fl: "rat_of_nat (nat \<lfloor>r\<rfloor>) = of_int \<lfloor>r\<rfloor>" using assms(2) by simp
  have f: "0 \<le> ?f" "?f \<le> 1" unfolding fl by linarith+
  show "xs ! nat \<lfloor>r\<rfloor> \<le> interpolate xs r" using mult_nonneg_nonneg [OF d f(1)] by (simp add: interpolate_def)
  show "interpolate xs r \<le> xs ! nat \<lceil>r\<rceil>" using mult_left_le [OF f(2) d] by (simp add: interpolate_def)
qed

lemma interpolate_mono:
  assumes "sorted xs" "0 \<le> r" "r \<le> r'" "r' \<le> rat_of_nat (length xs - 1)" "xs \<noteq> []"
  shows "interpolate xs r \<le> interpolate xs r'"
proof -
  have r: "r \<le> rat_of_nat (length xs - 1)" "0 \<le> r'" using assms by simp_all
  note A = interpolate_between [OF assms(1,2) r(1) assms(5)] and B = interpolate_between [OF assms(1) r(2) assms(4,5)]
  show ?thesis
  proof (cases "\<lfloor>r\<rfloor> = \<lfloor>r'\<rfloor>")
    case same: True
    show ?thesis
    proof (cases "\<lceil>r\<rceil> = \<lceil>r'\<rceil>")
      case True
      have "0 \<le> xs ! nat \<lceil>r'\<rceil> - xs ! nat \<lfloor>r'\<rfloor>" using nth_sorted_mono [OF assms(1) B(4,3)] by simp
      then show ?thesis using assms(3) same True by (simp add: interpolate_def mult_left_mono)
    next
      case False
      have "r = of_int \<lfloor>r\<rfloor>"
      proof (rule ccontr)
        assume frac: "r \<noteq> of_int \<lfloor>r\<rfloor>"
        then have "of_int \<lfloor>r'\<rfloor> < r'" using same assms(3) of_int_floor_le [of r] by linarith
        then show False using False frac same by (simp add: ceiling_altdef split: if_splits)
      qed
      then have "\<lceil>r\<rceil> = \<lfloor>r\<rfloor>" by (metis ceiling_of_int)
      then show ?thesis using A(2) B(1) same by simp
    qed
  next
    case False
    then have "\<lceil>r\<rceil> \<le> \<lfloor>r'\<rfloor>" using assms(3) by linarith
    then have "xs ! nat \<lceil>r\<rceil> \<le> xs ! nat \<lfloor>r'\<rfloor>"
      using le_less_trans [OF B(4,3)] by (intro nth_sorted_mono [OF assms(1)]) (simp_all add: nat_mono)
    then show ?thesis using A(2) B(1) by linarith
  qed
qed

section \<open>Rollouts\<close>

datatype canary_op =
    Observe lane sample | Tick rat "lane_summary option" "lane_summary option"
  | StartRollout string rat | AbortRollout string rat | ResetRollout

text \<open>A call that raises leaves the controller as it was.\<close>

fun canary_do :: "canary_op \<Rightarrow> controller \<Rightarrow> controller" where
  "canary_do (Observe l s) k = cc_observe l s k"
| "canary_do (Tick now so co) k = snd (cc_tick now so co k)"
| "canary_do (StartRollout v now) k = (case cc_start v now k of Inl _ \<Rightarrow> k | Inr (_, k') \<Rightarrow> k')"
| "canary_do (AbortRollout why now) k = (case cc_abort why now k of Inl _ \<Rightarrow> k | Inr (_, k') \<Rightarrow> k')"
| "canary_do ResetRollout k = cc_reset k"

definition is_move :: "decision \<Rightarrow> bool" where
  "is_move d \<longleftrightarrow> dc_kind d = Advance \<or> dc_kind d = Promote"

definition moves :: "decision list \<Rightarrow> decision list" where
  "moves h = filter is_move h"

text \<open>The evidence a decision was taken on passes every gate.\<close>

definition healthy :: "canary_config \<Rightarrow> decision \<Rightarrow> bool" where
  "healthy c d = (case (dc_stable d, dc_canary d) of
      (Some st, Some ca) \<Rightarrow> cn_min_requests c \<le> sm_requests ca \<and> breach c st ca = None
    | _ \<Rightarrow> False)"

definition held_step :: "canary_config \<Rightarrow> decision \<Rightarrow> decision \<Rightarrow> bool" where
  "held_step c d e \<longleftrightarrow> cn_step_hold c \<le> dc_at e - dc_at d \<and> healthy c e"

definition climbed :: "canary_config \<Rightarrow> int list \<Rightarrow> decision list \<Rightarrow> bool" where
  "climbed c ws ds \<longleftrightarrow> map dc_weight ds = ws \<and> successively (held_step c) ds"

definition rollout_ok :: "controller \<Rightarrow> bool" where
  "rollout_ok k \<longleftrightarrow> (let c = cc_config k; ms = moves (cc_history k) in
     cn_steps c \<noteq> [] \<and>
     (case cc_state k of
        Rolling \<Rightarrow> cc_step k < length (cn_steps c) \<and> climbed c (take (Suc (cc_step k)) (cn_steps c)) ms
          \<and> dc_at (last ms) = cc_started k
      | Promoted \<Rightarrow> climbed c (cn_steps c @ [100]) ms
      | _ \<Rightarrow> True))"

lemma climbed_snoc:
  assumes "climbed c ws ds" "ds \<noteq> []" "held_step c (last ds) d"
  shows "climbed c (ws @ [dc_weight d]) (ds @ [d])"
  using assms by (simp add: climbed_def successively_append_iff)

lemma moves_snoc [simp]: "moves (h @ [d]) = (if is_move d then moves h @ [d] else moves h)"
  by (simp add: moves_def)

lemma judge_ok:
  assumes ok: "rollout_ok k" and roll: "cc_state k = Rolling"
  shows "rollout_ok (snd (judge now st ca k))"
proof -
  let ?c = "cc_config k" and ?ms = "moves (cc_history k)"
  have R: "cn_steps ?c \<noteq> []" "cc_step k < length (cn_steps ?c)"
    "climbed ?c (take (Suc (cc_step k)) (cn_steps ?c)) ?ms" "dc_at (last ?ms) = cc_started k"
    using ok roll by (simp_all add: rollout_ok_def Let_def)
  have ne: "?ms \<noteq> []" using R(2,3) by (auto simp: climbed_def)
  have T: "take (Suc (Suc (cc_step k))) (cn_steps ?c) = take (Suc (cc_step k)) (cn_steps ?c) @ [cn_steps ?c ! Suc (cc_step k)]"
    if "Suc (cc_step k) < length (cn_steps ?c)" using that by (rule take_Suc_conv_app_nth)
  show ?thesis
  proof (cases "sm_requests ca < cn_min_requests ?c")
    case True
    then show ?thesis using R roll
      by (simp add: judge_def cc_record_def rollout_ok_def is_move_def Let_def split: option.splits)
  next
    case enough: False
    show ?thesis
    proof (cases "breach ?c st ca")
      case (Some why)
      then show ?thesis using enough R roll by (simp add: judge_def cc_record_def rollout_ok_def is_move_def Let_def)
    next
      case None
      show ?thesis
      proof (cases "now - cc_started k < cn_step_hold ?c")
        case True
        then show ?thesis using enough None R roll by (simp add: judge_def cc_record_def rollout_ok_def is_move_def Let_def)
      next
        case held: False
        have H: "held_step ?c (last ?ms) d" if "dc_at d = now" "dc_stable d = Some st" "dc_canary d = Some ca" for d
          using that held enough None R(4) by (simp add: held_step_def healthy_def)
        note C = climbed_snoc [OF R(3) ne H]
        show ?thesis
        proof (cases "length (cn_steps ?c) - 1 \<le> cc_step k")
          case True
          then have t: "take (Suc (cc_step k)) (cn_steps ?c) = cn_steps ?c" by simp
          define d where "d = fst (judge now st ca k)"
          have d: "dc_at d = now" "dc_stable d = Some st" "dc_canary d = Some ca" "dc_weight d = 100" "is_move d"
            "judge now st ca k = (d, k\<lparr>cc_state := Promoted, cc_history := cc_history k @ [d]\<rparr>)"
            using True held enough None by (simp_all add: d_def judge_def cc_record_def is_move_def canary_weight_def Let_def)
          show ?thesis using C [OF d(1-3)] R(1) t d(4-6)
            by (simp add: rollout_ok_def Let_def)
        next
          case False
          then have lt: "Suc (cc_step k) < length (cn_steps ?c)" by simp
          define d where "d = fst (judge now st ca k)"
          have d: "dc_at d = now" "dc_stable d = Some st" "dc_canary d = Some ca"
            "dc_weight d = cn_steps ?c ! Suc (cc_step k)" "is_move d"
            "judge now st ca k = (d, k\<lparr>cc_step := cc_step k + 1, cc_started := now, cc_history := cc_history k @ [d]\<rparr>)"
            using False held enough None roll
            by (simp_all add: d_def judge_def cc_record_def is_move_def canary_weight_def Let_def)
          show ?thesis using C [OF d(1-3)] R(1) lt T [OF lt] d(1,4-6) roll by (simp add: rollout_ok_def Let_def)
        qed
      qed
    qed
  qed
qed

lemma rollout_ok_frame:
  "rollout_ok k \<Longrightarrow> rollout_ok (k\<lparr>cc_stable := w\<rparr>)" "rollout_ok k \<Longrightarrow> rollout_ok (k\<lparr>cc_canary := w\<rparr>)"
  by (cases "cc_state k"; simp add: rollout_ok_def Let_def)+

lemma tick_judges:
  assumes "cc_state k = Rolling"
  obtains st ca w1 w2 where "cc_tick now so co k = judge now st ca (k\<lparr>cc_stable := w1, cc_canary := w2\<rparr>)"
proof -
  obtain s1 w1 where a: "window_summary now (cc_stable k) = (s1, w1)" by (cases "window_summary now (cc_stable k)")
  obtain s2 w2 where b: "window_summary now (cc_canary k) = (s2, w2)" by (cases "window_summary now (cc_canary k)")
  have "cc_tick now so co k = judge now (case so of None \<Rightarrow> s1 | Some s \<Rightarrow> s) (case co of None \<Rightarrow> s2 | Some s \<Rightarrow> s)
      (k\<lparr>cc_stable := (case so of None \<Rightarrow> w1 | Some _ \<Rightarrow> cc_stable k),
         cc_canary := (case co of None \<Rightarrow> w2 | Some _ \<Rightarrow> cc_canary k)\<rparr>)"
    using assms by (cases so; cases co) (simp_all add: cc_tick_def a b)
  then show thesis by (rule that)
qed

lemma rollout_tick_ok:
  assumes "rollout_ok k"
  shows "rollout_ok (snd (cc_tick now so co k))"
proof (cases "cc_state k = Rolling")
  case True
  obtain st ca w1 w2 where j: "cc_tick now so co k = judge now st ca (k\<lparr>cc_stable := w1, cc_canary := w2\<rparr>)"
    by (rule tick_judges [OF True])
  have "rollout_ok (k\<lparr>cc_stable := w1, cc_canary := w2\<rparr>)" by (intro rollout_ok_frame assms)
  then show ?thesis using judge_ok True j by simp
next
  case False
  then show ?thesis using assms by (simp add: cc_tick_def)
qed

lemma rollout_start_ok:
  assumes "cn_steps (cc_config k) \<noteq> []" "cc_start v now k = Inr (d, k')"
  shows "rollout_ok k'"
  using assms by (cases "cn_steps (cc_config k)")
    (auto simp: cc_start_def cc_record_def rollout_ok_def climbed_def moves_def is_move_def canary_weight_def Let_def
      split: if_splits)

lemma rollout_abort_ok:
  assumes "rollout_ok k" "cc_abort why now k = Inr (d, k')"
  shows "rollout_ok k'"
  using assms by (auto simp: cc_abort_def cc_record_def rollout_ok_def Let_def split: if_splits)

lemma rollout_ok_steps: "rollout_ok k \<Longrightarrow> cn_steps (cc_config k) \<noteq> []"
  by (simp add: rollout_ok_def Let_def)

lemma canary_do_config [simp]: "cc_config (canary_do x k) = cc_config k"
proof (cases x)
  case (Tick now so co)
  have j: "cc_config (snd (judge now st ca k)) = cc_config k" for st ca k
    by (simp add: judge_def cc_record_def Let_def split: option.splits)
  show ?thesis
  proof (cases "cc_state k = Rolling")
    case True
    show ?thesis by (rule tick_judges [OF True, of now so co]) (simp add: Tick j)
  qed (simp add: Tick cc_tick_def)
qed (auto simp: cc_observe_def cc_start_def cc_abort_def cc_record_def cc_reset_def Let_def split: lane.splits sum.splits if_splits)

lemma canary_do_ok:
  assumes "rollout_ok k"
  shows "rollout_ok (canary_do x k)"
proof (cases x)
  case (Observe l s)
  then show ?thesis using assms by (cases l) (simp_all add: cc_observe_def rollout_ok_frame)
next
  case (Tick now so co)
  then show ?thesis using rollout_tick_ok [OF assms] by simp
next
  case (StartRollout v now)
  then show ?thesis using assms rollout_start_ok [OF rollout_ok_steps [OF assms]] by (auto split: sum.split)
next
  case (AbortRollout why now)
  then show ?thesis using assms rollout_abort_ok by (auto split: sum.split)
next
  case ResetRollout
  then show ?thesis using rollout_ok_steps [OF assms] by (simp add: cc_reset_def rollout_ok_def)
qed

lemma canary_run_ok: "rollout_ok k \<Longrightarrow> rollout_ok (fold canary_do ops k) \<and> cc_config (fold canary_do ops k) = cc_config k"
  by (induction ops arbitrary: k) (simp_all add: canary_do_ok)

lemma cc_init_ok: "cc_init c = Inr k \<Longrightarrow> cn_steps c \<noteq> [] \<Longrightarrow> rollout_ok k \<and> cc_config k = c"
  by (auto simp: cc_init_def rollout_ok_def)

section \<open>What a router reads of a rollout\<close>

text \<open>
  The protocol \<open>CanaryWeightSource\<close> of the router: a weight in percent that observations do not
  move. A client that clamps the weight to a fraction then never changes it.
\<close>

locale weight_source =
  fixes weight :: "'c \<Rightarrow> int" and feed :: "'s \<Rightarrow> 'c \<Rightarrow> 'c" and sound :: "'c \<Rightarrow> bool"
  assumes weight_range: "sound c \<Longrightarrow> 0 \<le> weight c \<and> weight c \<le> 100"
    and feed_sound: "sound c \<Longrightarrow> sound (feed s c)"
    and feed_weight: "weight (feed s c) = weight c"
begin

lemma fraction_exact: "sound c \<Longrightarrow> min 1 (max 0 (rat_of_int (weight c) / 100)) = rat_of_int (weight c) / 100"
proof -
  assume "sound c"
  then have "0 \<le> rat_of_int (weight c)" "rat_of_int (weight c) \<le> 100" using weight_range [of c] by simp_all
  then show ?thesis by simp
qed

lemma traffic_keeps_weight: "sound c \<Longrightarrow> sound (fold feed ss c) \<and> weight (fold feed ss c) = weight c"
  by (induction ss arbitrary: c) (simp_all add: feed_sound feed_weight)

end

definition weights_ok :: "controller \<Rightarrow> bool" where
  "weights_ok k \<longleftrightarrow> rollout_ok k \<and> list_all (\<lambda>s. 1 \<le> s \<and> s \<le> 100) (cn_steps (cc_config k))"

definition cc_feed :: "lane \<times> sample \<Rightarrow> controller \<Rightarrow> controller" where
  "cc_feed ls k = cc_observe (fst ls) (snd ls) k"

lemma weights_ok_range: "weights_ok k \<Longrightarrow> 0 \<le> canary_weight k \<and> canary_weight k \<le> 100"
proof (cases "cc_state k")
  case Rolling
  assume ok: "weights_ok k"
  then have "cn_steps (cc_config k) ! cc_step k \<in> set (cn_steps (cc_config k))"
    using Rolling by (simp add: weights_ok_def rollout_ok_def Let_def)
  then show ?thesis using ok Rolling by (fastforce simp: weights_ok_def list_all_iff canary_weight_def)
qed (simp_all add: canary_weight_def)

interpretation rollout: weight_source canary_weight cc_feed weights_ok
proof
  show "\<And>c. weights_ok c \<Longrightarrow> 0 \<le> canary_weight c \<and> canary_weight c \<le> 100" by (rule weights_ok_range)
  show "weights_ok (cc_feed s c)" if "weights_ok c" for s c
    using that by (cases "fst s") (simp_all add: weights_ok_def cc_feed_def cc_observe_def rollout_ok_frame)
  show "canary_weight (cc_feed s c) = canary_weight c" for s c
    by (cases "fst s") (simp_all add: cc_feed_def cc_observe_def canary_weight_def split: rollout_state.split)
qed

section \<open>Properties\<close>

text \<open>C34: No build is promoted without climbing every step. However observations, ticks, starts,
  aborts and resets are interleaved, and wherever the gates' summaries come from, a controller that
  is in the promoted state has a history whose moves give the canary exactly the configured
  weights in order and then everything, each move at least the hold time after the one before and
  decided on enough requests with no gate breached.\<close>

theorem promotion_climbs_every_step:
  assumes "config_validate c = Inr c" "cc_init c = Inr k" "cc_state (fold canary_do ops k) = Promoted"
  shows "map dc_weight (moves (cc_history (fold canary_do ops k))) = cn_steps c @ [100]
    \<and> successively (\<lambda>d e. cn_step_hold c \<le> dc_at e - dc_at d \<and> healthy c e)
        (moves (cc_history (fold canary_do ops k)))"
proof -
  have "cn_steps c \<noteq> []" using assms(1) by (auto simp: config_validate_def steps_check_def split: if_splits)
  then have "rollout_ok (fold canary_do ops k)" "cc_config (fold canary_do ops k) = c"
    using canary_run_ok cc_init_ok [OF assms(2)] by auto
  then show ?thesis using assms(3) by (simp add: rollout_ok_def climbed_def held_step_def [abs_def] Let_def)
qed

definition demo_policy :: canary_config where
  "demo_policy = \<lparr>cn_steps = [10, 100], cn_step_hold = 5, cn_window = 10, cn_min_requests = 1,
     cn_max_error_rate = 1 / 2, cn_max_p95_ttft = None, cn_max_ratio = 2, cn_stall_timeout = None, cn_max_samples = 4\<rparr>"

definition demo_sample :: "rat \<Rightarrow> rat \<Rightarrow> sample" where
  "demo_sample t ms = \<lparr>sa_t = t, sa_ok = True, sa_ttft = Some ms, sa_e2e = None\<rparr>"

definition demo_controller :: controller where
  "demo_controller = (case cc_init demo_policy of Inr k \<Rightarrow> k)"

definition demo_rollout :: "canary_op list" where
  "demo_rollout = [StartRollout ''v2'' 0, Observe CanaryLane (demo_sample 1 20), Tick 4 None None,
     Tick 6 None None, Observe CanaryLane (demo_sample 9 20), Tick 12 None None]"

lemma demo_controller_init: "cc_init demo_policy = Inr demo_controller"
  by (simp add: demo_controller_def demo_policy_def cc_init_def window_init_def)

lemma demo_rollout_promoted: "cc_state (fold canary_do demo_rollout demo_controller) = Promoted"
  by (simp add: demo_rollout_def demo_controller_def demo_policy_def demo_sample_def cc_init_def window_init_def
      cc_start_def cc_record_def cc_tick_def judge_def cc_observe_def window_observe_def window_prune_def later_def
      window_clear_def window_summary_def summarise_def deque_append_def breach_def error_rate_def p95_def
      ok_values_def percentile_def ratio_over_def Let_def)

theorem promotion_climbs_every_step_witness:
  "map dc_weight (moves (cc_history (fold canary_do demo_rollout demo_controller))) = cn_steps demo_policy @ [100]
    \<and> successively (\<lambda>d e. cn_step_hold demo_policy \<le> dc_at e - dc_at d \<and> healthy demo_policy e)
        (moves (cc_history (fold canary_do demo_rollout demo_controller)))"
proof (rule promotion_climbs_every_step)
  show "config_validate demo_policy = Inr demo_policy"
    by (simp add: demo_policy_def config_validate_def steps_check_def positive_opt_def)
  show "cc_init demo_policy = Inr demo_controller" by (rule demo_controller_init)
  show "cc_state (fold canary_do demo_rollout demo_controller) = Promoted" by (rule demo_rollout_promoted)
qed

text \<open>C35: A lane's summary counts exactly the recent requests. When the requests of a lane are
  observed in the order of their times, its summary at a later time is the summary of the last
  \<open>max_samples\<close> of the requests that are at most one window old.\<close>

theorem summary_counts_recent_requests:
  assumes "window_init l ws m = Inr w" "in_order obs" "list_all (\<lambda>s. sa_t s \<le> now) obs"
  shows "fst (window_summary now (fold window_observe obs w)) = summarise l ws (recent now ws (nat m) obs)"
proof -
  have w: "window_of l ws (nat m) [] w" "wn_now w = None" "0 < ws"
    using assms(1) by (auto simp: window_init_def window_of_def split: if_splits)
  let ?w = "fold window_observe obs w"
  note R = window_run [OF w(1,2) assms(2) w(3)]
  have "t \<le> now" if "wn_now ?w = Some t" for t
    using R that assms(3) by (cases "obs = []") (auto simp: list_all_iff)
  then have "window_of l ws (nat m) obs (window_prune now ?w)" "wn_samples (window_prune now ?w) = recent now ws (nat m) obs"
    using window_prune_of [of l ws "nat m" obs ?w now] R assms(2) by auto
  then show ?thesis by (simp add: window_summary_def window_of_def Let_def)
qed

definition demo_window :: lane_window where
  "demo_window = (case window_init CanaryLane 10 2 of Inr w \<Rightarrow> w)"

theorem summary_counts_recent_requests_witness:
  "fst (window_summary 14 (fold window_observe [demo_sample 1 20, demo_sample 5 30, demo_sample 6 40] demo_window))
     = summarise CanaryLane 10 (recent 14 10 (nat 2) [demo_sample 1 20, demo_sample 5 30, demo_sample 6 40])"
  by (rule summary_counts_recent_requests)
    (simp_all add: demo_window_def window_init_def in_order_def demo_sample_def)

text \<open>The p95 gate reads a well-defined, monotone statistic. A percentile of a non-empty sample
  never runs off its ends, lies between the two order statistics around its rank, and a larger
  \<open>q\<close> never gives a smaller value.\<close>

theorem percentile_is_order_statistic:
  assumes "0 \<le> q" "q \<le> q'" "q' \<le> 100" "vs \<noteq> []"
  shows "\<exists>x y. percentile vs q = Inr (Some x) \<and> percentile vs q' = Inr (Some y) \<and> x \<le> y
    \<and> nat \<lceil>rank_of q vs\<rceil> < length vs
    \<and> sort vs ! nat \<lfloor>rank_of q vs\<rfloor> \<le> x \<and> x \<le> sort vs ! nat \<lceil>rank_of q vs\<rceil>"
proof -
  have q: "q \<le> 100" "0 \<le> q'" using assms by simp_all
  have s: "sorted (sort vs)" "length (sort vs) = length vs" "sort vs \<noteq> []"
    using assms(4) by (simp, simp, metis length_0_conv length_sort)
  note r = rank_range [OF assms(1) q(1) assms(4)] and r' = rank_range [OF q(2) assms(3,4)]
  have "0 \<le> rat_of_nat (length vs) - 1" using assms(4) by (cases vs) simp_all
  then have "rank_of q vs \<le> rank_of q' vs" using assms(2) by (simp add: rank_of_def mult_right_mono)
  then have m: "rank_of q vs \<le> rat_of_nat (length (sort vs) - 1)" "rank_of q' vs \<le> rat_of_nat (length (sort vs) - 1)"
    "rank_of q vs \<le> rank_of q' vs" using r r' by simp_all
  let ?x = "interpolate (sort vs) (rank_of q vs)" and ?y = "interpolate (sort vs) (rank_of q' vs)"
  note B = interpolate_between [OF s(1) r(1) m(1) s(3)]
  have "?x \<le> ?y" by (rule interpolate_mono [OF s(1) r(1) m(3) m(2) s(3)])
  moreover have "nat \<lceil>rank_of q vs\<rceil> < length vs" using B(3) s(2) by simp
  ultimately show ?thesis
    using percentile_eq [OF assms(1) q(1) assms(4)] percentile_eq [OF q(2) assms(3,4)] B(1,2) by blast
qed

theorem percentile_is_order_statistic_witness:
  "\<exists>x y. percentile [30, 10, 20] 50 = Inr (Some x) \<and> percentile [30, 10, 20] 95 = Inr (Some y) \<and> x \<le> y
    \<and> nat \<lceil>rank_of 50 [30, 10, 20]\<rceil> < length [30, 10, 20 :: rat]
    \<and> sort [30, 10, 20] ! nat \<lfloor>rank_of 50 [30, 10, 20]\<rfloor> \<le> x
    \<and> x \<le> sort [30, 10, 20] ! nat \<lceil>rank_of 50 [30, 10, 20]\<rceil>"
  by (rule percentile_is_order_statistic) simp_all

text \<open>
  A request reported out of order sits behind a younger one in the ring buffer and is still
  counted after it has left the window: expiry stops at the first young sample.
\<close>

lemma late_sample_outlives_window:
  assumes "window_init l ws m = Inr w" "2 \<le> m" "sa_t s2 < sa_t s1" "sa_t s1 - ws \<le> sa_t s2"
    and "sa_t s2 < now - ws" "now - ws \<le> sa_t s1"
  shows "wn_samples (snd (window_summary now (fold window_observe [s1, s2] w))) = [s1, s2]"
proof -
  have w: "w = \<lparr>wn_lane = l, wn_window = ws, wn_max = nat m, wn_samples = [], wn_now = None\<rparr>" "0 < ws"
    using assms(1) by (auto simp: window_init_def split: if_splits)
  have m: "Suc 0 - nat m = 0" "Suc (Suc 0) - nat m = 0" using assms(2) by simp_all
  have one: "window_observe s1 w = w\<lparr>wn_samples := [s1], wn_now := Some (sa_t s1)\<rparr>"
    using w m by (simp add: window_observe_def window_prune_def later_def deque_append_def Let_def)
  have "window_observe s2 (window_observe s1 w) = w\<lparr>wn_samples := [s1, s2], wn_now := Some (sa_t s1)\<rparr>"
    using assms(3,4) w m
    by (simp add: one) (simp add: window_observe_def window_prune_def later_def deque_append_def max_absorb1 Let_def)
  then show ?thesis
    using assms(4-6) w by (simp add: window_summary_def window_prune_def later_def max_absorb2 Let_def)
qed

end
