(* ===== verification/Usage.thy ===== *)
theory Usage
  imports Engine_Types Complex_Main "HOL-Library.Char_ord" "HOL-Library.List_Lexorder"
begin

text \<open>
  Usage accounting: \<open>src/turboserve/gateway/usage.py\<close> (\<open>ModelPrice\<close>, \<open>PriceTable\<close>,
  \<open>UsageAccumulator\<close>, \<open>UsageRecord\<close>, \<open>TenantTotals\<close>, \<open>UsageTracker\<close>) over the token events of
  \<open>src/turboserve/gateway/backends/protocol.py\<close>.

  Prices and times are rationals where the code has floats; the clock reading is the argument
  \<open>now\<close>. Publishing metrics is not modelled. The ids, backend and lane of a request are labels
  that the accounting only copies; the tenant and the model are the ones it reads.
\<close>

section \<open>Token events\<close>

text \<open>A backend's own counts: \<open>None\<close> where the key is absent or not a non-negative integer.\<close>

record usage_block =
  ub_prompt :: "nat option"
  ub_completion :: "nat option"
  ub_cached :: "nat option"

record token_event =
  te_tokens :: "int list"
  te_text :: string
  te_finished :: bool
  te_reason :: "finish_reason option"
  te_usage :: "usage_block option"
  te_error :: "string option"

definition te_is_error :: "token_event \<Rightarrow> bool" where
  "te_is_error e \<longleftrightarrow> te_error e \<noteq> None"

definition te_num_tokens :: "token_event \<Rightarrow> nat" where
  "te_num_tokens e = length (te_tokens e)"

definition te_delta :: "int list \<Rightarrow> string \<Rightarrow> token_event" where
  "te_delta toks txt = \<lparr>te_tokens = toks, te_text = txt, te_finished = False, te_reason = None,
     te_usage = None, te_error = None\<rparr>"

definition te_final :: "finish_reason \<Rightarrow> int list \<Rightarrow> string \<Rightarrow> usage_block option \<Rightarrow> token_event" where
  "te_final why toks txt u = \<lparr>te_tokens = toks, te_text = txt, te_finished = True, te_reason = Some why,
     te_usage = u, te_error = None\<rparr>"

definition te_failure :: "string \<Rightarrow> finish_reason option \<Rightarrow> token_event" where
  "te_failure msg why = \<lparr>te_tokens = [], te_text = [], te_finished = True, te_reason = why,
     te_usage = None, te_error = Some msg\<rparr>"

section \<open>Prices\<close>

definition estimate_text_tokens :: "string \<Rightarrow> nat" where
  "estimate_text_tokens s = max 1 (length s div 4)"

record model_price =
  mp_input :: rat
  mp_output :: rat

definition model_price_make :: "rat \<Rightarrow> rat \<Rightarrow> py_error + model_price" where
  "model_price_make i out = (if i < 0 \<or> out < 0 then Inl ValueError else Inr \<lparr>mp_input = i, mp_output = out\<rparr>)"

definition price_cost :: "model_price \<Rightarrow> int \<Rightarrow> int \<Rightarrow> rat" where
  "price_cost p prompt completion =
     (of_int (max 0 prompt) * mp_input p + of_int (max 0 completion) * mp_output p) / 1000000"

definition cost_usd :: "(string \<rightharpoonup> model_price) \<Rightarrow> string \<Rightarrow> int \<Rightarrow> int \<Rightarrow> rat option" where
  "cost_usd prices model prompt completion =
     (case prices model of None \<Rightarrow> None | Some p \<Rightarrow> Some (price_cost p prompt completion))"

section \<open>One request\<close>

record usage_record =
  ur_tenant :: string
  ur_model :: string
  ur_prompt :: nat
  ur_completion :: nat
  ur_cached :: nat
  ur_ttft :: "rat option"
  ur_tpot :: "rat option"
  ur_e2e :: "rat option"
  ur_status :: string
  ur_reason :: "finish_reason option"
  ur_cost :: "rat option"
  ur_estimated :: bool

definition ur_total :: "usage_record \<Rightarrow> nat" where
  "ur_total u = ur_prompt u + ur_completion u"

definition ur_ok :: "usage_record \<Rightarrow> bool" where
  "ur_ok u \<longleftrightarrow> ur_status u = ''ok''"

definition to_openai_usage :: "usage_record \<Rightarrow> nat \<times> nat \<times> nat \<times> nat option" where
  "to_openai_usage u = (ur_prompt u, ur_completion u, ur_total u, if ur_cached u \<noteq> 0 then Some (ur_cached u) else None)"

record accumulator =
  ua_tenant :: string
  ua_model :: string
  ua_prompt :: nat
  ua_cached :: nat
  ua_arrival :: rat
  ua_first :: "rat option"
  ua_finish :: "rat option"
  ua_completion :: nat
  ua_deltas :: nat
  ua_reason :: "finish_reason option"
  ua_estimated :: bool

definition ua_init :: "string \<Rightarrow> string \<Rightarrow> nat \<Rightarrow> bool \<Rightarrow> rat \<Rightarrow> accumulator" where
  "ua_init tenant model prompt estimated arrival = \<lparr>ua_tenant = tenant, ua_model = model, ua_prompt = prompt,
     ua_cached = 0, ua_arrival = arrival, ua_first = None, ua_finish = None, ua_completion = 0,
     ua_deltas = 0, ua_reason = None, ua_estimated = estimated\<rparr>"

definition absorb_usage :: "usage_block \<Rightarrow> accumulator \<Rightarrow> accumulator" where
  "absorb_usage u a =
     (let a1 = (case ub_prompt u of None \<Rightarrow> a | Some n \<Rightarrow> a\<lparr>ua_prompt := n, ua_estimated := False\<rparr>);
          a2 = (case ub_completion u of None \<Rightarrow> a1 | Some n \<Rightarrow> a1\<lparr>ua_completion := n, ua_deltas := n\<rparr>)
      in (case ub_cached u of None \<Rightarrow> a2 | Some n \<Rightarrow> a2\<lparr>ua_cached := n\<rparr>))"

definition produced :: "token_event \<Rightarrow> nat" where
  "produced e = (if te_num_tokens e \<noteq> 0 then te_num_tokens e else if te_text e \<noteq> [] then 1 else 0)"

definition on_event :: "token_event \<Rightarrow> rat \<Rightarrow> accumulator \<Rightarrow> accumulator" where
  "on_event e now a =
     (let a1 = (if produced e \<noteq> 0 \<and> ua_first a = None then a\<lparr>ua_first := Some now\<rparr> else a);
          a2 = a1\<lparr>ua_completion := ua_completion a1 + te_num_tokens e, ua_deltas := ua_deltas a1 + produced e\<rparr>
      in if te_finished e
         then let a3 = a2\<lparr>ua_finish := Some now\<rparr>;
                  a4 = (if te_reason e \<noteq> None then a3\<lparr>ua_reason := te_reason e\<rparr> else a3)
              in (case te_usage e of None \<Rightarrow> a4 | Some u \<Rightarrow> absorb_usage u a4)
         else a2)"

definition completion_tokens :: "accumulator \<Rightarrow> nat" where
  "completion_tokens a = (if ua_completion a \<noteq> 0 then ua_completion a else ua_deltas a)"

definition ttft_s :: "accumulator \<Rightarrow> rat option" where
  "ttft_s a = (case ua_first a of None \<Rightarrow> None | Some t \<Rightarrow> Some (t - ua_arrival a))"

definition e2e_s :: "accumulator \<Rightarrow> rat option" where
  "e2e_s a = (case ua_finish a of None \<Rightarrow> None | Some t \<Rightarrow> Some (t - ua_arrival a))"

definition tpot_s :: "accumulator \<Rightarrow> rat option" where
  "tpot_s a =
     (case (ua_first a, ua_finish a) of
        (Some f, Some t) \<Rightarrow> (let n_out = completion_tokens a in
          if n_out < 2 then None else Some ((t - f) / (rat_of_nat n_out - 1)))
      | _ \<Rightarrow> None)"

definition ua_finish_record ::
  "string \<Rightarrow> finish_reason option \<Rightarrow> rat \<Rightarrow> accumulator \<Rightarrow> usage_record \<times> accumulator" where
  "ua_finish_record status why now a =
     (let a' = (if ua_finish a = None then a\<lparr>ua_finish := Some now\<rparr> else a) in
      (\<lparr>ur_tenant = ua_tenant a', ur_model = ua_model a', ur_prompt = ua_prompt a',
        ur_completion = completion_tokens a', ur_cached = ua_cached a', ur_ttft = ttft_s a', ur_tpot = tpot_s a',
        ur_e2e = e2e_s a', ur_status = status, ur_reason = (if why \<noteq> None then why else ua_reason a'),
        ur_cost = None, ur_estimated = ua_estimated a'\<rparr>, a'))"

section \<open>Per-tenant totals\<close>

record tenant_totals =
  tt_tenant :: string
  tt_requests :: nat
  tt_failed :: nat
  tt_prompt :: nat
  tt_completion :: nat
  tt_cached :: nat
  tt_cost :: rat

definition totals_zero :: "string \<Rightarrow> tenant_totals" where
  "totals_zero i = \<lparr>tt_tenant = i, tt_requests = 0, tt_failed = 0, tt_prompt = 0, tt_completion = 0, tt_cached = 0, tt_cost = 0\<rparr>"

definition totals_add :: "usage_record \<Rightarrow> tenant_totals \<Rightarrow> tenant_totals" where
  "totals_add u t =
     t\<lparr>tt_requests := tt_requests t + 1, tt_failed := (if ur_ok u then tt_failed t else tt_failed t + 1),
       tt_prompt := tt_prompt t + ur_prompt u, tt_completion := tt_completion t + ur_completion u,
       tt_cached := tt_cached t + ur_cached u,
       tt_cost := (case ur_cost u of Some c \<Rightarrow> if c \<noteq> 0 then tt_cost t + c else tt_cost t | None \<Rightarrow> tt_cost t)\<rparr>"

definition tt_total :: "tenant_totals \<Rightarrow> nat" where
  "tt_total t = tt_prompt t + tt_completion t"

record tracker =
  tk_prices :: "string \<rightharpoonup> model_price"
  tk_totals :: "string \<rightharpoonup> tenant_totals"

definition tk_init :: "(string \<rightharpoonup> model_price) \<Rightarrow> tracker" where
  "tk_init prices = \<lparr>tk_prices = prices, tk_totals = Map.empty\<rparr>"

definition tk_record :: "usage_record \<Rightarrow> tracker \<Rightarrow> usage_record \<times> tracker" where
  "tk_record u k =
     (let u' = (if ur_cost u = None
                then u\<lparr>ur_cost := cost_usd (tk_prices k) (ur_model u) (int (ur_prompt u)) (int (ur_completion u))\<rparr>
                else u);
          t = (case tk_totals k (ur_tenant u') of None \<Rightarrow> totals_zero (ur_tenant u') | Some t \<Rightarrow> t)
      in (u', k\<lparr>tk_totals := (tk_totals k)(ur_tenant u' \<mapsto> totals_add u' t)\<rparr>))"

definition tk_complete :: "string \<Rightarrow> finish_reason option \<Rightarrow> rat \<Rightarrow> accumulator \<Rightarrow> tracker \<Rightarrow> usage_record \<times> tracker" where
  "tk_complete status why now a k = (let (u, a') = ua_finish_record status why now a in tk_record u k)"

definition totals_for :: "string \<Rightarrow> tracker \<Rightarrow> tenant_totals" where
  "totals_for i k = (case tk_totals k i of None \<Rightarrow> totals_zero i | Some t \<Rightarrow> t)"

definition tk_reset :: "tracker \<Rightarrow> tracker" where
  "tk_reset k = k\<lparr>tk_totals := Map.empty\<rparr>"

section \<open>What an accumulator has seen\<close>

lemma absorb_usage_simps [simp]:
  "ua_first (absorb_usage u a) = ua_first a" "ua_finish (absorb_usage u a) = ua_finish a"
  "ua_arrival (absorb_usage u a) = ua_arrival a"
  by (simp_all add: absorb_usage_def Let_def split: option.splits)

text \<open>The time to the last event splits into the time to the first token and the gaps after it.\<close>

lemma e2e_splits:
  assumes "ttft_s a = Some x" "tpot_s a = Some g"
  shows "e2e_s a = Some (x + g * (rat_of_nat (completion_tokens a) - 1))"
proof -
  obtain f t where ft: "ua_first a = Some f" "ua_finish a = Some t"
    using assms by (auto simp: ttft_s_def tpot_s_def split: option.splits)
  have n: "2 \<le> completion_tokens a" using assms(2) ft by (auto simp: tpot_s_def Let_def split: if_splits)
  then have nz: "rat_of_nat (completion_tokens a) - 1 \<noteq> 0" by (cases "completion_tokens a") auto
  have "x = f - ua_arrival a" "g = (t - f) / (rat_of_nat (completion_tokens a) - 1)"
    using assms ft n by (simp_all add: ttft_s_def tpot_s_def Let_def)
  then show ?thesis using ft nz by (simp add: e2e_s_def)
qed

text \<open>Without the backend's own counts, the tokens carried by the events are counted.\<close>

lemma events_counted:
  assumes "list_all (\<lambda>(e, t). te_usage e = None) evs"
  shows "ua_completion (fold (\<lambda>(e, t). on_event e t) evs a) = ua_completion a + sum_list (map (\<lambda>(e, t). te_num_tokens e) evs)
    \<and> ua_deltas (fold (\<lambda>(e, t). on_event e t) evs a) = ua_deltas a + sum_list (map (\<lambda>(e, t). produced e) evs)"
  using assms
proof (induction evs arbitrary: a)
  case (Cons p evs)
  obtain e t where p: "p = (e, t)" by (cases p)
  have "ua_completion (on_event e t a) = ua_completion a + te_num_tokens e"
    "ua_deltas (on_event e t a) = ua_deltas a + produced e"
    using Cons.prems p by (simp_all add: on_event_def Let_def)
  then show ?case using Cons.IH [of "on_event e t a"] Cons.prems p by simp
qed simp

section \<open>Totals\<close>

definition tk_run :: "usage_record list \<Rightarrow> tracker \<Rightarrow> tracker" where
  "tk_run us k = fold (\<lambda>u k. snd (tk_record u k)) us k"

definition cost_of :: "(string \<rightharpoonup> model_price) \<Rightarrow> usage_record \<Rightarrow> rat" where
  "cost_of prices u = (case ur_cost u of Some c \<Rightarrow> c
     | None \<Rightarrow> (case cost_usd prices (ur_model u) (int (ur_prompt u)) (int (ur_completion u)) of Some c \<Rightarrow> c | None \<Rightarrow> 0))"

text \<open>The bill of a tenant, straight from its records.\<close>

definition billed :: "(string \<rightharpoonup> model_price) \<Rightarrow> string \<Rightarrow> usage_record list \<Rightarrow> tenant_totals" where
  "billed prices i us = (let mine = filter (\<lambda>u. ur_tenant u = i) us in
     \<lparr>tt_tenant = i, tt_requests = length mine, tt_failed = length (filter (\<lambda>u. \<not> ur_ok u) mine),
      tt_prompt = sum_list (map ur_prompt mine), tt_completion = sum_list (map ur_completion mine),
      tt_cached = sum_list (map ur_cached mine), tt_cost = sum_list (map (cost_of prices) mine)\<rparr>)"

lemma totals_add_eq:
  "totals_add u t = t\<lparr>tt_requests := tt_requests t + 1, tt_failed := (if ur_ok u then tt_failed t else tt_failed t + 1),
     tt_prompt := tt_prompt t + ur_prompt u, tt_completion := tt_completion t + ur_completion u,
     tt_cached := tt_cached t + ur_cached u, tt_cost := tt_cost t + (case ur_cost u of Some c \<Rightarrow> c | None \<Rightarrow> 0)\<rparr>"
  by (simp add: totals_add_def split: option.split)

lemma tk_record_totals:
  "totals_for i (snd (tk_record u k)) = (if ur_tenant u = i
     then (totals_for i k)\<lparr>tt_requests := tt_requests (totals_for i k) + 1,
       tt_failed := (if ur_ok u then tt_failed (totals_for i k) else tt_failed (totals_for i k) + 1),
       tt_prompt := tt_prompt (totals_for i k) + ur_prompt u,
       tt_completion := tt_completion (totals_for i k) + ur_completion u,
       tt_cached := tt_cached (totals_for i k) + ur_cached u,
       tt_cost := tt_cost (totals_for i k) + cost_of (tk_prices k) u\<rparr>
     else totals_for i k)"
  "tk_prices (snd (tk_record u k)) = tk_prices k"
  by (simp_all add: tk_record_def totals_for_def totals_add_eq cost_of_def ur_ok_def Let_def split: option.split)

lemma billed_snoc:
  "billed prices i (us @ [u]) = (if ur_tenant u = i
     then (billed prices i us)\<lparr>tt_requests := tt_requests (billed prices i us) + 1,
       tt_failed := (if ur_ok u then tt_failed (billed prices i us) else tt_failed (billed prices i us) + 1),
       tt_prompt := tt_prompt (billed prices i us) + ur_prompt u,
       tt_completion := tt_completion (billed prices i us) + ur_completion u,
       tt_cached := tt_cached (billed prices i us) + ur_cached u,
       tt_cost := tt_cost (billed prices i us) + cost_of prices u\<rparr>
     else billed prices i us)"
  by (simp add: billed_def Let_def)

section \<open>Properties\<close>

text \<open>The bill is the sum of the requests. After any sequence of finished requests, a tenant's
  running totals are exactly the sums over that tenant's own records, priced from the table where
  a record carries no cost of its own.\<close>

theorem totals_are_sums_of_records:
  "totals_for i (tk_run us (tk_init prices)) = billed prices i us"
proof -
  have "totals_for i (tk_run us (tk_init prices)) = billed prices i us
    \<and> tk_prices (tk_run us (tk_init prices)) = prices"
  proof (induction us rule: rev_induct)
    case Nil
    then show ?case by (simp add: tk_run_def tk_init_def totals_for_def billed_def totals_zero_def Let_def)
  next
    case (snoc u us)
    have "tk_run (us @ [u]) (tk_init prices) = snd (tk_record u (tk_run us (tk_init prices)))"
      by (simp add: tk_run_def)
    then show ?case using snoc.IH by (simp only: tk_record_totals billed_snoc conj_absorb)
  qed
  then show ?thesis by simp
qed

end
