(* ===== verification/Router.thy ===== *)
theory Router
  imports Rate_Limits Canary Usage
begin

text \<open>
  The gateway's router: \<open>src/turboserve/gateway/router.py\<close>. Replicas and pools, health
  caching, lane and replica selection, and one request's passage through \<open>Router.generate\<close>
  with its retries, its concurrency slot and the observations it feeds to the canary controller.

  The world outside is the record \<open>world\<close>: the readings of the clock and of the random number
  generator (as the code calls them, one after the other), the health probes, and what each
  replica's \<open>generate\<close> yields on an attempt and how that stream ends. The state counts the
  readings used. One request runs at a time, to its end: a client that disconnects half-way and
  the interleaving of several requests are not modelled. Metrics and logs are not modelled.
\<close>

section \<open>The world outside\<close>

text \<open>A backend error is one of the two families of \<open>protocol.py\<close> or the plain base class.\<close>

datatype backend_error = RetryableError | NonRetryableError | PlainBackendError

definition retryable :: "backend_error \<Rightarrow> bool" where
  "retryable e \<longleftrightarrow> e = RetryableError"

datatype stream_end = StreamEnds | RaisesBackend backend_error | RaisesOther

record world =
  ev_clock :: "nat \<Rightarrow> rat"
  ev_random :: "nat \<Rightarrow> rat"
  ev_health :: "nat \<Rightarrow> string \<Rightarrow> bool"
  ev_stream :: "string \<Rightarrow> nat \<Rightarrow> token_event list \<times> stream_end"

section \<open>Replicas and pools\<close>

datatype router_error =
    RouterConfigError | RouterValueError | ModelNotFound | BackendUnavailable
  | BackendRaised backend_error | RateLimited rejection

text \<open>\<open>None\<close> is "never probed".\<close>

record entry =
  be_name :: string
  be_lane :: lane
  be_weight :: rat
  be_healthy :: bool
  be_checked :: "rat option"
  be_failures :: nat
  be_served :: nat

definition is_fresh :: "rat \<Rightarrow> rat \<Rightarrow> entry \<Rightarrow> bool" where
  "is_fresh now ttl e = (case be_checked e of None \<Rightarrow> False | Some t \<Rightarrow> now - t < ttl)"

definition pool_add :: "entry \<Rightarrow> entry list \<Rightarrow> router_error + entry list" where
  "pool_add e pool =
     (if list_ex (\<lambda>x. be_name x = be_name e) pool then Inl RouterConfigError else Inr (pool @ [e]))"

definition pool_lane :: "lane \<Rightarrow> entry list \<Rightarrow> entry list" where
  "pool_lane l pool = filter (\<lambda>e. be_lane e = l) pool"

definition candidates :: "lane \<Rightarrow> string set \<Rightarrow> entry list \<Rightarrow> entry list" where
  "candidates l exclude pool = filter (\<lambda>e. be_lane e = l \<and> be_healthy e \<and> be_name e \<notin> exclude) pool"

record routed_event =
  re_event :: token_event
  re_backend :: string
  re_lane :: lane
  re_attempt :: nat

section \<open>The router\<close>

record router =
  rt_pools :: "string \<rightharpoonup> entry list"
  rt_canary :: "controller option"
  rt_limiters :: "limiters option"
  rt_ttl :: rat
  rt_max_attempts :: nat
  rt_ticks :: nat
  rt_draws :: nat
  rt_probes :: nat

definition router_init :: "controller option \<Rightarrow> limiters option \<Rightarrow> rat \<Rightarrow> int \<Rightarrow> router_error + router" where
  "router_init can lims ttl max_attempts =
     (if max_attempts < 1 then Inl RouterValueError
      else Inr \<lparr>rt_pools = Map.empty, rt_canary = can, rt_limiters = lims, rt_ttl = ttl,
             rt_max_attempts = nat max_attempts, rt_ticks = 0, rt_draws = 0, rt_probes = 0\<rparr>)"

definition add_backend :: "string \<Rightarrow> string \<Rightarrow> lane \<Rightarrow> rat \<Rightarrow> router \<Rightarrow> router_error + router" where
  "add_backend model name l weight r =
     (if weight \<le> 0 then Inl RouterValueError
      else rbind (pool_add \<lparr>be_name = name, be_lane = l, be_weight = weight, be_healthy = True, be_checked = None,
                    be_failures = 0, be_served = 0\<rparr> (case rt_pools r model of None \<Rightarrow> [] | Some p \<Rightarrow> p)) (\<lambda>p.
        Inr (r\<lparr>rt_pools := (rt_pools r)(model \<mapsto> p)\<rparr>)))"

definition rt_attach :: "limiters option \<Rightarrow> router \<Rightarrow> router" where
  "rt_attach lims r = (if lims \<noteq> None \<and> rt_limiters r = None then r\<lparr>rt_limiters := lims\<rparr> else r)"

definition add_pool :: "string \<Rightarrow> entry list \<Rightarrow> router \<Rightarrow> router" where
  "add_pool model p r = r\<lparr>rt_pools := (rt_pools r)(model \<mapsto> p)\<rparr>"

definition rt_pool :: "string \<Rightarrow> router \<Rightarrow> router_error + entry list" where
  "rt_pool model r = (case rt_pools r model of None \<Rightarrow> Inl ModelNotFound | Some p \<Rightarrow> Inr p)"

definition set_canary :: "controller option \<Rightarrow> router \<Rightarrow> router" where
  "set_canary c r = r\<lparr>rt_canary := c\<rparr>"

text \<open>Readings.\<close>

definition clock :: "world \<Rightarrow> router \<Rightarrow> rat \<times> router" where
  "clock w r = (ev_clock w (rt_ticks r), r\<lparr>rt_ticks := rt_ticks r + 1\<rparr>)"

definition draw :: "world \<Rightarrow> router \<Rightarrow> rat \<times> router" where
  "draw w r = (ev_random w (rt_draws r), r\<lparr>rt_draws := rt_draws r + 1\<rparr>)"

definition rt_fraction :: "router \<Rightarrow> rat" where
  "rt_fraction r =
     (case rt_canary r of None \<Rightarrow> 0 | Some k \<Rightarrow> min 1 (max 0 (of_int (canary_weight k) / 100)))"

definition choose_lane :: "world \<Rightarrow> entry list \<Rightarrow> string set \<Rightarrow> router \<Rightarrow> lane \<times> router" where
  "choose_lane w pool exclude r =
     (if candidates CanaryLane exclude pool = [] then (StableLane, r)
      else if candidates StableLane exclude pool = [] then (CanaryLane, r)
      else let (x, r') = draw w r in (if x < rt_fraction r' then CanaryLane else StableLane, r'))"

definition refresh_health :: "world \<Rightarrow> rat \<Rightarrow> rat \<Rightarrow> nat \<Rightarrow> entry \<Rightarrow> entry \<times> nat" where
  "refresh_health w now ttl probes e =
     (if is_fresh now ttl e then (e, probes)
      else let ok = ev_health w probes (be_name e) in
        (e\<lparr>be_healthy := ok, be_checked := Some now, be_failures := (if ok then 0 else be_failures e)\<rparr>, probes + 1))"

fun refresh_loop :: "world \<Rightarrow> rat \<Rightarrow> rat \<Rightarrow> nat \<Rightarrow> entry list \<Rightarrow> entry list \<times> nat" where
  "refresh_loop w now ttl probes [] = ([], probes)"
| "refresh_loop w now ttl probes (e # es) =
     (let (e', p) = refresh_health w now ttl probes e; (es', p') = refresh_loop w now ttl p es in (e' # es', p'))"

definition refresh_pool :: "world \<Rightarrow> string \<Rightarrow> entry list \<Rightarrow> router \<Rightarrow> entry list \<times> router" where
  "refresh_pool w model pool r =
     (let (now, r1) = clock w r; (pool', p) = refresh_loop w now (rt_ttl r1) (rt_probes r1) pool
      in (pool', r1\<lparr>rt_pools := (rt_pools r1)(model \<mapsto> pool'), rt_probes := p\<rparr>))"

fun weighted_loop :: "rat \<Rightarrow> rat \<Rightarrow> entry \<Rightarrow> entry list \<Rightarrow> entry" where
  "weighted_loop x acc dflt [] = dflt"
| "weighted_loop x acc dflt (e # es) =
     (let acc2 = acc + be_weight e in if x \<le> acc2 then e else weighted_loop x acc2 dflt es)"

definition weighted_choice :: "world \<Rightarrow> entry list \<Rightarrow> router \<Rightarrow> entry \<times> router" where
  "weighted_choice w es r =
     (if length es = 1 then (hd es, r)
      else let total = sum_list (map be_weight es); (x, r') = draw w r
        in (weighted_loop (x * total) 0 (last es) es, r'))"

definition other_lane :: "lane \<Rightarrow> lane" where
  "other_lane l = (case l of StableLane \<Rightarrow> CanaryLane | CanaryLane \<Rightarrow> StableLane)"

definition select :: "world \<Rightarrow> string \<Rightarrow> string set \<Rightarrow> lane option \<Rightarrow> router \<Rightarrow> (router_error + entry) \<times> router" where
  "select w model exclude forced r =
     (case rt_pool model r of
        Inl e \<Rightarrow> (Inl e, r)
      | Inr pool \<Rightarrow>
          (let (pool', r1) = refresh_pool w model pool r;
               (l, r2) = (case forced of Some l \<Rightarrow> (l, r1) | None \<Rightarrow> choose_lane w pool' exclude r1);
               own = candidates l exclude pool';
               cs = (if own = [] then candidates (other_lane l) exclude pool' else own)
           in if cs = [] then (Inl BackendUnavailable, r2)
              else let (e, r3) = weighted_choice w cs r2 in (Inr e, r3)))"

section \<open>One request\<close>

definition put_entry :: "string \<Rightarrow> string \<Rightarrow> (entry \<Rightarrow> entry) \<Rightarrow> router \<Rightarrow> router" where
  "put_entry model name f r =
     r\<lparr>rt_pools := (rt_pools r)(model := map_option (map (\<lambda>e. if be_name e = name then f e else e)) (rt_pools r model))\<rparr>"

definition mark_failure :: "world \<Rightarrow> string \<Rightarrow> string \<Rightarrow> backend_error \<Rightarrow> router \<Rightarrow> router" where
  "mark_failure w model name err r =
     (if err = NonRetryableError then r
      else let (now, r1) = clock w r in
        put_entry model name (\<lambda>e. e\<lparr>be_failures := be_failures e + 1, be_healthy := False, be_checked := Some now\<rparr>) r1)"

definition rt_observe :: "world \<Rightarrow> lane \<Rightarrow> bool \<Rightarrow> rat option \<Rightarrow> rat option \<Rightarrow> router \<Rightarrow> router" where
  "rt_observe w l ok dt_first dt_end r =
     (case rt_canary r of
        None \<Rightarrow> r
      | Some k \<Rightarrow> (let (now, r1) = clock w r in
          r1\<lparr>rt_canary := Some (cc_observe l \<lparr>sa_t = now, sa_ok = ok, sa_ttft = map_option (\<lambda>x. x * 1000) dt_first,
               sa_e2e = map_option (\<lambda>x. x * 1000) dt_end\<rparr> k)\<rparr>))"

definition routed :: "entry \<Rightarrow> nat \<Rightarrow> token_event \<Rightarrow> routed_event" where
  "routed e n ev = \<lparr>re_event = ev, re_backend = be_name e, re_lane = be_lane e, re_attempt = n\<rparr>"

definition abort_event :: token_event where
  "abort_event = te_failure ''backend failed'' (Some Abort)"

text \<open>
  The attempts of a request: the events yielded, the exception raised (\<open>None\<close> when the generator
  just ends), and the new state. \<open>k\<close> attempts are left and \<open>n\<close> is the number of this one.
\<close>

fun attempt_loop ::
  "world \<Rightarrow> string \<Rightarrow> lane option \<Rightarrow> rat \<Rightarrow> nat \<Rightarrow> nat \<Rightarrow> string set \<Rightarrow> backend_error option \<Rightarrow> router
     \<Rightarrow> routed_event list \<times> router_error option \<times> router" where
  "attempt_loop w model forced t_start 0 n tried err r =
     ([], Some (case err of Some e \<Rightarrow> BackendRaised e | None \<Rightarrow> BackendUnavailable), r)"
| "attempt_loop w model forced t_start (Suc k) n tried err r =
     (case select w model tried forced r of
        (Inl e, r1) \<Rightarrow> ([], Some e, r1)
      | (Inr e, r1) \<Rightarrow>
          (let r2 = put_entry model (be_name e) (\<lambda>x. x\<lparr>be_served := be_served x + 1\<rparr>) r1;
               (evs, fin) = ev_stream w (be_name e) n;
               out = map (routed e n) evs;
               (t_first, r3) = (if evs \<noteq> [] then (let (t, r') = clock w r2 in (Some t, r')) else (None, r2))
           in case fin of
                RaisesBackend b \<Rightarrow>
                  (let r4 = rt_observe w (be_lane e) False None None (mark_failure w model (be_name e) b r3) in
                   if evs \<noteq> [] then (out @ [routed e n abort_event], None, r4)
                   else if \<not> retryable b then ([], Some (BackendRaised b), r4)
                   else attempt_loop w model forced t_start k (n + 1) (insert (be_name e) tried) (Some b) r4)
              | RaisesOther \<Rightarrow>
                  (let r4 = rt_observe w (be_lane e) False None None (mark_failure w model (be_name e) NonRetryableError r3) in
                   if evs \<noteq> [] then (out @ [routed e n abort_event], None, r4)
                   else ([], Some (BackendRaised NonRetryableError), r4))
              | StreamEnds \<Rightarrow>
                  (let (t_end, r4) = clock w r3 in
                   if list_ex te_is_error evs then (out, None, rt_observe w (be_lane e) False None None r4)
                   else (out, None, rt_observe w (be_lane e) True (map_option (\<lambda>t. t - t_start) t_first) (Some (t_end - t_start))
                           (put_entry model (be_name e) (\<lambda>x. x\<lparr>be_failures := 0\<rparr>) r4)))))"

text \<open>The tenant's limiter, if there is one, taken from the registry and put back.\<close>

definition put_limiter :: "string \<Rightarrow> limiter \<Rightarrow> router \<Rightarrow> router" where
  "put_limiter i L r = r\<lparr>rt_limiters := map_option (\<lambda>R. R\<lparr>ls_limiters := (ls_limiters R)(i \<mapsto> L)\<rparr>) (rt_limiters r)\<rparr>"

definition tenant_limiter :: "world \<Rightarrow> string \<Rightarrow> router \<Rightarrow> py_error + (limiter option \<times> router)" where
  "tenant_limiter w i r =
     (case rt_limiters r of
        None \<Rightarrow> Inr (None, r)
      | Some R \<Rightarrow> (let fresh = ls_limiters R i = None \<and> tr_get i (ls_tenants R) \<noteq> None;
                       (now, r1) = (if fresh then clock w r else (0, r))
          in rbind (for_tenant_id i now R) (\<lambda>(L, R'). Inr (L, r1\<lparr>rt_limiters := Some R'\<rparr>))))"

definition leave_slot :: "string \<Rightarrow> router \<Rightarrow> router" where
  "leave_slot i r =
     (case rt_limiters r of
        None \<Rightarrow> r
      | Some R \<Rightarrow> (case ls_limiters R i of None \<Rightarrow> r | Some L \<Rightarrow> put_limiter i (release_slot L) r))"

definition rt_generate ::
  "world \<Rightarrow> string \<Rightarrow> string \<Rightarrow> lane option \<Rightarrow> router \<Rightarrow> routed_event list \<times> router_error option \<times> router" where
  "rt_generate w tenant_id model forced r =
     (case tenant_limiter w tenant_id r of
        Inl _ \<Rightarrow> ([], Some RouterValueError, r)
      | Inr (limiter, r1) \<Rightarrow>
          (let (t_start, r2) = clock w r1 in
           case limiter of
             None \<Rightarrow> attempt_loop w model forced t_start (rt_max_attempts r2) 1 {} None r2
           | Some L \<Rightarrow>
               (case slot_enter L of
                  (Some rj, L') \<Rightarrow> ([], Some (RateLimited rj), put_limiter tenant_id L' r2)
                | (None, L') \<Rightarrow>
                    (let (out, err, r3) = attempt_loop w model forced t_start (rt_max_attempts r2) 1 {} None
                           (put_limiter tenant_id L' r2)
                     in (out, err, leave_slot tenant_id r3)))))"

section \<open>The fleet\<close>

definition report_model :: "world \<Rightarrow> string \<Rightarrow> router \<Rightarrow> (string \<times> bool) list \<times> router" where
  "report_model w model r =
     (case rt_pools r model of
        None \<Rightarrow> ([], r)
      | Some p \<Rightarrow> (let (p', r') = refresh_pool w model p r in (map (\<lambda>e. (be_name e, be_healthy e)) p', r')))"

fun report_loop :: "world \<Rightarrow> string list \<Rightarrow> router \<Rightarrow> (string \<times> (string \<times> bool) list) list \<times> router" where
  "report_loop w [] r = ([], r)"
| "report_loop w (m # ms) r =
     (let (h, r1) = report_model w m r; (hs, r2) = report_loop w ms r1 in ((m, h) # hs, r2))"

text \<open>\<open>models\<close> is the sorted list of the served models' names.\<close>

definition health_report :: "world \<Rightarrow> string list \<Rightarrow> router \<Rightarrow> (string \<times> (string \<times> bool) list) list \<times> router" where
  "health_report w models r = report_loop w (sort models) r"

definition rt_ready :: "world \<Rightarrow> string list \<Rightarrow> router \<Rightarrow> bool \<times> router" where
  "rt_ready w models r =
     (if models = [] then (False, r)
      else let (rep, r') = health_report w models r in (list_all (\<lambda>(m, hs). list_ex snd hs) rep, r'))"

section \<open>What the steps leave alone\<close>

lemma clock_fields [simp]:
  "rt_pools (snd (clock w r)) = rt_pools r" "rt_limiters (snd (clock w r)) = rt_limiters r"
  "rt_canary (snd (clock w r)) = rt_canary r" "rt_max_attempts (snd (clock w r)) = rt_max_attempts r"
  "rt_draws (snd (clock w r)) = rt_draws r"
  by (simp_all add: clock_def)

lemma draw_fields [simp]:
  "rt_pools (snd (draw w r)) = rt_pools r" "rt_limiters (snd (draw w r)) = rt_limiters r"
  "rt_canary (snd (draw w r)) = rt_canary r" "rt_max_attempts (snd (draw w r)) = rt_max_attempts r"
  by (simp_all add: draw_def)

lemma choose_lane_fields [simp]:
  "rt_pools (snd (choose_lane w p x r)) = rt_pools r" "rt_limiters (snd (choose_lane w p x r)) = rt_limiters r"
  "rt_max_attempts (snd (choose_lane w p x r)) = rt_max_attempts r"
  by (simp_all add: choose_lane_def draw_def Let_def)

lemma weighted_choice_fields [simp]:
  "rt_pools (snd (weighted_choice w es r)) = rt_pools r" "rt_limiters (snd (weighted_choice w es r)) = rt_limiters r"
  "rt_max_attempts (snd (weighted_choice w es r)) = rt_max_attempts r"
  by (simp_all add: weighted_choice_def draw_def Let_def)

lemma refresh_pool_fields [simp]:
  "rt_limiters (snd (refresh_pool w m p r)) = rt_limiters r" "rt_draws (snd (refresh_pool w m p r)) = rt_draws r"
  "rt_canary (snd (refresh_pool w m p r)) = rt_canary r" "rt_max_attempts (snd (refresh_pool w m p r)) = rt_max_attempts r"
  "rt_pools (snd (refresh_pool w m p r)) = (rt_pools r)(m \<mapsto> fst (refresh_pool w m p r))"
  by (simp_all add: refresh_pool_def clock_def Let_def split: prod.splits)

lemma put_entry_fields [simp]:
  "rt_limiters (put_entry m n f r) = rt_limiters r" "rt_max_attempts (put_entry m n f r) = rt_max_attempts r"
  by (simp_all add: put_entry_def)

lemma mark_failure_fields [simp]:
  "rt_limiters (mark_failure w m n b r) = rt_limiters r" "rt_max_attempts (mark_failure w m n b r) = rt_max_attempts r"
  by (simp_all add: mark_failure_def clock_def Let_def)

lemma rt_observe_fields [simp]:
  "rt_limiters (rt_observe w l ok a b r) = rt_limiters r" "rt_max_attempts (rt_observe w l ok a b r) = rt_max_attempts r"
  by (simp_all add: rt_observe_def clock_def Let_def split: option.split)

lemma weighted_loop_in: "weighted_loop x a d es \<in> insert d (set es)"
  by (induction es arbitrary: a) (auto simp: Let_def)

lemma weighted_choice_in: "es \<noteq> [] \<Longrightarrow> fst (weighted_choice w es r) \<in> set es"
proof -
  assume ne: "es \<noteq> []"
  have "weighted_loop x 0 (last es) es \<in> set es" for x
    using weighted_loop_in [of x 0 "last es" es] last_in_set [OF ne] by (simp add: insert_absorb)
  then show ?thesis using hd_in_set [OF ne] by (simp add: weighted_choice_def draw_def Let_def)
qed

text \<open>A selection, unfolded: refresh, draw a lane, choose among its candidates.\<close>

lemma select_outcome:
  assumes "rt_pools r m = Some p"
  obtains p' l r2 where
    "rt_pools r2 = (rt_pools r)(m \<mapsto> p')" "rt_limiters r2 = rt_limiters r" "rt_max_attempts r2 = rt_max_attempts r"
    "p' = fst (refresh_pool w m p r)"
    "l = (case forced of Some l \<Rightarrow> l | None \<Rightarrow>
       (if candidates CanaryLane x p' = [] then StableLane
        else if candidates StableLane x p' = [] then CanaryLane
        else if ev_random w (rt_draws r) < rt_fraction r then CanaryLane else StableLane))"
    "select w m x forced r =
       (let cs = (if candidates l x p' = [] then candidates (other_lane l) x p' else candidates l x p')
        in if cs = [] then (Inl BackendUnavailable, r2)
           else (Inr (fst (weighted_choice w cs r2)), snd (weighted_choice w cs r2)))"
proof -
  let ?p' = "fst (refresh_pool w m p r)" and ?r1 = "snd (refresh_pool w m p r)"
  let ?lr = "case forced of Some l \<Rightarrow> (l, ?r1) | None \<Rightarrow> choose_lane w ?p' x ?r1"
  have eq: "select w m x forced r =
       (let cs = (if candidates (fst ?lr) x ?p' = [] then candidates (other_lane (fst ?lr)) x ?p' else candidates (fst ?lr) x ?p')
        in if cs = [] then (Inl BackendUnavailable, snd ?lr)
           else (Inr (fst (weighted_choice w cs (snd ?lr))), snd (weighted_choice w cs (snd ?lr))))"
    using assms by (simp add: select_def rt_pool_def Let_def split_beta)
  have l: "fst ?lr = (case forced of Some l \<Rightarrow> l | None \<Rightarrow>
       (if candidates CanaryLane x ?p' = [] then StableLane
        else if candidates StableLane x ?p' = [] then CanaryLane
        else if ev_random w (rt_draws r) < rt_fraction r then CanaryLane else StableLane))"
    by (simp add: choose_lane_def draw_def rt_fraction_def Let_def split: option.split)
  have f: "rt_pools (snd ?lr) = (rt_pools r)(m \<mapsto> ?p')" "rt_limiters (snd ?lr) = rt_limiters r"
    "rt_max_attempts (snd ?lr) = rt_max_attempts r"
    by (simp_all split: option.split)
  show thesis by (rule that [OF f refl l eq])
qed

lemma select_fields:
  "rt_limiters (snd (select w m x forced r)) = rt_limiters r"
  "rt_max_attempts (snd (select w m x forced r)) = rt_max_attempts r"
proof -
  have "rt_limiters (snd (select w m x forced r)) = rt_limiters r
    \<and> rt_max_attempts (snd (select w m x forced r)) = rt_max_attempts r"
  proof (cases "rt_pools r m")
    case None
    then show ?thesis by (simp add: select_def rt_pool_def)
  next
    case (Some p)
    show ?thesis by (rule select_outcome [OF Some, where w = w and forced = forced and x = x]) (simp add: Let_def)
  qed
  then show "rt_limiters (snd (select w m x forced r)) = rt_limiters r"
    "rt_max_attempts (snd (select w m x forced r)) = rt_max_attempts r" by simp_all
qed

text \<open>The clamp in \<open>canary_fraction\<close> never bites on the real controller.\<close>

lemma rt_fraction_exact:
  assumes "rt_canary r = Some k" "weights_ok k"
  shows "rt_fraction r = of_int (canary_weight k) / 100"
  using rollout.fraction_exact [OF assms(2)] assms(1) by (simp add: rt_fraction_def)

section \<open>The attempts of a request\<close>

text \<open>
  What a client may see: nothing, or the events of one attempt on one replica, in order,
  possibly cut short by a failure event.
\<close>

definition one_attempt :: "world \<Rightarrow> nat \<Rightarrow> routed_event list \<Rightarrow> bool" where
  "one_attempt w limit out \<longleftrightarrow>
     (case out of
        [] \<Rightarrow> True
      | x # _ \<Rightarrow> (let b = re_backend x; n = re_attempt x; evs = fst (ev_stream w b n) in
          1 \<le> n \<and> n \<le> limit \<and> evs \<noteq> []
          \<and> list_all (\<lambda>y. re_backend y = b \<and> re_lane y = re_lane x \<and> re_attempt y = n) out
          \<and> (map re_event out = evs \<or> map re_event out = evs @ [abort_event] \<and> snd (ev_stream w b n) \<noteq> StreamEnds)))"

lemma routed_fields [simp]:
  "re_event (routed e n v) = v" "re_backend (routed e n v) = be_name e" "re_lane (routed e n v) = be_lane e"
  "re_attempt (routed e n v) = n"
  by (simp_all add: routed_def)

lemma one_attempt_whole:
  "1 \<le> n \<Longrightarrow> n \<le> limit \<Longrightarrow> fst (ev_stream w (be_name e) n) = evs \<Longrightarrow> one_attempt w limit (map (routed e n) evs)"
  by (cases evs) (simp_all add: one_attempt_def Let_def list_all_iff comp_def)

lemma one_attempt_cut:
  "1 \<le> n \<Longrightarrow> n \<le> limit \<Longrightarrow> ev_stream w (be_name e) n = (evs, fin) \<Longrightarrow> evs \<noteq> [] \<Longrightarrow> fin \<noteq> StreamEnds \<Longrightarrow>
     one_attempt w limit (map (routed e n) evs @ [routed e n abort_event])"
  by (cases evs) (simp_all add: one_attempt_def Let_def list_all_iff comp_def)

lemma attempt_loop_ok:
  assumes "1 \<le> n" "n + k \<le> limit + 1"
  shows "case attempt_loop w model forced ts k n tried err r of (out, e, r') \<Rightarrow>
     (e = None \<or> out = []) \<and> one_attempt w limit out \<and> rt_limiters r' = rt_limiters r"
  using assms
proof (induction k arbitrary: n tried err r)
  case 0
  then show ?case by (simp add: one_attempt_def)
next
  case (Suc k)
  have n: "1 \<le> n" "n \<le> limit" using Suc.prems by simp_all
  obtain sel r1 where s: "select w model tried forced r = (sel, r1)" by (cases "select w model tried forced r")
  then have r1: "rt_limiters r1 = rt_limiters r" using select_fields(1) [of w model tried forced r] by simp
  show ?case
  proof (cases sel)
    case (Inl e)
    then show ?thesis using s r1 by (simp add: one_attempt_def)
  next
    case (Inr e)
    obtain evs fin where st: "ev_stream w (be_name e) n = (evs, fin)" by (cases "ev_stream w (be_name e) n")
    note whole = one_attempt_whole [OF n, of w e evs] and cut = one_attempt_cut [OF n st]
    let ?r2 = "put_entry model (be_name e) (\<lambda>x. x\<lparr>be_served := be_served x + 1\<rparr>) r1"
    obtain tf r3 where c: "(if evs \<noteq> [] then (let (t, r') = clock w ?r2 in (Some t, r')) else (None, ?r2)) = (tf, r3)"
      by (cases "if evs \<noteq> [] then (let (t, r') = clock w ?r2 in (Some t, r')) else (None, ?r2)")
    then have r3: "rt_limiters r3 = rt_limiters r" using r1 by (auto simp: clock_def Let_def split: if_splits)
    show ?thesis
    proof (cases fin)
      case StreamEnds
      then show ?thesis using s Inr st c r1 r3 whole by (simp add: Let_def split_beta)
    next
      case (RaisesBackend b)
      let ?r4 = "rt_observe w (be_lane e) False None None (mark_failure w model (be_name e) b r3)"
      have "rt_limiters ?r4 = rt_limiters r" using r3 by simp
      then show ?thesis
        using s Inr st c RaisesBackend cut Suc.IH [where n = "n + 1" and tried = "insert (be_name e) tried" and err = "Some b" and r = ?r4] Suc.prems
        by (cases "evs = []"; cases "retryable b") (auto simp: one_attempt_def [of _ _ "[]"] Let_def split_beta)
    next
      case RaisesOther
      then show ?thesis using s Inr st c r3 cut by (cases "evs = []") (auto simp: one_attempt_def [of _ _ "[]"] Let_def)
    qed
  qed
qed

section \<open>The tenant's slot\<close>

definition in_flight :: "string \<Rightarrow> router \<Rightarrow> nat" where
  "in_flight i r = (case rt_limiters r of None \<Rightarrow> 0
     | Some R \<Rightarrow> (case ls_limiters R i of None \<Rightarrow> 0 | Some L \<Rightarrow> tl_in_flight L))"

lemma in_flight_frame: "rt_limiters r' = rt_limiters r \<Longrightarrow> in_flight i r' = in_flight i r"
  by (simp add: in_flight_def)

lemma tr_get_id: "tr_get i reg = Some t \<Longrightarrow> tn_id t = i"
  by (auto simp: tr_get_def find_Some_iff)

lemma for_tenant_id_effect:
  assumes "for_tenant_id i now R = Inr (lo, R')"
  shows "(\<exists>L. lo = Some L \<and> ls_limiters R' = (ls_limiters R)(i \<mapsto> L)
      \<and> (ls_limiters R i = Some L \<or> ls_limiters R i = None \<and> tl_in_flight L = 0)) \<or> lo = None \<and> R' = R"
proof (cases "ls_limiters R i")
  case (Some L)
  then show ?thesis using assms by (auto simp: for_tenant_id_def fun_upd_idem)
next
  case None
  show ?thesis
  proof (cases "tr_get i (ls_tenants R)")
    case no: None
    then show ?thesis using assms None by (simp add: for_tenant_id_def)
  next
    case (Some t)
    have i: "tn_id t = i" using tr_get_id [OF Some] .
    obtain L where "limiter_init t (ls_retry R) now = Inr L" "lo = Some L" "R' = R\<lparr>ls_limiters := (ls_limiters R)(i \<mapsto> L)\<rparr>"
      using assms None Some i by (auto simp: for_tenant_id_def for_tenant_def)
    then show ?thesis using None by (auto simp: limiter_init_def)
  qed
qed

lemma tenant_limiter_effect:
  assumes "tenant_limiter w i r = Inr (lo, r1)"
  shows "in_flight j r1 = in_flight j r" "rt_max_attempts r1 = rt_max_attempts r"
    "\<And>L. lo = Some L \<Longrightarrow> \<exists>R. rt_limiters r1 = Some R \<and> ls_limiters R i = Some L"
proof -
  have "in_flight j r1 = in_flight j r \<and> rt_max_attempts r1 = rt_max_attempts r
    \<and> (\<forall>L. lo = Some L \<longrightarrow> (\<exists>R. rt_limiters r1 = Some R \<and> ls_limiters R i = Some L))"
  proof (cases "rt_limiters r")
    case None
    then show ?thesis using assms by (simp add: tenant_limiter_def)
  next
    case (Some R)
    then obtain now R' r0 where e: "for_tenant_id i now R = Inr (lo, R')" "r1 = r0\<lparr>rt_limiters := Some R'\<rparr>"
      "rt_max_attempts r0 = rt_max_attempts r"
      using assms by (auto simp: tenant_limiter_def clock_def Let_def split: if_splits)
    show ?thesis
      using for_tenant_id_effect [OF e(1)] e(2,3) Some
      by (auto simp: in_flight_def split: option.splits if_split_asm)
  qed
  then show "in_flight j r1 = in_flight j r" "rt_max_attempts r1 = rt_max_attempts r"
    "\<And>L. lo = Some L \<Longrightarrow> \<exists>R. rt_limiters r1 = Some R \<and> ls_limiters R i = Some L" by auto
qed

lemma put_limiter_flight:
  "rt_limiters r = Some R \<Longrightarrow> in_flight j (put_limiter i L r) = (if j = i then tl_in_flight L else in_flight j r)"
  by (simp add: in_flight_def put_limiter_def)

lemma leave_slot_flight:
  assumes "rt_limiters r = Some R" "ls_limiters R i = Some L"
  shows "in_flight j (leave_slot i r) = (if j = i then tl_in_flight L - 1 else in_flight j r)"
  using assms by (simp add: leave_slot_def put_limiter_flight [OF assms(1)] gate.leave_held)

text \<open>\<open>generate\<close>, unfolded: no directory entry, a refusal, or the attempts inside the slot.\<close>

lemma generate_cases:
  obtains (broken) "rt_generate w i m f r = ([], Some RouterValueError, r)"
  | (free) r1 where "tenant_limiter w i r = Inr (None, r1)" "rt_generate w i m f r =
      attempt_loop w m f (fst (clock w r1)) (rt_max_attempts r) 1 {} None (snd (clock w r1))"
  | (refused) L r1 rj L' where "tenant_limiter w i r = Inr (Some L, r1)" "slot_enter L = (Some rj, L')"
      "rt_generate w i m f r = ([], Some (RateLimited rj), put_limiter i L' (snd (clock w r1)))"
  | (held) L r1 L' out err r3 where "tenant_limiter w i r = Inr (Some L, r1)" "slot_enter L = (None, L')"
      "attempt_loop w m f (fst (clock w r1)) (rt_max_attempts r) 1 {} None (put_limiter i L' (snd (clock w r1))) = (out, err, r3)"
      "rt_generate w i m f r = (out, err, leave_slot i r3)"
proof (cases "tenant_limiter w i r")
  case (Inl e)
  then show thesis using broken by (simp add: rt_generate_def)
next
  case (Inr q)
  obtain lo r1 where q: "q = (lo, r1)" by (cases q)
  have ma: "rt_max_attempts (snd (clock w r1)) = rt_max_attempts r"
    using tenant_limiter_effect(2) Inr q by simp
  show thesis
  proof (cases lo)
    case None
    then show thesis using Inr q ma by (intro free [of r1]) (simp_all add: rt_generate_def split_beta)
  next
    case (Some L)
    obtain ro L' where se: "slot_enter L = (ro, L')" by (cases "slot_enter L")
    show thesis
    proof (cases ro)
      case (Some rj)
      then show thesis using Inr q \<open>lo = Some L\<close> se
        by (intro refused [of L r1 rj L']) (simp_all add: rt_generate_def split_beta)
    next
      case None
      obtain out err r3 where al: "attempt_loop w m f (fst (clock w r1)) (rt_max_attempts r) 1 {} None
          (put_limiter i L' (snd (clock w r1))) = (out, err, r3)"
        by (cases "attempt_loop w m f (fst (clock w r1)) (rt_max_attempts r) 1 {} None
          (put_limiter i L' (snd (clock w r1)))")
      have ma': "rt_max_attempts (snd (clock w r1)) = rt_max_attempts r" by (rule ma)
      show thesis using Inr q \<open>lo = Some L\<close> se None al ma'
        by (intro held [of L r1 L' out err r3]) (simp_all add: rt_generate_def split_beta)
    qed
  qed
qed

section \<open>Properties\<close>

text \<open>C36: A request is retried only before its first event. Whatever the replicas do, the events a
  client receives all come from one attempt on one replica, within the attempt limit: the stream
  that replica produced, in order, cut short by a failure event when it broke off; and an
  exception reaches the caller only when nothing was sent.\<close>

theorem retries_only_before_first_event:
  "case rt_generate w i m f r of (out, err, r') \<Rightarrow>
     (err = None \<or> out = []) \<and> one_attempt w (rt_max_attempts r) out"
proof -
  note A = attempt_loop_ok [where n = 1 and k = "rt_max_attempts r" and limit = "rt_max_attempts r" and w = w and model = m and forced = f]
  have nil: "one_attempt w (rt_max_attempts r) []" by (simp add: one_attempt_def)
  show ?thesis
  proof (cases rule: generate_cases [of w i m f r])
    case broken
    then show ?thesis using nil by simp
  next
    case (free r1)
    then show ?thesis using A by (simp add: split_beta)
  next
    case (refused L r1 rj L')
    then show ?thesis using nil by simp
  next
    case (held L r1 L' out err r3)
    then show ?thesis using A [where ts = "fst (clock w r1)" and tried = "{}" and err = None and r = "put_limiter i L' (snd (clock w r1))"] by simp
  qed
qed

text \<open>C37: A request goes where the canary weight says. A selection without a forced lane returns a
  healthy replica of the model that has not been tried, and returns one of the canary lane exactly
  when that lane has such a replica and either the stable lane has none or the random draw is
  below the controller's weight as a fraction.\<close>

theorem selection_follows_canary_weight:
  assumes "select w m x None r = (Inr e, r')"
  shows "e \<in> set (the (rt_pools r' m)) \<and> be_healthy e \<and> be_name e \<notin> x
    \<and> (be_lane e = CanaryLane \<longleftrightarrow> candidates CanaryLane x (the (rt_pools r' m)) \<noteq> []
        \<and> (candidates StableLane x (the (rt_pools r' m)) = [] \<or> ev_random w (rt_draws r) < rt_fraction r))"
proof -
  obtain p where p: "rt_pools r m = Some p" using assms by (auto simp: select_def rt_pool_def split: option.splits)
  obtain p' l r2 where s: "rt_pools r2 = (rt_pools r)(m \<mapsto> p')"
    "l = (if candidates CanaryLane x p' = [] then StableLane
        else if candidates StableLane x p' = [] then CanaryLane
        else if ev_random w (rt_draws r) < rt_fraction r then CanaryLane else StableLane)"
    "select w m x None r =
       (let cs = (if candidates l x p' = [] then candidates (other_lane l) x p' else candidates l x p')
        in if cs = [] then (Inl BackendUnavailable, r2)
           else (Inr (fst (weighted_choice w cs r2)), snd (weighted_choice w cs r2)))"
    by (rule select_outcome [OF p, where w = w and forced = None and x = x]) simp
  define cs where "cs = (if candidates l x p' = [] then candidates (other_lane l) x p' else candidates l x p')"
  have cs: "cs \<noteq> []" "e = fst (weighted_choice w cs r2)" "r' = snd (weighted_choice w cs r2)"
    using assms s(3) by (auto simp: cs_def [symmetric] Let_def split: if_splits)
  have e: "e \<in> set cs" using weighted_choice_in [OF cs(1)] cs(2) by simp
  have pool: "the (rt_pools r' m) = p'" using cs(3) s(1) by simp
  have lane: "be_lane e = (if candidates l x p' = [] then other_lane l else l)" "e \<in> set p'" "be_healthy e" "be_name e \<notin> x"
    using e by (auto simp: cs_def candidates_def split: if_splits)
  have some: "candidates (be_lane e) x p' \<noteq> []" using lane(2-4) by (auto simp: candidates_def filter_empty_conv)
  have "be_lane e = CanaryLane \<longleftrightarrow> candidates CanaryLane x p' \<noteq> []
        \<and> (candidates StableLane x p' = [] \<or> ev_random w (rt_draws r) < rt_fraction r)"
    using s(2) lane(1) some by (cases "candidates CanaryLane x p' = []"; cases "candidates StableLane x p' = []")
      (auto simp: other_lane_def split: if_splits)
  then show ?thesis using lane pool by simp
qed

definition demo_world :: world where
  "demo_world = \<lparr>ev_clock = rat_of_nat, ev_random = (\<lambda>_. 1 / 20), ev_health = (\<lambda>_ n. n \<noteq> ''c''),
     ev_stream = (\<lambda>_ _. ([te_delta [7] ''hi''], StreamEnds))\<rparr>"

definition demo_entry :: "string \<Rightarrow> lane \<Rightarrow> entry" where
  "demo_entry n l = \<lparr>be_name = n, be_lane = l, be_weight = 1, be_healthy = True, be_checked = None,
     be_failures = 0, be_served = 0\<rparr>"

text \<open>A router over three replicas whose canary controller has just started, at ten percent.\<close>

definition demo_router :: router where
  "demo_router = \<lparr>rt_pools = [''m'' \<mapsto> [demo_entry ''a'' StableLane, demo_entry ''b'' CanaryLane, demo_entry ''c'' StableLane]],
     rt_canary = Some (canary_do (StartRollout ''v2'' 0) demo_controller), rt_limiters = None, rt_ttl = 5,
     rt_max_attempts = 3, rt_ticks = 0, rt_draws = 0, rt_probes = 0\<rparr>"

definition demo_selected :: "entry \<times> router" where
  "demo_selected = (case select demo_world ''m'' {} None demo_router of (Inr e, r) \<Rightarrow> (e, r))"

theorem selection_follows_canary_weight_witness:
  "fst demo_selected \<in> set (the (rt_pools (snd demo_selected) ''m'')) \<and> be_healthy (fst demo_selected)
    \<and> be_name (fst demo_selected) \<notin> {}
    \<and> (be_lane (fst demo_selected) = CanaryLane
        \<longleftrightarrow> candidates CanaryLane {} (the (rt_pools (snd demo_selected) ''m'')) \<noteq> []
        \<and> (candidates StableLane {} (the (rt_pools (snd demo_selected) ''m'')) = []
          \<or> ev_random demo_world (rt_draws demo_router) < rt_fraction demo_router))"
proof (rule selection_follows_canary_weight)
  show "select demo_world ''m'' {} None demo_router = (Inr (fst demo_selected), snd demo_selected)"
    by (simp add: demo_selected_def demo_router_def demo_world_def demo_entry_def select_def rt_pool_def refresh_pool_def
        refresh_health_def is_fresh_def clock_def choose_lane_def draw_def candidates_def weighted_choice_def
        rt_fraction_def demo_controller_def demo_policy_def cc_init_def window_init_def cc_start_def cc_record_def
        canary_weight_def Let_def)
qed


end
