(* ===== verification/Faults.thy ===== *)
theory Faults
  imports Tenants "HOL-Library.Product_Lexorder"
begin

text \<open>
  Fault schedules of the chaos harness: \<open>src/turboserve/chaos/faults.py\<close>. The specification
  grammar, the expansion of a schedule into a sorted timeline, and \<open>outage_windows\<close>.

  Times and probabilities are rationals where the code has floats (so no infinities and no
  NaN); Python's \<open>float(text)\<close> is the parameter \<open>flt\<close>, \<open>None\<close> where it raises. The draws
  of the seeded generator are a list of numbers, one per fault that needs one. The text a
  fault is printed as (\<open>describe\<close>, \<open>raw\<close>) is not modelled.
\<close>

section \<open>Specifications\<close>

datatype fault_kind = KillFault | LatencyFault | ErrorFault | PartitionFault

datatype fault_error = FaultError

definition default_restart_delay :: rat where "default_restart_delay = 2"

definition default_grace :: rat where "default_grace = 0"

text \<open>The units in the order the suffixes are tried: longest first.\<close>

definition duration_units :: "(string \<times> rat) list" where
  "duration_units = [(''ms'', 1 / 1000), (''s'', 1), (''m'', 60), (''h'', 3600)]"

definition ends_with :: "string \<Rightarrow> string \<Rightarrow> bool" where
  "ends_with suffix s \<longleftrightarrow> length suffix \<le> length s \<and> drop (length s - length suffix) s = suffix"

fun split_unit :: "(string \<times> rat) list \<Rightarrow> string \<Rightarrow> string \<times> rat" where
  "split_unit [] raw = (raw, 1)"
| "split_unit ((u, scale) # us) raw =
     (if ends_with u raw then (py_strip (take (length raw - length u) raw), scale) else split_unit us raw)"

definition parse_duration :: "(string \<Rightarrow> rat option) \<Rightarrow> string \<Rightarrow> fault_error + rat" where
  "parse_duration flt s =
     (let raw = py_lower (py_strip s) in
      if raw = [] then Inl FaultError
      else let (number, scale) = split_unit duration_units raw in
        (case flt number of
           None \<Rightarrow> Inl FaultError
         | Some x \<Rightarrow> if x < 0 then Inl FaultError else Inr (x * scale)))"

definition parse_probability :: "(string \<Rightarrow> rat option) \<Rightarrow> string \<Rightarrow> fault_error + rat" where
  "parse_probability flt s =
     (let raw = py_strip s in
      if raw = [] then Inl FaultError
      else let (number, scale) = (if ends_with ''%'' raw then (py_strip (butlast raw), 1 / 100) else (raw, 1)) in
        (case flt number of
           None \<Rightarrow> Inl FaultError
         | Some x \<Rightarrow> (let p = x * scale in if \<not> (0 \<le> p \<and> p \<le> 1) then Inl FaultError else Inr p)))"

definition parse_milliseconds :: "(string \<Rightarrow> rat option) \<Rightarrow> string \<Rightarrow> fault_error + rat" where
  "parse_milliseconds flt s =
     (let raw = py_lower (py_strip s) in
      if raw = [] then Inl FaultError
      else if list_ex (\<lambda>(u, _). ends_with u raw) duration_units
      then rbind (parse_duration flt raw) (\<lambda>d. Inr (d * 1000))
      else (case flt raw of
              None \<Rightarrow> Inl FaultError
            | Some x \<Rightarrow> if x < 0 then Inl FaultError else Inr x))"

fun split_on :: "char \<Rightarrow> string \<Rightarrow> string list" where
  "split_on c [] = [[]]"
| "split_on c (x # xs) =
     (if x = c then [] # split_on c xs
      else case split_on c xs of [] \<Rightarrow> [[x]] | w # ws \<Rightarrow> (x # w) # ws)"

fun params_loop :: "string list \<Rightarrow> (string \<times> string) list \<Rightarrow> fault_error + (string \<times> string) list" where
  "params_loop [] ps = Inr ps"
| "params_loop (chunk # chunks) ps =
     (let item = py_strip chunk in
      if item = [] then params_loop chunks ps
      else let (key, sep, v) = partition_at CHR ''='' item in
        if \<not> sep then Inl FaultError
        else let name = py_lower (py_strip key) in
          if name \<in> set (map fst ps) then Inl FaultError
          else params_loop chunks (ps @ [(name, py_strip v)]))"

definition split_params :: "string \<Rightarrow> fault_error + (string \<times> string) list" where
  "split_params s = params_loop (split_on CHR '','' s) []"

record fault =
  ft_kind :: fault_kind
  ft_every :: "rat option"
  ft_start :: "rat option"
  ft_at :: "rat option"
  ft_for :: "rat option"
  ft_restart :: rat
  ft_grace :: rat
  ft_probability :: rat
  ft_latency :: rat
  ft_target :: "string option"

definition not_positive :: "rat option \<Rightarrow> bool" where
  "not_positive x = (case x of None \<Rightarrow> True | Some r \<Rightarrow> r \<le> 0)"

definition fault_check :: "fault \<Rightarrow> fault_error + fault" where
  "fault_check f =
     rbind (rguard (ft_restart f < 0 \<or> ft_grace f < 0) FaultError) (\<lambda>_.
     rbind (rguard (\<not> (0 \<le> ft_probability f \<and> ft_probability f \<le> 1)) FaultError) (\<lambda>_.
     rbind (case ft_kind f of
         KillFault \<Rightarrow> rbind (rguard (not_positive (ft_every f)) FaultError) (\<lambda>_.
           rguard (case ft_start f of None \<Rightarrow> False | Some s \<Rightarrow> s < 0) FaultError)
       | PartitionFault \<Rightarrow> rbind (rguard (ft_at f = None) FaultError) (\<lambda>_.
           rguard (not_positive (ft_for f)) FaultError)
       | LatencyFault \<Rightarrow> rbind (rguard (ft_latency f \<le> 0) FaultError) (\<lambda>_.
           rguard (ft_probability f \<le> 0) FaultError)
       | ErrorFault \<Rightarrow> rguard (ft_probability f \<le> 0) FaultError)
     (\<lambda>_. Inr f)))"

definition kind_of :: "string \<Rightarrow> fault_kind option" where
  "kind_of s = map_of [(''kill'', KillFault), (''latency'', LatencyFault), (''error'', ErrorFault),
     (''partition'', PartitionFault)] s"

definition allowed_keys :: "fault_kind \<Rightarrow> string list" where
  "allowed_keys k =
     (case k of
        KillFault \<Rightarrow> [''every'', ''start'', ''restart'', ''grace'', ''target'']
      | LatencyFault \<Rightarrow> [''p'', ''ms'']
      | ErrorFault \<Rightarrow> [''p'']
      | PartitionFault \<Rightarrow> [''at'', ''for'', ''target''])"

definition opt_param :: "(string \<Rightarrow> fault_error + rat) \<Rightarrow> string \<Rightarrow> (string \<times> string) list \<Rightarrow> fault_error + rat option" where
  "opt_param prs key ps =
     (case map_of ps key of None \<Rightarrow> Inr None | Some v \<Rightarrow> rbind (prs v) (\<lambda>x. Inr (Some x)))"

definition param_or :: "(string \<Rightarrow> fault_error + rat) \<Rightarrow> rat \<Rightarrow> string \<Rightarrow> (string \<times> string) list \<Rightarrow> fault_error + rat" where
  "param_or prs dflt key ps = (case map_of ps key of None \<Rightarrow> Inr dflt | Some v \<Rightarrow> prs v)"

definition blank_fault :: "fault_kind \<Rightarrow> fault" where
  "blank_fault k = \<lparr>ft_kind = k, ft_every = None, ft_start = None, ft_at = None, ft_for = None,
     ft_restart = default_restart_delay, ft_grace = default_grace, ft_probability = 0, ft_latency = 0, ft_target = None\<rparr>"

definition fault_parse :: "(string \<Rightarrow> rat option) \<Rightarrow> string \<Rightarrow> fault_error + fault" where
  "fault_parse flt s =
     (let spec = py_strip s in
      if spec = [] then Inl FaultError
      else let (head, sep, tail) = partition_at CHR '':'' spec in
      case kind_of (py_lower (py_strip head)) of
        None \<Rightarrow> Inl FaultError
      | Some k \<Rightarrow>
        rbind (if sep then split_params tail else Inr []) (\<lambda>ps.
        if list_ex (\<lambda>(key, _). key \<notin> set (allowed_keys k)) ps then Inl FaultError
        else let dur = parse_duration flt;
                 target = (case map_of ps ''target'' of Some t \<Rightarrow> (if t = [] then None else Some t) | None \<Rightarrow> None) in
          (case k of
             KillFault \<Rightarrow>
               rbind (opt_param dur ''every'' ps) (\<lambda>every.
               rbind (opt_param dur ''start'' ps) (\<lambda>start.
               rbind (param_or dur default_restart_delay ''restart'' ps) (\<lambda>restart.
               rbind (param_or dur default_grace ''grace'' ps) (\<lambda>grace.
               fault_check ((blank_fault k)\<lparr>ft_every := every, ft_start := start, ft_restart := restart,
                 ft_grace := grace, ft_target := target\<rparr>)))))
           | PartitionFault \<Rightarrow>
               rbind (opt_param dur ''at'' ps) (\<lambda>moment.
               rbind (opt_param dur ''for'' ps) (\<lambda>len.
               fault_check ((blank_fault k)\<lparr>ft_at := moment, ft_for := len, ft_target := target\<rparr>)))
           | LatencyFault \<Rightarrow>
               rbind (parse_probability flt (case map_of ps ''p'' of None \<Rightarrow> ''0'' | Some v \<Rightarrow> v)) (\<lambda>p.
               rbind (param_or (parse_milliseconds flt) 0 ''ms'' ps) (\<lambda>ms.
               fault_check ((blank_fault k)\<lparr>ft_probability := p, ft_latency := ms\<rparr>)))
           | ErrorFault \<Rightarrow>
               rbind (parse_probability flt (case map_of ps ''p'' of None \<Rightarrow> ''0'' | Some v \<Rightarrow> v)) (\<lambda>p.
               fault_check ((blank_fault k)\<lparr>ft_probability := p\<rparr>)))))"

section \<open>Timelines\<close>

datatype fault_action = Drain | Kill | Restart | PartitionStart | PartitionEnd

text \<open>Recoveries come before disruptions at the same time.\<close>

definition action_order :: "fault_action \<Rightarrow> nat" where
  "action_order a = (case a of Restart \<Rightarrow> 0 | PartitionEnd \<Rightarrow> 1 | Drain \<Rightarrow> 2 | Kill \<Rightarrow> 3 | PartitionStart \<Rightarrow> 4)"

instantiation fault_action :: linorder
begin

definition less_eq_fault_action :: "fault_action \<Rightarrow> fault_action \<Rightarrow> bool" where
  "less_eq_fault_action a b \<longleftrightarrow> action_order a \<le> action_order b"

definition less_fault_action :: "fault_action \<Rightarrow> fault_action \<Rightarrow> bool" where
  "less_fault_action a b \<longleftrightarrow> action_order a < action_order b"

instance
proof
  fix a b :: fault_action
  show "a \<le> b \<Longrightarrow> b \<le> a \<Longrightarrow> a = b"
    by (cases a; cases b) (simp_all add: less_eq_fault_action_def action_order_def)
qed (auto simp: less_eq_fault_action_def less_fault_action_def)

end

definition down_action :: "fault_action \<Rightarrow> bool" where
  "down_action a \<longleftrightarrow> a = Drain \<or> a = Kill \<or> a = PartitionStart"

definition up_action :: "fault_action \<Rightarrow> bool" where
  "up_action a \<longleftrightarrow> a = Restart \<or> a = PartitionEnd"

record fault_event =
  fe_t :: rat
  fe_action :: fault_action
  fe_target :: string
  fe_kind :: fault_kind

record steady =
  sf_latency_probability :: rat
  sf_latency :: rat
  sf_error_probability :: rat

definition of_kind :: "fault_kind \<Rightarrow> fault list \<Rightarrow> fault list" where
  "of_kind k fs = filter (\<lambda>f. ft_kind f = k) fs"

definition schedule_check :: "fault list \<Rightarrow> fault_error + fault list" where
  "schedule_check fs =
     (if 1 < length (of_kind LatencyFault fs) then Inl FaultError
      else if 1 < length (of_kind ErrorFault fs) then Inl FaultError
      else Inr fs)"

definition steady_faults :: "fault list \<Rightarrow> steady" where
  "steady_faults fs =
     (let latency = of_kind LatencyFault fs; errors = of_kind ErrorFault fs in
      \<lparr>sf_latency_probability = (case latency of [] \<Rightarrow> 0 | f # _ \<Rightarrow> ft_probability f),
       sf_latency = (case latency of [] \<Rightarrow> 0 | f # _ \<Rightarrow> ft_latency f),
       sf_error_probability = (case errors of [] \<Rightarrow> 0 | f # _ \<Rightarrow> ft_probability f)\<rparr>)"

definition steady_is_empty :: "steady \<Rightarrow> bool" where
  "steady_is_empty s \<longleftrightarrow> sf_error_probability s \<le> 0 \<and> (sf_latency_probability s \<le> 0 \<or> sf_latency s \<le> 0)"

definition first_at :: "fault \<Rightarrow> rat" where
  "first_at f =
     (if ft_kind f = KillFault \<and> ft_every f \<noteq> None
      then (case ft_start f of None \<Rightarrow> the (ft_every f) | Some s \<Rightarrow> s)
      else (case ft_at f of None \<Rightarrow> 0 | Some a \<Rightarrow> a))"

definition target_or :: "fault \<Rightarrow> string \<Rightarrow> string" where
  "target_or f w = (case ft_target f of None \<Rightarrow> w | Some t \<Rightarrow> if t = [] then w else t)"

text \<open>One occurrence of a repeating kill, and the loop over its moments; it ends since \<open>every\<close> is positive.\<close>

definition kill_triple :: "fault \<Rightarrow> string \<Rightarrow> rat \<Rightarrow> fault_event list" where
  "kill_triple f target moment =
     (let killed_at = moment + ft_grace f in
      (if 0 < ft_grace f then [\<lparr>fe_t = moment, fe_action = Drain, fe_target = target, fe_kind = ft_kind f\<rparr>] else []) @
      [\<lparr>fe_t = killed_at, fe_action = Kill, fe_target = target, fe_kind = ft_kind f\<rparr>,
       \<lparr>fe_t = killed_at + ft_restart f, fe_action = Restart, fe_target = target, fe_kind = ft_kind f\<rparr>])"

function kill_loop :: "fault \<Rightarrow> rat \<Rightarrow> rat \<Rightarrow> string list \<Rightarrow> nat \<Rightarrow> rat \<Rightarrow> fault_event list" where
  "kill_loop f every duration workers n moment =
     (if 0 < every \<and> moment < duration
      then kill_triple f (target_or f (workers ! (n mod length workers))) moment
        @ kill_loop f every duration workers (n + 1) (moment + every)
      else [])"
  by auto

lemma kill_loop_measure:
  assumes "0 < every" "moment < duration"
  shows "nat \<lceil>(duration - (moment + every)) / every\<rceil> < nat \<lceil>(duration - moment) / every\<rceil>"
proof -
  have "(duration - (moment + every)) / every = (duration - moment) / every - 1"
    using assms(1) by (simp add: field_simps)
  moreover have "0 < (duration - moment) / every" using assms by simp
  ultimately show ?thesis by simp
qed

termination kill_loop
  by (relation "measure (\<lambda>(f, every, duration, workers, n, moment). nat \<lceil>(duration - moment) / every\<rceil>)")
    (use kill_loop_measure in auto)

declare kill_loop.simps [simp del]

definition kill_events :: "fault \<Rightarrow> rat \<Rightarrow> string list \<Rightarrow> nat \<Rightarrow> fault_event list" where
  "kill_events f duration workers offset =
     (case ft_every f of None \<Rightarrow> []
      | Some every \<Rightarrow> if every \<le> 0 then [] else kill_loop f every duration workers offset (first_at f))"

definition partition_pair :: "fault \<Rightarrow> string \<Rightarrow> rat \<Rightarrow> rat \<Rightarrow> fault_event list" where
  "partition_pair f target moment len =
     [\<lparr>fe_t = moment, fe_action = PartitionStart, fe_target = target, fe_kind = ft_kind f\<rparr>,
      \<lparr>fe_t = moment + len, fe_action = PartitionEnd, fe_target = target, fe_kind = ft_kind f\<rparr>]"

text \<open>\<open>rnd k n\<close> is the \<open>k\<close>-th number below \<open>n\<close> the generator gives; \<open>k\<close> counts the draws.\<close>

definition partition_events ::
  "fault \<Rightarrow> rat \<Rightarrow> string list \<Rightarrow> (nat \<Rightarrow> nat \<Rightarrow> nat) \<Rightarrow> nat \<Rightarrow> fault_event list \<times> nat" where
  "partition_events f duration workers rnd k =
     (case (ft_at f, ft_for f) of
        (Some moment, Some len) \<Rightarrow>
          if duration \<le> moment then ([], k)
          else if ft_target f = None \<or> ft_target f = Some []
            then (partition_pair f (workers ! rnd k (length workers)) moment len, k + 1)
            else (partition_pair f (the (ft_target f)) moment len, k)
      | _ \<Rightarrow> ([], k))"

fun expand_loop ::
  "rat \<Rightarrow> string list \<Rightarrow> (nat \<Rightarrow> nat \<Rightarrow> nat) \<Rightarrow> fault list \<Rightarrow> nat \<Rightarrow> fault_event list \<Rightarrow> fault_error + fault_event list" where
  "expand_loop duration workers rnd [] k evs = Inr evs"
| "expand_loop duration workers rnd (f # fs) k evs =
     (if (case ft_target f of None \<Rightarrow> False | Some t \<Rightarrow> t \<notin> set workers) then Inl FaultError
      else (case ft_kind f of
          KillFault \<Rightarrow> (if not_positive (ft_every f)
            then expand_loop duration workers rnd fs k evs
            else expand_loop duration workers rnd fs (k + 1)
                   (evs @ kill_events f duration workers (rnd k (length workers))))
        | PartitionFault \<Rightarrow> (let (new, k') = partition_events f duration workers rnd k in
            expand_loop duration workers rnd fs k' (evs @ new))
        | _ \<Rightarrow> expand_loop duration workers rnd fs k evs))"

definition schedule_events ::
  "fault list \<Rightarrow> rat \<Rightarrow> string list \<Rightarrow> (nat \<Rightarrow> nat \<Rightarrow> nat) \<Rightarrow> fault_error + fault_event list" where
  "schedule_events fs duration workers rnd =
     (if duration \<le> 0 then Inl FaultError
      else if workers = [] then Inl FaultError
      else rbind (expand_loop duration workers rnd fs 0 []) (\<lambda>evs.
        Inr (sort_key (\<lambda>e. (fe_t e, fe_action e, fe_target e)) evs)))"

section \<open>Outages of the whole fleet\<close>

definition apply_event :: "fault_event \<Rightarrow> string set \<Rightarrow> string set" where
  "apply_event e down =
     (if down_action (fe_action e) then insert (fe_target e) down
      else if up_action (fe_action e) then down - {fe_target e} else down)"

fun outage_loop ::
  "nat \<Rightarrow> rat \<Rightarrow> fault_event list \<Rightarrow> string set \<Rightarrow> rat option \<Rightarrow> (rat \<times> rat) list \<Rightarrow> (rat \<times> rat) list" where
  "outage_loop fleet duration [] down started windows =
     (case started of None \<Rightarrow> windows | Some s \<Rightarrow> windows @ [(s, duration)])"
| "outage_loop fleet duration (e # es) down started windows =
     (if duration < fe_t e then (case started of None \<Rightarrow> windows | Some s \<Rightarrow> windows @ [(s, duration)])
      else let down' = apply_event e down in
        if fleet \<le> card down' \<and> started = None then outage_loop fleet duration es down' (Some (fe_t e)) windows
        else if card down' < fleet \<and> started \<noteq> None
        then outage_loop fleet duration es down' None (windows @ [(the started, fe_t e)])
        else outage_loop fleet duration es down' started windows)"

definition timeline :: "fault_event list \<Rightarrow> fault_event list" where
  "timeline evs = sort_key (\<lambda>e. (fe_t e, fe_action e)) evs"

definition outage_windows :: "fault_event list \<Rightarrow> string list \<Rightarrow> rat \<Rightarrow> (rat \<times> rat) list" where
  "outage_windows evs workers duration =
     (if workers = [] then [] else outage_loop (card (set workers)) duration (timeline evs) {} None [])"

lemma action_cases: "up_action a \<longleftrightarrow> \<not> down_action a"
  by (cases a) (simp_all add: up_action_def down_action_def)

text \<open>What happened to a replica last, at or before a time.\<close>

definition is_down :: "string \<Rightarrow> rat \<Rightarrow> fault_event list \<Rightarrow> bool" where
  "is_down w \<tau> es =
     (case rev (filter (\<lambda>e. fe_target e = w \<and> fe_t e \<le> \<tau>) es) of [] \<Rightarrow> False | e # _ \<Rightarrow> down_action (fe_action e))"

definition covered :: "(rat \<times> rat) list \<Rightarrow> rat \<Rightarrow> bool" where
  "covered ws \<tau> \<longleftrightarrow> list_ex (\<lambda>(a, b). a \<le> \<tau> \<and> \<tau> < b) ws"

definition state_at :: "rat \<Rightarrow> fault_event list \<Rightarrow> string set \<Rightarrow> string set" where
  "state_at \<tau> es D = fold apply_event (filter (\<lambda>e. fe_t e \<le> \<tau>) es) D"

lemma covered_append [simp]: "covered (ws @ vs) \<tau> \<longleftrightarrow> covered ws \<tau> \<or> covered vs \<tau>"
  by (auto simp: covered_def)

lemma covered_simps [simp]: "\<not> covered [] \<tau>" "covered [(a, b)] \<tau> \<longleftrightarrow> a \<le> \<tau> \<and> \<tau> < b"
  by (simp_all add: covered_def)

lemma state_at_Nil [simp]: "state_at \<tau> [] D = D"
  by (simp add: state_at_def)

lemma state_at_now: "fe_t e \<le> \<tau> \<Longrightarrow> state_at \<tau> (e # es) D = state_at \<tau> es (apply_event e D)"
  by (simp add: state_at_def)

lemma state_at_early:
  assumes "sorted (map fe_t (e # es))" "\<tau> < fe_t e"
  shows "state_at \<tau> (e # es) D = D" "state_at \<tau> es D' = D'"
proof -
  have "filter (\<lambda>e. fe_t e \<le> \<tau>) (e # es) = []" "filter (\<lambda>e. fe_t e \<le> \<tau>) es = []"
    using assms by (auto simp: filter_empty_conv)
  then show "state_at \<tau> (e # es) D = D" "state_at \<tau> es D' = D'" by (simp_all add: state_at_def)
qed

text \<open>The loop covers exactly the times at which the fleet's state, replayed up to them, is dark.\<close>

lemma outage_loop_covers:
  assumes "sorted (map fe_t es)" "\<tau> < duration" "started \<noteq> None \<longleftrightarrow> fleet \<le> card D"
    and "\<And>s. started = Some s \<Longrightarrow> \<forall>e \<in> set es. s \<le> fe_t e"
  shows "covered (outage_loop fleet duration es D started ws) \<tau> \<longleftrightarrow>
    covered ws \<tau> \<or> ((case started of None \<Rightarrow> True | Some s \<Rightarrow> s \<le> \<tau>) \<and> fleet \<le> card (state_at \<tau> es D))"
  using assms
proof (induction es arbitrary: D started ws)
  case Nil
  then show ?case by (auto split: option.splits)
next
  case (Cons e es)
  have so: "sorted (map fe_t es)" and le: "\<forall>x \<in> set es. fe_t e \<le> fe_t x" using Cons.prems(1) by auto
  let ?D = "apply_event e D"
  show ?case
  proof (cases "duration < fe_t e")
    case True
    then have "\<tau> < fe_t e" using Cons.prems(2) by simp
    then have "state_at \<tau> (e # es) D = D" by (rule state_at_early(1) [OF Cons.prems(1)])
    then show ?thesis using True Cons.prems(2,3) by (auto split: option.splits)
  next
    case inside: False
    have early: "state_at \<tau> (e # es) D = D" "state_at \<tau> es ?D = ?D" if "\<tau> < fe_t e"
      using state_at_early [OF Cons.prems(1) that] by simp_all
    have now: "state_at \<tau> (e # es) D = state_at \<tau> es ?D" if "\<not> \<tau> < fe_t e" using that by (simp add: state_at_now)
    show ?thesis
    proof (cases started)
      case None
      then have lit: "\<not> fleet \<le> card D" using Cons.prems(3) by simp
      show ?thesis
      proof (cases "fleet \<le> card ?D")
        case True
        have "covered (outage_loop fleet duration es ?D (Some (fe_t e)) ws) \<tau> \<longleftrightarrow>
            covered ws \<tau> \<or> (fe_t e \<le> \<tau> \<and> fleet \<le> card (state_at \<tau> es ?D))"
          using Cons.IH [OF so Cons.prems(2), of "Some (fe_t e)" ?D ws] True le by simp
        then show ?thesis using None True inside lit early now by (cases "\<tau> < fe_t e") (simp_all add: Let_def)
      next
        case False
        have "covered (outage_loop fleet duration es ?D None ws) \<tau> \<longleftrightarrow>
            covered ws \<tau> \<or> fleet \<le> card (state_at \<tau> es ?D)"
          using Cons.IH [OF so Cons.prems(2), of None ?D ws] False by simp
        then show ?thesis using None False inside lit early now by (cases "\<tau> < fe_t e") (simp_all add: Let_def)
      qed
    next
      case (Some s)
      then have dark: "fleet \<le> card D" and s: "s \<le> fe_t e" "\<forall>x \<in> set es. s \<le> fe_t x"
        using Cons.prems(3,4) by auto
      show ?thesis
      proof (cases "fleet \<le> card ?D")
        case True
        have "covered (outage_loop fleet duration es ?D (Some s) ws) \<tau> \<longleftrightarrow>
            covered ws \<tau> \<or> (s \<le> \<tau> \<and> fleet \<le> card (state_at \<tau> es ?D))"
          using Cons.IH [OF so Cons.prems(2), of "Some s" ?D ws] True s by simp
        then show ?thesis using Some True inside dark early now by (cases "\<tau> < fe_t e") (simp_all add: Let_def)
      next
        case False
        have "covered (outage_loop fleet duration es ?D None (ws @ [(s, fe_t e)])) \<tau> \<longleftrightarrow>
            covered ws \<tau> \<or> (s \<le> \<tau> \<and> \<tau> < fe_t e) \<or> fleet \<le> card (state_at \<tau> es ?D)"
          using Cons.IH [OF so Cons.prems(2), of None ?D "ws @ [(s, fe_t e)]"] False by auto
        then show ?thesis using Some False inside dark s(1) early now
          by (cases "\<tau> < fe_t e") (simp_all add: Let_def)
      qed
    qed
  qed
qed

lemma timeline_sorted: "sorted (map fe_t (timeline evs))"
proof -
  have "sorted (map (\<lambda>e. (fe_t e, fe_action e)) (timeline evs))"
    unfolding timeline_def by (rule sorted_sort_key)
  then show ?thesis unfolding sorted_map by (rule sorted_wrt_mono_rel [rotated]) (auto simp: less_eq_prod_def)
qed

lemma fold_last_event:
  "w \<in> fold apply_event es {} \<longleftrightarrow>
     (case rev (filter (\<lambda>e. fe_target e = w) es) of [] \<Rightarrow> False | e # _ \<Rightarrow> down_action (fe_action e))"
proof (induction es rule: rev_induct)
  case (snoc e es)
  then show ?case by (auto simp: apply_event_def action_cases)
qed simp

lemma state_is_down: "w \<in> state_at \<tau> es {} \<longleftrightarrow> is_down w \<tau> es"
  by (simp add: state_at_def fold_last_event is_down_def conj_commute)

lemma fold_targets: "fold apply_event es D \<subseteq> D \<union> fe_target ` set es"
proof (induction es arbitrary: D)
  case (Cons e es)
  have "apply_event e D \<subseteq> insert (fe_target e) D" by (auto simp: apply_event_def)
  then show ?case using Cons.IH [of "apply_event e D"] by auto
qed simp

section \<open>Expansion\<close>

definition on_fleet :: "string list \<Rightarrow> fault_event list \<Rightarrow> bool" where
  "on_fleet workers evs \<longleftrightarrow> list_all (\<lambda>e. fe_target e \<in> set workers) evs"

text \<open>What goes down has a recovery, no earlier, in the same timeline.\<close>

definition recovered :: "fault_event list \<Rightarrow> bool" where
  "recovered evs \<longleftrightarrow> list_all (\<lambda>e. up_action (fe_action e) \<or>
     list_ex (\<lambda>u. up_action (fe_action u) \<and> fe_target u = fe_target e \<and> fe_t e \<le> fe_t u) evs) evs"

lemma expansion_append:
  "on_fleet ws (xs @ ys) \<longleftrightarrow> on_fleet ws xs \<and> on_fleet ws ys"
  "recovered xs \<Longrightarrow> recovered ys \<Longrightarrow> recovered (xs @ ys)"
  by (auto simp: on_fleet_def recovered_def list_all_iff list_ex_iff)

lemma kill_triple_ok:
  assumes "0 \<le> ft_grace f" "0 \<le> ft_restart f" "w \<in> set ws"
  shows "on_fleet ws (kill_triple f w moment)" "recovered (kill_triple f w moment)"
  using assms by (auto simp: on_fleet_def recovered_def kill_triple_def up_action_def Let_def)

lemma kill_loop_ok:
  assumes "0 \<le> ft_grace f" "0 \<le> ft_restart f" "ws \<noteq> []" "\<And>w. w \<in> set ws \<Longrightarrow> target_or f w \<in> set ws"
  shows "on_fleet ws (kill_loop f every duration ws n moment) \<and> recovered (kill_loop f every duration ws n moment)"
  using assms
proof (induction f every duration ws n moment rule: kill_loop.induct)
  case (1 f every duration ws n moment)
  have nil: "on_fleet ws []" "recovered []" by (simp_all add: on_fleet_def recovered_def)
  have "target_or f (ws ! (n mod length ws)) \<in> set ws" using 1(4,5) by (intro 1(5)) simp
  note T = kill_triple_ok [OF 1(2,3) this]
  show ?case
    using 1 T nil by (subst (1 2) kill_loop.simps) (simp add: expansion_append)
qed

lemma expand_loop_ok:
  assumes "list_all (\<lambda>f. fault_check f = Inr f) fs"
    and "list_all (\<lambda>f. case ft_target f of None \<Rightarrow> True | Some t \<Rightarrow> t \<in> set ws) fs"
    and "ws \<noteq> []" "\<And>k n. 0 < n \<Longrightarrow> rnd k n < n" "on_fleet ws evs" "recovered evs"
  shows "\<exists>out. expand_loop duration ws rnd fs k evs = Inr out \<and> on_fleet ws out \<and> recovered out"
  using assms(1,2,5,6)
proof (induction fs arbitrary: k evs)
  case (Cons f fs)
  have f: "0 \<le> ft_restart f" "0 \<le> ft_grace f" using Cons.prems(1) by (auto simp: fault_check_def)
  have known: "\<not> (case ft_target f of None \<Rightarrow> False | Some t \<Rightarrow> t \<notin> set ws)"
    using Cons.prems(2) by (auto split: option.splits)
  have pick: "target_or f w \<in> set ws" if "w \<in> set ws" for w
    using that Cons.prems(2) by (auto simp: target_or_def split: option.splits)
  have next_ok: "\<exists>out. expand_loop duration ws rnd fs k' (evs @ new) = Inr out \<and> on_fleet ws out \<and> recovered out"
    if "on_fleet ws new" "recovered new" for k' new
    using Cons.IH [of "evs @ new" k'] Cons.prems that by (simp add: expansion_append)
  have nil: "on_fleet ws []" "recovered []" by (simp_all add: on_fleet_def recovered_def)
  show ?case
  proof (cases "ft_kind f")
    case KillFault
    then have "\<not> not_positive (ft_every f)" using Cons.prems(1) by (auto simp: fault_check_def)
    moreover have "on_fleet ws (kill_events f duration ws (rnd k (length ws))) \<and> recovered (kill_events f duration ws (rnd k (length ws)))"
      using kill_loop_ok [OF f(2,1) assms(3) pick] nil by (simp add: kill_events_def split: option.split)
    ultimately show ?thesis using KillFault known next_ok by simp
  next
    case PartitionFault
    then obtain moment len where ml: "ft_at f = Some moment" "ft_for f = Some len" "0 < len"
      using Cons.prems(1) by (auto simp: fault_check_def not_positive_def split: option.splits)
    have draw: "ws ! rnd k (length ws) \<in> set ws" using assms(3,4) by simp
    have pp: "on_fleet ws (partition_pair f w moment len) \<and> recovered (partition_pair f w moment len)" if "w \<in> set ws" for w
      using that ml(3) by (auto simp: on_fleet_def recovered_def partition_pair_def up_action_def)
    have tgt: "the (ft_target f) \<in> set ws" if "ft_target f \<noteq> None" using that Cons.prems(2) by (auto split: option.splits)
    obtain new k' where new: "partition_events f duration ws rnd k = (new, k')" by (cases "partition_events f duration ws rnd k")
    then have "on_fleet ws new \<and> recovered new"
      using ml(1,2) nil pp [OF draw] pp tgt by (auto simp: partition_events_def split: if_splits)
    then show ?thesis using PartitionFault known next_ok new by simp
  qed (use known next_ok [OF nil] in simp_all)
qed simp

lemma list_all_timeline: "list_all P (sort_key key evs) = list_all P evs" "list_ex P (sort_key key evs) = list_ex P evs"
  by (simp_all add: list_all_iff list_ex_iff)

section \<open>Properties\<close>


definition demo_faults :: "fault list" where
  "demo_faults = [(blank_fault KillFault)\<lparr>ft_every := Some 4, ft_target := Some ''a''\<rparr>,
     (blank_fault PartitionFault)\<lparr>ft_at := Some 3, ft_for := Some 2\<rparr>]"


text \<open>C40: The reported outages are the outages. A time during the run lies in one of the windows
  exactly when every replica is down at that time, where a replica is down when the last thing
  the timeline did to it by then was to drain, kill or partition it.\<close>

theorem outage_windows_exact:
  assumes "workers \<noteq> []" "list_all (\<lambda>e. fe_target e \<in> set workers) evs" "\<tau> < duration"
  shows "list_ex (\<lambda>(a, b). a \<le> \<tau> \<and> \<tau> < b) (outage_windows evs workers duration)
    \<longleftrightarrow> list_all (\<lambda>w. is_down w \<tau> (timeline evs)) workers"
proof -
  let ?S = "state_at \<tau> (timeline evs) {}"
  have fleet: "\<not> card (set workers) \<le> card {}" using assms(1) by (simp add: card_gt_0_iff)
  have "covered (outage_windows evs workers duration) \<tau> \<longleftrightarrow> card (set workers) \<le> card ?S"
    using outage_loop_covers [OF timeline_sorted assms(3), of None "card (set workers)" "{}" evs "[]"] fleet assms(1)
    by (simp add: outage_windows_def)
  also have "\<dots> \<longleftrightarrow> set workers \<subseteq> ?S"
  proof -
    have "set (filter (\<lambda>e. fe_t e \<le> \<tau>) (timeline evs)) \<subseteq> set evs" by (auto simp: timeline_def)
    then have sub: "?S \<subseteq> set workers"
      using fold_targets [of "filter (\<lambda>e. fe_t e \<le> \<tau>) (timeline evs)" "{}"] assms(2)
      unfolding state_at_def list_all_iff by blast
    show ?thesis
    proof
      assume "card (set workers) \<le> card ?S"
      then show "set workers \<subseteq> ?S" using card_seteq [OF finite_set sub] by simp
    next
      assume "set workers \<subseteq> ?S"
      then show "card (set workers) \<le> card ?S" using sub by (simp add: subset_antisym)
    qed
  qed
  also have "\<dots> \<longleftrightarrow> list_all (\<lambda>w. is_down w \<tau> (timeline evs)) workers"
    by (auto simp: list_all_iff state_is_down)
  finally show ?thesis by (simp add: covered_def)
qed

definition demo_fault_event :: "rat \<Rightarrow> fault_action \<Rightarrow> string \<Rightarrow> fault_event" where
  "demo_fault_event t a w = \<lparr>fe_t = t, fe_action = a, fe_target = w, fe_kind = KillFault\<rparr>"

definition demo_outage :: "fault_event list" where
  "demo_outage = [demo_fault_event 1 Kill ''a'', demo_fault_event 2 Kill ''b'',
     demo_fault_event 3 Restart ''a'', demo_fault_event 4 Restart ''b'']"

theorem outage_windows_exact_witness:
  "list_ex (\<lambda>(a, b). a \<le> 5 / 2 \<and> 5 / 2 < b) (outage_windows demo_outage [''a'', ''b''] 10)
    \<longleftrightarrow> list_all (\<lambda>w. is_down w (5 / 2) (timeline demo_outage)) [''a'', ''b'']"
  by (rule outage_windows_exact) (simp_all add: demo_outage_def demo_fault_event_def)

text \<open>
  A kill with neither grace nor restart delay: its restart sorts before it, so the replica that
  should come straight back stays down.
\<close>

lemma instant_restart_stays_down:
  assumes "ft_kind f = KillFault" "ft_grace f = 0" "ft_restart f = 0" "moment \<le> \<tau>"
  shows "is_down w \<tau> (timeline (kill_triple f w moment))"
  using assms by (simp add: timeline_def kill_triple_def is_down_def action_order_def down_action_def
      less_eq_fault_action_def less_eq_prod_def Let_def)

end
