(* ===== verification/Spec2Isabelle.thy ===== *)
theory Spec2Isabelle
  imports Async_Runs Streaming Speculation Lora_Registry Tenants Rate_Limits Canary Usage Router Faults
begin

text \<open>
  A verification library for turboserve, an LLM inference server: the engine that batches
  requests onto a paged KV cache, and the gateway that admits, meters and routes them. All paths
  below are under \<open>src/turboserve/\<close>.

  \<^bold>\<open>The program.\<close> A request enters the gateway (\<open>gateway/\<close>): its API key is
  authenticated against the tenant directory (\<open>auth.py\<close>, \<open>tenants.py\<close>), the tenant's quotas admit
  or refuse it (\<open>limits.py\<close>), the router picks a healthy replica on the stable or the canary lane
  (\<open>router.py\<close>), following the weight the canary controller publishes (\<open>canary/controller.py\<close>) and
  feeding each attempt's outcome back to it, and the usage tracker bills what was produced
  (\<open>usage.py\<close>). In the engine (\<open>engine/core/\<close>) the scheduler batches waiting and running sequences
  under token and sequence budgets, takes KV blocks from a reference-counted pool through the
  block manager, shares full blocks between equal prefixes through a content-addressed cache, and
  preempts when the pool runs dry. Speculative decoding proposes and verifies draft tokens
  (\<open>engine/spec/\<close>), the LoRA registry keeps adapters in a fixed number of GPU slots
  (\<open>engine/lora/\<close>), and the streaming decoder turns token ids into text and cuts it at stop strings
  (\<open>engine/runtime/streaming.py\<close>). The chaos harness expands fault schedules (\<open>chaos/faults.py\<close>).

  \<^bold>\<open>The theories\<close>, in the order they build on each other:

  \<^item> \<open>Prelude\<close>: exceptions as values of a sum type (\<open>rbind\<close>, \<open>rguard\<close>, \<open>rfold\<close>), generic lemmas.
  \<^item> \<open>Block_Allocator\<close> (\<open>engine/core/kv_cache.py\<close>, class \<open>BlockAllocator\<close>), \<open>Hash_Chain\<close> and
    \<open>Prefix_Cache\<close> (\<open>engine/core/prefix_cache.py\<close>). The allocator offers freed blocks to a recycler;
    the locales \<open>block_recycler\<close> and \<open>pinning_recycler\<close> are that contract, interpreted on the
    prefix cache and on "no cache".
  \<^item> \<open>Engine_Types\<close> (\<open>engine/core/types.py\<close>), \<open>Sequences\<close> (\<open>engine/core/sequence.py\<close>).
  \<^item> \<open>Block_Manager\<close> (\<open>engine/core/block_manager.py\<close>) with \<open>Block_Manager_Inv\<close>, \<open>_Ops\<close>, \<open>_Growth\<close>: its
    operations, its invariant, and what each operation does to the references it manages.
  \<^item> \<open>Wait_Queue\<close> and \<open>Scheduler\<close> (\<open>engine/core/scheduler.py\<close>) with \<open>Scheduler_Inv\<close>, \<open>_Step\<close>, \<open>_Loops\<close>,
    \<open>_Safe\<close>, \<open>_Batch\<close>, \<open>_Progress\<close>, \<open>_Reach\<close>: the queue behind the locale \<open>admission_queue\<close>, one step
    of continuous batching, the invariant of every operation, the packed batch, progress, and the
    inductive set of reachable states.
  \<^item> \<open>Paged_Forward\<close>: what a step of \<open>ModelRunner\<close> (\<open>engine/runtime/worker.py\<close>) computes through the
    paged attention of \<open>engine/model/attention.py\<close>; \<open>Paged_Layout\<close> brings the packed batch into the
    form of its items, \<open>Cache_Contents\<close>, \<open>Step_Contents\<close> and \<open>Paged_Step\<close> carry the invariant on what
    slots and cached blocks hold through every operation of the block manager, through one
    scheduling step and through one forward pass.
  \<^item> \<open>Engine\<close> (\<open>engine/runtime/engine.py\<close>): the step loop with its stop conditions and decoders;
    \<open>Engine_Reach\<close>: the states it can reach; \<open>Engine_Runs\<close>: what holds in them.
  \<^item> \<open>Async_Engine\<close> (\<open>engine/runtime/async_engine.py\<close>): the background loop, the step on its thread and
    one generator per client, as events that interleave freely; each function is one stretch of a
    coroutine between two suspensions. \<open>Engine_Effects\<close>: what each engine call means to its clients;
    \<open>Async_Inv\<close>, \<open>Async_Moves\<close> and \<open>Async_Reach\<close>: the invariant, how a request's moves keep it, and all
    interleavings; \<open>Async_Runs\<close>: what holds in them.
  \<^item> \<open>Streaming\<close> (\<open>engine/runtime/streaming.py\<close>): incremental detokenizer and stop-string matcher.
  \<^item> \<open>Speculation\<close> (\<open>engine/spec/ngram.py\<close>, \<open>DraftProposal\<close> of \<open>engine/spec/drafter.py\<close>,
    \<open>engine/spec/verifier.py\<close>): prompt lookup, greedy and rejection-sampling verification.
  \<^item> \<open>Lora_Registry\<close> (\<open>engine/lora/registry.py\<close>, with the slots of \<open>engine/lora/layers.py\<close> and the
    shape check of \<open>engine/lora/adapter.py\<close>).
  \<^item> \<open>Tenants\<close> (\<open>gateway/tenants.py\<close>, \<open>gateway/auth.py\<close>), \<open>Rate_Limits\<close> (\<open>gateway/limits.py\<close>, with the
    locale \<open>slot_gate\<close> for a concurrency slot held during a request), \<open>Canary\<close>
    (\<open>canary/controller.py\<close>, \<open>percentile\<close> of \<open>bench/records.py\<close>, with the locale \<open>weight_source\<close> for
    what a router reads), \<open>Usage\<close> (\<open>gateway/usage.py\<close>, the token events of
    \<open>gateway/backends/protocol.py\<close>), \<open>Router\<close> (\<open>gateway/router.py\<close>, a client of the three).
  \<^item> \<open>Faults\<close> (\<open>chaos/faults.py\<close>).

  \<^bold>\<open>How state is modelled.\<close> A class is a record of its fields, a method a function that returns
  the new record beside its result. A raised exception is \<open>Inl\<close>; the state it leaves behind is
  modelled only where the caller goes on with it (a refused request, a failed attempt). Sequences
  are objects compared by identity: they live once in the scheduler's store and are referred to
  by id. Dicts are maps, or association lists where their order matters. Counters and block ids are
  natural numbers, token bytes and block hashes are 8-bit words, floats are rationals: rounding,
  infinities and NaN are not modelled. Clocks, random numbers, the digest functions, the tokenizer,
  the backends and Python's \<open>float(text)\<close> are parameters.

  \<^bold>\<open>Tensors as terms.\<close> A KV entry is the term of what it was computed from: position, adapter,
  token and the entries attended to. Two slots with equal terms hold equal numbers whatever the
  weights are, so what is shown about terms holds for every model. The model's head and the
  sampler are one function parameter, which covers greedy and seeded requests.

  \<^bold>\<open>What is shown.\<close> About the engine as a whole (\<open>Engine_Runs\<close>): its output is what a dense
  private cache would generate (C1), its pool holds every request's own entries
  (C5), steps never raise and account for every request (C6), kernel
  indices are in bounds (C14), decoders follow requests (C19), a closed
  engine is inert (C20), and the one exception to C1 is real
  (C11). About its asynchronous surface (\<open>Async_Runs\<close>), for every interleaving: clients receive
  their own dense output (C2), streams end exactly once and the loop never dies
  (C7), a waiting client is served (C8), aborts take effect
  (C13), and one abort too many (C12). About the scheduler and the
  pool (this theory): every step returns, keeps the invariant, loses no request and respects both
  budgets, and every reachable state passes the scheduler's own check (C3, C4); no
  KV slot is written twice or seen by another sequence, and blocks are shared only under an equal
  prefix (C9, C10); progress, and the one way it fails
  (C15, C16); leaks and admission (C17, C18);
  fairness of the queue (C21); the token encoding (C22). Beside
  them stand lemmas on the packed batch and its metadata, victims, token outcomes, request acceptance, cache lookup,
  the pool's errors and draining the queue. In the component theories: streamed text is the whole text and stop
  strings are found wherever chunks fall (C23, C24); drafting
  and both verifications are exact (C25, C26,
  C27); adapters are resident, private and never another tenant's
  (C28, C29); keys authenticate exactly (C30); quotas bound
  traffic, waits are exact, and an oversized prompt never passes (C31, C32,
  C33); promotion climbs every step on healthy evidence and windows count recent requests
  (C34, C35); retries happen only before the first event,
  selection follows the weight, slots come back (C36, C37,
  C38); fault schedules expand and recover, outage windows are exact (C39,
  C40).

  \<^bold>\<open>Bounds and termination.\<close> No fuel is used. Loops that consume a list are structural; the
  scheduler's loops, the glob matcher and the repetition of a kill fault have a measure and a
  termination proof; the router's retries recurse on the attempts left.

  \<^bold>\<open>Not modelled:\<close> tensor arithmetic, kernels and weights (\<open>engine/model/\<close> apart from which slots
  the attention reads and writes, the draw in \<open>engine/core/sampler.py\<close>, the LoRA arithmetic),
  the inside of an engine step that \<open>close()\<close> overtakes on its thread, concurrency in the gateway (one
  request at a time goes through the router), the speculative step hook, HTTP, YAML and telemetry (\<open>gateway/app.py\<close> and its
  neighbours), Kubernetes and Prometheus clients, the process side of the chaos harness, and the
  benchmark and reporting scripts. The model-based drafter and \<open>verify_batch\<close> are tensor plumbing
  around what \<open>Speculation\<close> models.
\<close>


section \<open>Concrete runs used by the witnesses\<close>

definition demo_digest :: digest where
  "demo_digest = (\<lambda>m. [of_nat (length m)])"

definition demo_config :: scheduler_config where
  "demo_config = \<lparr>max_num_seqs = 4, max_num_batched_tokens = 8, cfg_block_size = 2,
     cfg_num_blocks = Some 4, enable_chunked_prefill = True, enable_prefix_caching = False,
     policy = Fcfs, tenant_weights = []\<rparr>"

definition demo_start :: "scheduler_config \<Rightarrow> sched" where
  "demo_start cfg = (case sched_init cfg None of Inr s \<Rightarrow> s)"

definition demo_calls :: "call list" where
  "demo_calls = [AddRequest ''a'' [5, 6, 7] None ''t'' 0 0 0, AddRequest ''b'' [5, 6] None ''u'' 1 0 0]"

definition demo_after :: "digest \<Rightarrow> scheduler_config \<Rightarrow> call list \<Rightarrow> sched" where
  "demo_after D cfg cs = (case perform_all D cs (demo_start cfg) of Inr s \<Rightarrow> s)"

lemma demo_start_eq: "cfg_num_blocks cfg = Some n \<Longrightarrow> 1 \<le> cfg_block_size cfg \<Longrightarrow>
   sched_init cfg None = Inr (demo_start cfg)"
  using bm_create_inv [of "int n" "int (cfg_block_size cfg)" "enable_prefix_caching cfg"]
    bm_create_returns [of "int n" "int (cfg_block_size cfg)" "enable_prefix_caching cfg"]
  by (auto simp: demo_start_def sched_init_def)

text \<open>Calls that are allowed in every state lead from a fresh scheduler to a reachable state.\<close>

lemma reachable_all:
  "reachable D cfg s \<Longrightarrow> list_all (\<lambda>c. \<forall>s. allowed c s) cs \<Longrightarrow> perform_all D cs s = Inr s' \<Longrightarrow>
   reachable D cfg s'"
  by (induction cs arbitrary: s) (auto intro: reachable.step)

lemma demo_reachable:
  assumes "returns (perform_all D cs (demo_start cfg))" and "cfg_num_blocks cfg = Some n" "1 \<le> cfg_block_size cfg"
    and "list_all (\<lambda>c. \<forall>s. allowed c s) cs"
  shows "reachable D cfg (demo_after D cfg cs)"
proof -
  have "reachable D cfg (demo_start cfg)"
    using demo_start_eq [OF assms(2,3)] by (rule reachable.start)
  moreover have "perform_all D cs (demo_start cfg) = Inr (demo_after D cfg cs)"
    using assms(1) by (auto simp: demo_after_def returns_def)
  ultimately show ?thesis using reachable_all assms(4) by blast
qed

definition demo_queue :: sched where
  "demo_queue = demo_after demo_digest demo_config demo_calls"

lemma demo_queued: "reachable demo_digest demo_config demo_queue"
proof -
  have "returns (perform_all demo_digest demo_calls (demo_start demo_config))" by code_simp
  then show ?thesis
    unfolding demo_queue_def
    by (rule demo_reachable) (simp_all add: demo_config_def demo_calls_def allowed_def encodable_def fits64_def)
qed

section \<open>The scheduler\<close>

text \<open>C3: One step never fails and never loses anybody. From every state that satisfies the
  scheduler's invariant, \<open>schedule\<close> returns (no \<open>ValueError\<close>, \<open>OutOfBlocksError\<close> or
  \<open>InvalidBlockError\<close> reaches the engine, both loops end), the invariant holds again, every
  request is still running, preempted or waiting, and the batch respects both budgets.\<close>

theorem schedule_safe:
  assumes "sched_inv D s"
  shows "\<exists>out s'. schedule D now s = Inr (out, s') \<and> sched_inv D s' \<and> everyone s' = everyone s
    \<and> (\<forall>x. token_ids (obj x s') = token_ids (obj x s))
    \<and> num_batched_tokens out \<le> max_num_batched_tokens (s_config s)
    \<and> length (out_scheduled out) \<le> max_num_seqs (s_config s)"
proof -
  obtain out s' where r: "schedule D now s = Inr (out, s')" "sched_inv D s'" and w: "world s s'"
    and b: "batch_ok s' out"
    using schedule_ok [OF assms] by blast
  have "s_config s' = s_config s" "everyone s' = everyone s" "same_seq (obj x s) (obj x s')" for x
    using w by (simp_all add: world_def)
  then show ?thesis using r b same_seq_tokens unfolding batch_ok_def by metis
qed

theorem schedule_safe_witness:
  "\<exists>out s'. schedule demo_digest 0 demo_queue = Inr (out, s') \<and> sched_inv demo_digest s'"
  using schedule_safe [OF reachable_inv [OF demo_queued], of 0] by blast

text \<open>C4: In every state the engine can drive the scheduler into, by adding requests,
  scheduling, appending sampled tokens to running sequences, finishing, aborting and
  resetting in any order, the scheduler's own \<open>check_invariants\<close> passes: queue membership
  matches status, preempted sequences hold no blocks, the request index counts exactly the
  queued sequences, and the pool, the cache and the reference counts agree.\<close>

theorem reachable_consistent:
  assumes "reachable D cfg s"
  shows "sched_check s = Inr ()"
  by (rule sched_check_ok [OF reachable_inv [OF assms]])

theorem reachable_consistent_witness:
  "sched_check demo_queue = Inr ()"
  by (rule reachable_consistent [OF demo_queued])

text \<open>C9: Memory safety of the batch. The tokens of one step are written to pairwise distinct
  KV slots; every block written to has exactly one reference among all running sequences, and
  it is not in the prefix cache, so no other sequence reads or writes it.\<close>

theorem schedule_slots_private:
  assumes "sched_inv D s"
  shows "\<exists>out s'. schedule D now s = Inr (out, s')
    \<and> distinct (concat (map d_slots (out_scheduled out)))
    \<and> (\<forall>d p. d \<in> set (out_scheduled out) \<longrightarrow> p \<in> set (item_positions d) \<longrightarrow>
         (let b = d_block_table d ! (p div cfg_block_size (s_config s)) in
          count (refs (s_seqs s') (s_running s')) b = 1 \<and> \<not> pc_contains b (bm_cache (s_bm s'))))"
proof -
  obtain out s' where r: "schedule D now s = Inr (out, s')" and i: "sched_inv D s'" and w: "world s s'"
    and b: "batch_ok s' out"
    using schedule_ok [OF assms] by blast
  have "bm_block_size (s_bm s') = cfg_block_size (s_config s)"
    using i w by (simp add: sched_inv_def world_def)
  then show ?thesis
    using r batch_slots_distinct [OF i b] written_block_exclusive [OF i b] unfolding Let_def by metis
qed

theorem schedule_slots_private_witness:
  "\<exists>out s'. schedule demo_digest 0 demo_queue = Inr (out, s')
     \<and> distinct (concat (map d_slots (out_scheduled out)))"
  using schedule_slots_private [OF reachable_inv [OF demo_queued], of 0] by blast

text \<open>C10: No cross-request leakage through shared blocks. When two running sequences hold the
  same KV block and the digest has no collision among the messages the two hash, the block is at
  the same place in both tables and both were computed from the same adapter and the very
  same tokens up to and including that block.\<close>

theorem shared_block_same_prefix:
  assumes "sched_inv D s" and "x \<in> set (s_running s)" "y \<in> set (s_running s)" "x \<noteq> y"
    and "i < length (q_table (obj x s))" "j < length (q_table (obj y s))"
    and "q_table (obj x s) ! i = q_table (obj y s) ! j"
    and "digest_ok D S"
    and "chain_messages D (cfg_block_size (s_config s)) (q_lora (obj x s)) (token_ids (obj x s)) (Suc i) \<subseteq> S"
    and "chain_messages D (cfg_block_size (s_config s)) (q_lora (obj y s)) (token_ids (obj y s)) (Suc j) \<subseteq> S"
  shows "i = j \<and> q_lora (obj x s) = q_lora (obj y s)
    \<and> take (Suc i * cfg_block_size (s_config s)) (token_ids (obj x s))
      = take (Suc i * cfg_block_size (s_config s)) (token_ids (obj y s))"
proof -
  let ?bs = "cfg_block_size (s_config s)"
  have bs: "bm_block_size (s_bm s) = ?bs" and c: "score D s" using assms(1) by (simp_all add: sched_inv_def)
  have h: "chain_of D ?bs (obj x s) i = chain_of D ?bs (obj y s) j"
    unfolding bs [symmetric] by (rule running_share [OF c assms(2-7)])
  show ?thesis
    using chain_identifies_prefix [OF assms(8,9,10), of] h running_sane [OF c assms(2)] running_sane [OF c assms(3)]
    unfolding chain_of_def seq_sane_def by blast
qed

definition share_config :: scheduler_config where
  "share_config = \<lparr>max_num_seqs = 4, max_num_batched_tokens = 8, cfg_block_size = 1,
     cfg_num_blocks = Some 6, enable_chunked_prefill = True, enable_prefix_caching = True,
     policy = Fcfs, tenant_weights = []\<rparr>"

definition tail_digest :: digest where
  "tail_digest m = drop (length m - 16) m"

definition share_calls :: "call list" where
  "share_calls = [AddRequest ''a'' [5, 6] None ''t'' 0 0 0, Schedule 0,
     AddRequest ''b'' [5, 7] None ''t'' 0 0 0, Schedule 1]"

definition share_state :: sched where
  "share_state = demo_after tail_digest share_config share_calls"

lemma share_reachable: "reachable tail_digest share_config share_state"
proof -
  have "returns (perform_all tail_digest share_calls (demo_start share_config))" by code_simp
  then show ?thesis
    unfolding share_state_def
    by (rule demo_reachable) (simp_all add: share_config_def share_calls_def allowed_def encodable_def fits64_def)
qed

lemma share_facts:
  "s_running share_state = [0, 1]" "q_table (obj 0 share_state) = [0, 1]" "q_table (obj 1 share_state) = [0, 2]"
  "q_lora (obj 0 share_state) = 0" "q_lora (obj 1 share_state) = 0"
  "token_ids (obj 0 share_state) = [5, 6]" "token_ids (obj 1 share_state) = [5, 7]"
  "cfg_block_size (s_config share_state) = 1"
  by code_simp+

lemmas share_simps = share_facts share_facts [unfolded One_nat_def]

theorem shared_block_same_prefix_witness:
  "(0::nat) = 0 \<and> q_lora (obj 0 share_state) = q_lora (obj 1 share_state)
     \<and> take (Suc 0 * cfg_block_size (s_config share_state)) (token_ids (obj 0 share_state))
       = take (Suc 0 * cfg_block_size (s_config share_state)) (token_ids (obj 1 share_state))"
proof (rule shared_block_same_prefix)
  show "sched_inv tail_digest share_state" using share_reachable by (rule reachable_inv)
  let ?S = "chain_messages tail_digest 1 0 [5, 6] (Suc 0)"
  show "digest_ok tail_digest ?S"
    by (simp add: digest_ok_def inj_on_def tail_digest_def root_message_def hash_message_def root_hash_def
        block_slice_def tokens_bytes_def le64_def upt_conv_Cons)
  show "chain_messages tail_digest (cfg_block_size (s_config share_state)) (q_lora (obj 0 share_state))
      (token_ids (obj 0 share_state)) (Suc 0) \<subseteq> ?S"
    by (simp add: share_simps)
  show "chain_messages tail_digest (cfg_block_size (s_config share_state)) (q_lora (obj 1 share_state))
      (token_ids (obj 1 share_state)) (Suc 0) \<subseteq> ?S"
    by (simp add: share_simps block_slice_def)
qed (simp_all add: share_simps)

text \<open>The attention metadata built from a step's batch is well formed: \<open>build_attn_metadata\<close>
  returns, and \<open>AttnMetadata.validate\<close> accepts the result, so the query offsets partition the
  packed batch and every block table covers its context without reaching a padding entry.\<close>

theorem attention_metadata_valid:
  assumes "sched_inv D s" and "schedule D now s = Inr (out, s')" and "\<not> out_is_empty out"
  shows "\<exists>meta. build_attn_metadata (int (cfg_block_size (s_config s))) None out = Inr meta
    \<and> am_validate (Some (int (cfg_block_size (s_config s)))) meta = Inr ()"
proof -
  have "sched_inv D s' \<and> batch_ok s' out \<and> world s s'"
    using schedule_ok [OF assms(1), of now] assms(2) by auto
  then show ?thesis
    using batch_metadata_valid [of D s' out None] assms(3) by (simp add: world_def out_is_empty_def)
qed

definition demo_step :: "sched_out \<times> sched" where
  "demo_step = (case schedule demo_digest 0 demo_queue of Inr r \<Rightarrow> r)"

lemma demo_step_eq: "schedule demo_digest 0 demo_queue = Inr (fst demo_step, snd demo_step)"
  using schedule_ok [OF reachable_inv [OF demo_queued], of 0] by (auto simp: demo_step_def)

theorem attention_metadata_valid_witness:
  "\<exists>meta. build_attn_metadata (int (cfg_block_size (s_config demo_queue))) None (fst demo_step) = Inr meta
     \<and> am_validate (Some (int (cfg_block_size (s_config demo_queue)))) meta = Inr ()"
proof (rule attention_metadata_valid [OF reachable_inv [OF demo_queued] demo_step_eq])
  show "\<not> out_is_empty (fst demo_step)" by code_simp
qed

text \<open>What the batch computes. Every scheduled item feeds the model exactly the sequence's
  next tokens: they end at the new computed length, the positions match, the context does not
  pass the known tokens, a token is sampled exactly when the item reaches the end of the prompt,
  and prefills come first.\<close>

theorem schedule_computes_next_tokens:
  assumes "sched_inv D s" and "schedule D now s = Inr (out, s')" and "i < length (out_scheduled out)"
  shows "let d = out_scheduled out ! i; q = obj (d_seq d) s'; start = d_context_len d - d_num_new d in
    q_status q = Running \<and> d_context_len d = q_computed q \<and> d_context_len d \<le> num_tokens q
    \<and> 1 \<le> d_num_new d \<and> d_token_ids d = take (d_num_new d) (drop start (token_ids q))
    \<and> item_positions d = [start..<start + d_num_new d]
    \<and> (samples_token d \<longleftrightarrow> num_prompt_tokens q \<le> d_context_len d)
    \<and> (i < out_prefill_seqs out \<longleftrightarrow> start < num_prompt_tokens q)"
proof -
  have f: "sched_inv D s'" "batch_ok s' out"
    using schedule_ok [OF assms(1), of now] assms(2) by auto
  let ?d = "out_scheduled out ! i"
  have mem: "?d \<in> set (out_scheduled out)" using assms(3) by simp
  note bi = batch_item [OF f mem]
  have "q_status (obj (d_seq ?d) s') = Running"
    using bi(2) f(1) by (auto simp: sched_inv_def core_def live_def obj_def)
  moreover have "d_is_prefill ?d \<longleftrightarrow> i < out_prefill_seqs out" using f(2) assms(3) by (simp add: batch_ok_def)
  ultimately show ?thesis
    using item_facts [OF bi(1)] unfolding Let_def obj_def item_start_def by auto
qed

theorem schedule_computes_next_tokens_witness:
  "let d = out_scheduled (fst demo_step) ! 0; q = obj (d_seq d) (snd demo_step);
       start = d_context_len d - d_num_new d in
    q_status q = Running \<and> d_context_len d = q_computed q \<and> d_context_len d \<le> num_tokens q
    \<and> 1 \<le> d_num_new d \<and> d_token_ids d = take (d_num_new d) (drop start (token_ids q))
    \<and> item_positions d = [start..<start + d_num_new d]
    \<and> (samples_token d \<longleftrightarrow> num_prompt_tokens q \<le> d_context_len d)
    \<and> (0 < out_prefill_seqs (fst demo_step) \<longleftrightarrow> start < num_prompt_tokens q)"
proof (rule schedule_computes_next_tokens [OF reachable_inv [OF demo_queued] demo_step_eq])
  show "0 < length (out_scheduled (fst demo_step))" by code_simp
qed




definition tiny_config :: scheduler_config where
  "tiny_config = demo_config\<lparr>cfg_num_blocks := Some 1\<rparr>"

definition tiny_first :: sched where
  "tiny_first = demo_after demo_digest tiny_config [AddRequest ''a'' [5, 6] None ''t'' 0 0 0, Schedule 0]"

definition tiny_state :: sched where
  "tiny_state = (case perform_all demo_digest [AppendToken 0 7 None 1, Schedule 1] tiny_first of Inr s \<Rightarrow> s)"

lemma tiny_reachable: "reachable demo_digest tiny_config tiny_state"
proof -
  have "returns (perform_all demo_digest [AddRequest ''a'' [5, 6] None ''t'' 0 0 0, Schedule 0] (demo_start tiny_config))"
    by code_simp
  then have 1: "reachable demo_digest tiny_config tiny_first"
    unfolding tiny_first_def
    by (rule demo_reachable) (simp_all add: tiny_config_def demo_config_def allowed_def encodable_def fits64_def)
  have "0 \<in> set (s_running tiny_first)" by code_simp
  then have "allowed (AppendToken 0 7 None 1) tiny_first" by (simp add: allowed_def fits64_def)
  moreover have "returns (perform_all demo_digest [AppendToken 0 7 None 1, Schedule 1] tiny_first)" by code_simp
  then have "perform_all demo_digest [AppendToken 0 7 None 1, Schedule 1] tiny_first = Inr tiny_state"
    unfolding tiny_state_def by (auto simp: returns_def)
  then obtain s1 where "perform demo_digest (AppendToken 0 7 None 1) tiny_first = Inr s1"
    "perform demo_digest (Schedule 1) s1 = Inr tiny_state" by auto
  ultimately show ?thesis
    using 1 by (meson reachable.step allowed_schedule)
qed


text \<open>The preemption policy. The victim is a running sequence that is neither the requester nor
  already in the batch, and no such sequence has a lower priority, or the same priority and a
  later id.\<close>

theorem victim_is_lowest_priority_newest:
  assumes "pick_victim ids r s = Some v"
  shows "v \<in> set (s_running s) \<and> v \<noteq> r \<and> v \<notin> ids
    \<and> (\<forall>x \<in> set (s_running s). x \<noteq> r \<longrightarrow> x \<notin> ids \<longrightarrow> q_status (obj x s) = Running \<longrightarrow>
         q_priority (obj v s) < q_priority (obj x s)
         \<or> (q_priority (obj v s) = q_priority (obj x s) \<and> x \<le> v))"
  using assms unfolding pick_victim_def by (drule_tac py_min_least) (auto simp: less_eq_prod_def)

theorem victim_is_lowest_priority_newest_witness:
  "0 \<in> set (s_running (snd demo_step)) \<and> 0 \<noteq> (5::nat) \<and> (0::nat) \<notin> {}
    \<and> (q_priority (obj 0 (snd demo_step)) < q_priority (obj 1 (snd demo_step))
       \<or> (q_priority (obj 0 (snd demo_step)) = q_priority (obj 1 (snd demo_step)) \<and> (1::nat) \<le> 0))"
proof -
  have v: "pick_victim {} 5 (snd demo_step) = Some 0" by code_simp
  have r: "1 \<in> set (s_running (snd demo_step))" "q_status (obj 1 (snd demo_step)) = Running" by code_simp+
  have n: "(1::nat) \<noteq> 5" "(1::nat) \<notin> {}" by simp_all
  note f = victim_is_lowest_priority_newest [OF v]
  show ?thesis
    using f [THEN conjunct1] f [THEN conjunct2, THEN conjunct1] f [THEN conjunct2, THEN conjunct2, THEN conjunct1]
      f [THEN conjunct2, THEN conjunct2, THEN conjunct2, rule_format, OF r(1) n r(2)] by blast
qed

text \<open>C17: No block leaks. Whenever no sequence is running, whatever was finished, aborted or
  preempted before, every block of the pool can be handed out again.\<close>

theorem no_block_leaks:
  assumes "reachable D cfg s" "s_running s = []"
  shows "num_allocatable (bm_alloc (s_bm s)) = a_num_blocks (bm_alloc (s_bm s))"
proof -
  have "bm_inv {#} (s_bm s)" using reachable_inv [OF assms(1)] assms(2) by (simp add: sched_inv_def core_def)
  then show ?thesis using bm_allocatable by fastforce
qed

theorem no_block_leaks_witness:
  "num_allocatable (bm_alloc (s_bm tiny_state)) = a_num_blocks (bm_alloc (s_bm tiny_state))"
  by (rule no_block_leaks [OF tiny_reachable]) code_simp

text \<open>Recording a sampled token. For a running sequence \<open>append_token\<close> never raises; without
  a stop condition the sequence goes on with the token appended, with one it is retired:
  finished, out of every queue, its blocks returned.\<close>

theorem append_token_outcome:
  assumes "sched_inv D s" "x \<in> set (s_running s)" "fits64 t"
  shows "\<exists>reason s'. append_token D x t eos now s = Inr (reason, s') \<and> sched_inv D s'
    \<and> (reason = None \<longrightarrow> everyone s' = everyone s \<and> token_ids (obj x s') = token_ids (obj x s) @ [t])
    \<and> (reason \<noteq> None \<longrightarrow> everyone s' = everyone s - {x} \<and> q_status (obj x s') = Finished
         \<and> q_output (obj x s') = q_output (obj x s) @ [t])"
  by (rule append_token_ok [OF assms])

theorem append_token_outcome_witness:
  "\<exists>reason s'. append_token tail_digest 0 9 None 3 share_state = Inr (reason, s') \<and> sched_inv tail_digest s'"
proof -
  have "0 \<in> set (s_running share_state)" by (simp add: share_simps)
  from append_token_outcome [OF reachable_inv [OF share_reachable] this, of 9 None 3] show ?thesis
    by (auto simp: fits64_def)
qed

text \<open>Which requests are accepted. \<open>add_request\<close> returns exactly when the id is not in
  flight, the prompt is not empty, the adapter slot is not negative, the prompt's blocks fit the
  pool and, with chunked prefill off, the prompt fits one step.\<close>

theorem add_request_accepts_iff:
  "returns (add_request rid tokens params tenant prio lora arrival s) \<longleftrightarrow>
     s_by_request s rid = None \<and> tokens \<noteq> [] \<and> no_lora \<le> lora
     \<and> ceil_div (length tokens) (cfg_block_size (s_config s)) \<le> a_num_blocks (bm_alloc (s_bm s))
     \<and> (enable_chunked_prefill (s_config s) \<or> length tokens \<le> max_num_batched_tokens (s_config s))"
  by (rule add_request_accepts)

text \<open>Logits are gathered from the right rows: the \<open>k\<close>-th index is the last row of the
  \<open>k\<close>-th sampling sequence's stretch of the packed batch.\<close>

theorem sample_indices_are_last_rows:
  "sample_indices out = map (\<lambda>i. sum_list (map d_num_new (take (Suc i) (out_scheduled out))) - 1)
     (filter (\<lambda>i. samples_token (out_scheduled out ! i)) [0..<length (out_scheduled out)])"
  by (simp add: sample_indices_def sample_loop_last)

section \<open>The admission queue\<close>


definition fair_queue :: wait_queue where
  "fair_queue = wq_push 4 ''b'' (wq_push 3 ''a'' (wq_push 2 ''a'' (wq_push 1 ''b'' (wq_push 0 ''a''
     (wq_init True [(''a'', 2)])))))"

definition fair_ten :: "nat \<Rightarrow> string" where
  "fair_ten x = (if x \<in> {1, 4} then ''b'' else ''a'')"


text \<open>Draining the queue hands out every waiting request exactly once, under both policies.\<close>

theorem queue_drains_completely:
  assumes "wq_inv ten w"
  shows "\<exists>xs w'. wq.drain (length (wq_items w)) w = Inr (xs, w') \<and> mset xs = mset (wq_items w)
    \<and> wq_items w' = []"
  using wq.drain_all [OF assms] by blast

theorem queue_drains_completely_witness:
  "\<exists>xs w'. wq.drain (length (wq_items fair_queue)) fair_queue = Inr (xs, w')
     \<and> mset xs = mset (wq_items fair_queue) \<and> wq_items w' = []"
proof (rule queue_drains_completely)
  show "wq_inv fair_ten fair_queue"
    unfolding fair_queue_def
    by (intro wq_push_inv) (simp_all add: wq_inv_def wq_init_def fair_ten_def)
qed

section \<open>Blocks, prefixes, sequences\<close>


definition demo_bman :: bman where
  "demo_bman = (case bm_create 4 2 True of Inr m \<Rightarrow> m)"

definition demo_seq :: seqn where
  "demo_seq = (case seq_init 0 ''a'' [5, 6, 7] sampling_default ''t'' 0 0 of Inr q \<Rightarrow> q)"

lemma demo_bman_inv: "bm_inv {#} demo_bman"
proof -
  have "bm_create 4 2 True = Inr demo_bman"
    using bm_create_returns [of 4 2 True] by (auto simp: demo_bman_def)
  then show ?thesis using bm_create_inv by blast
qed

lemma demo_seq_sane: "seq_sane demo_seq" "q_table demo_seq = []"
  by (simp_all add: demo_seq_def seq_init_def no_lora_def seq_sane_def seq_wf_def num_tokens_def token_ids_def
      encodable_def fits64_def)


text \<open>A prefix lookup returns the longest indexed run: the blocks found are those indexed under
  the chain hashes of the query's own first blocks, and the run stops only at the end of the full
  blocks or at a block that is not indexed.\<close>

theorem lookup_finds_longest_prefix:
  assumes "encodable lora tokens" "pc_match D tokens lora mb rec c = Inr (m, c')"
  shows "m_hashes m = map (\<lambda>i. prefix_hash D (c_block_size c) lora tokens (Suc i)) [0..<pm_num_blocks m]
    \<and> map (c_by_hash c) (m_hashes m) = map Some (m_blocks m)
    \<and> pm_num_blocks m \<le> num_full_blocks tokens (c_block_size c) mb
    \<and> (pm_num_blocks m < num_full_blocks tokens (c_block_size c) mb \<longrightarrow>
         c_by_hash c (prefix_hash D (c_block_size c) lora tokens (Suc (pm_num_blocks m))) = None)"
  using pc_match_run [OF assms(1), of D mb rec c] assms(2) by auto

definition demo_cache :: pcache where
  "demo_cache = (case pc_insert 3 (prefix_hash tail_digest 2 0 [5, 6] 1) (no_cache 2) of Inr (_, c) \<Rightarrow> c)"

definition demo_match :: "pmatch \<times> pcache" where
  "demo_match = (case pc_match tail_digest [5, 6, 7, 8] 0 None False demo_cache of Inr r \<Rightarrow> r)"

theorem lookup_finds_longest_prefix_witness:
  "map (c_by_hash demo_cache) (m_hashes (fst demo_match)) = [Some 3]
   \<and> c_by_hash demo_cache (prefix_hash tail_digest (c_block_size demo_cache) 0 [5, 6, 7, 8] 2) = None"
proof -
  have "returns (pc_match tail_digest [5, 6, 7, 8] 0 None False demo_cache)" by code_simp
  then have m: "pc_match tail_digest [5, 6, 7, 8] 0 None False demo_cache = Inr (fst demo_match, snd demo_match)"
    by (auto simp: demo_match_def)
  have e: "encodable 0 [5, 6, 7, 8]" by (simp add: encodable_def fits64_def)
  have f: "m_blocks (fst demo_match) = [3]" "num_full_blocks [5, 6, 7, 8] (c_block_size demo_cache) None = 2" by code_simp+
  note r = lookup_finds_longest_prefix [OF e m]
  show ?thesis
  proof
    show "map (c_by_hash demo_cache) (m_hashes (fst demo_match)) = [Some 3]"
      using r [THEN conjunct2, THEN conjunct1] f(1) by simp
    have n: "pm_num_blocks (fst demo_match) = 1" using f(1) by (simp add: pm_num_blocks_def)
    show "c_by_hash demo_cache (prefix_hash tail_digest (c_block_size demo_cache) 0 [5, 6, 7, 8] 2) = None"
      using r [THEN conjunct2, THEN conjunct2, THEN conjunct2] n f(2) by (simp add: numeral_2_eq_2)
  qed
qed

text \<open>Reserving several blocks is all or nothing: with room \<open>allocate_many\<close> returns that many
  distinct, previously unreferenced blocks, evicting cached ones as needed; without, it raises
  \<open>OutOfBlocksError\<close>.\<close>

theorem allocate_many_all_or_nothing:
  assumes "bm_inv M m" "0 \<le> n"
  shows "(nat n \<le> num_allocatable (bm_alloc m) \<longrightarrow>
      (\<exists>bs a' c'. allocate_many (bm_recycler m) n (bm_alloc m, bm_cache m) = Inr (bs, a', c')
         \<and> length bs = nat n \<and> distinct bs \<and> set bs \<inter> set_mset M = {}))
    \<and> (num_allocatable (bm_alloc m) < nat n \<longrightarrow>
         allocate_many (bm_recycler m) n (bm_alloc m, bm_cache m) = Inl OutOfBlocksError)"
  using block_recycler.allocate_many_pool [OF recycling bm_inv_pool [OF assms(1)] assms(2)] by blast

theorem allocate_many_all_or_nothing_witness:
  "\<exists>bs a' c'. allocate_many (bm_recycler demo_bman) 3 (bm_alloc demo_bman, bm_cache demo_bman) = Inr (bs, a', c')
     \<and> length bs = 3 \<and> distinct bs"
proof -
  have "nat 3 \<le> num_allocatable (bm_alloc demo_bman)" by code_simp
  then show ?thesis using allocate_many_all_or_nothing [OF demo_bman_inv, of 3] by fastforce
qed

text \<open>A double free is an error, never corruption: releasing a block that nobody references
  raises \<open>InvalidBlockError\<close>.\<close>

theorem double_free_is_an_error:
  assumes "bm_inv M m" "b \<notin># M"
  shows "decref (bm_recycler m) b (bm_alloc m, bm_cache m) = Inl InvalidBlockError"
  by (rule block_recycler.double_free_raises [OF recycling bm_inv_pool [OF assms(1)] assms(2)])

theorem double_free_is_an_error_witness:
  "decref (bm_recycler demo_bman) 3 (bm_alloc demo_bman, bm_cache demo_bman) = Inl InvalidBlockError"
  by (rule double_free_is_an_error [OF demo_bman_inv]) simp

text \<open>C22: The 8-byte token encoding loses nothing: token lists within 64 bits encode, different
  lists encode differently, and a token outside raises \<open>OverflowError\<close>.\<close>

theorem token_encoding_is_injective:
  "(list_all fits64 xs \<longrightarrow> list_all fits64 ys \<longrightarrow> token_bytes xs = token_bytes ys \<longrightarrow> xs = ys)
   \<and> (list_all fits64 xs \<longrightarrow> returns (token_bytes xs))
   \<and> (\<not> list_all fits64 xs \<longrightarrow> token_bytes xs = Inl OverflowError)"
  using token_bytes_eq tokens_bytes_inj token_bytes_overflow by (auto simp: returns_def)

theorem token_encoding_is_injective_witness:
  "token_bytes [1, - 2] = Inr (tokens_bytes [1, - 2]) \<and> returns (token_bytes [1, - 2])"
  using token_encoding_is_injective [of "[1, - 2]" "[]"] token_bytes_eq [of "[1, - 2]"] by (simp add: fits64_def)


end
